(* ===== verification/FMQ_Prelude.thy ===== *)
theory FMQ_Prelude
  imports Main "HOL-Library.Word" "HOL-Library.Monad_Syntax" "HOL-Library.Multiset"
begin

unbundle bit_operations_syntax

text \<open>
  Shared vocabulary of the development: the machine integers of the code, the
  byte-addressed memory that the queue, its counters and the callers' buffers live in,
  and the generic lemmas about them.

  A pointer is a memory object with a byte offset; a null pointer is \<open>None\<close> of type
  \<open>ptr option\<close>. Two mappings of the same shared file are the same object, so the
  aliasing of grantors that overlap in one file is visible in the model. An operation
  that would dereference null, divide by zero or fail a \<open>CHECK\<close> returns \<open>None\<close>.
\<close>

section \<open>Machine integers\<close>

text \<open>\<open>size_t\<close> and \<open>uint64_t\<close> are 64 bits wide (LP64), \<open>int\<close> and \<open>status_t\<close> are 32.\<close>

type_synonym u8 = "8 word"
type_synonym u32 = "32 word"
type_synonym u64 = "64 word"
type_synonym i32 = "32 word"
type_synonym i64 = "64 word"

named_theorems fmq_word \<open>conversion of word operations to natural numbers\<close>
named_theorems fmq_mem \<open>reading memory after writing it\<close>

lemma unat_mult_no_wrap:
  fixes a b :: u64
  assumes "unat a * unat b < 2 ^ 64"
  shows "unat (a * b) = unat a * unat b"
  using assms unat_mult_lem [of a b] by simp

lemma unat_add_no_wrap:
  fixes a b :: u64
  assumes "unat a + unat b < 2 ^ 64"
  shows "unat (a + b) = unat a + unat b"
  using assms unat_add_lem [of a b] by simp

lemma unat_sub_le:
  fixes a b :: u64
  assumes "b \<le> a"
  shows "unat (a - b) = unat a - unat b"
  using assms by (rule unat_sub)

lemma unat64_less: "unat (a :: u64) < 2 ^ 64"
  using unsigned_less [of a] by simp

lemma u64_eq_of_nat:
  fixes w :: u64
  assumes "unat w = n"
  shows "w = of_nat n"
  using assms by (metis of_nat_unat ucast_id)

lemmas [fmq_word] = unat_div unat_mod word_less_nat_alt word_le_nat_alt

text \<open>
  \<open>checked_div\<close> and \<open>checked_mod\<close> are the C++ operators on unsigned operands: a zero
  divisor is a crash.
\<close>

definition checked_div :: "u64 \<Rightarrow> u64 \<Rightarrow> u64 option" where
  "checked_div a b = (if b = 0 then None else Some (a div b))"

definition checked_mod :: "u64 \<Rightarrow> u64 \<Rightarrow> u64 option" where
  "checked_mod a b = (if b = 0 then None else Some (a mod b))"

lemma checked_div_nonzero [simp]: "b \<noteq> 0 \<Longrightarrow> checked_div a b = Some (a div b)"
  by (simp add: checked_div_def)

lemma checked_mod_nonzero [simp]: "b \<noteq> 0 \<Longrightarrow> checked_mod a b = Some (a mod b)"
  by (simp add: checked_mod_def)

section \<open>Little-endian bytes of a word\<close>

fun word_to_le :: "nat \<Rightarrow> 'a::len word \<Rightarrow> u8 list" where
  "word_to_le 0 w = []"
| "word_to_le (Suc n) w = ucast w # word_to_le n (drop_bit 8 w)"

fun word_of_le :: "u8 list \<Rightarrow> 'a::len word" where
  "word_of_le [] = 0"
| "word_of_le (b # bs) = ucast b OR push_bit 8 (word_of_le bs)"

lemma length_word_to_le [simp]: "length (word_to_le n w) = n"
  by (induction n arbitrary: w) simp_all

lemma take_bit_split8:
  fixes w :: "'a::len word"
  shows "ucast (ucast w :: u8) OR push_bit 8 (take_bit k (drop_bit 8 w)) = take_bit (8 + k) w"
  by (rule bit_word_eqI) (auto simp: bit_simps add.commute)

lemma word_of_to_le: "word_of_le (word_to_le n w) = take_bit (8 * n) (w :: 'a::len word)"
proof (induction n arbitrary: w)
  case 0
  then show ?case by simp
next
  case (Suc n)
  then show ?case using take_bit_split8 [of w "8 * n"] by simp
qed

lemma take_bit_word_of_le: "take_bit (8 * length bs) (word_of_le bs :: 'a::len word) = word_of_le bs"
proof (induction bs)
  case Nil
  then show ?case by simp
next
  case (Cons b bs)
  have "\<not> bit (word_of_le bs :: 'a word) (i - 8)" if "\<not> i < 8 + 8 * length bs" for i
    using that Cons by (metis bit_take_bit_iff add.commute less_diff_conv2 linorder_not_less add_leE)
  then show ?case by (intro bit_word_eqI) (auto simp: bit_simps dest: bit_imp_le_length)
qed

lemma word_to_of_le:
  assumes "8 * length bs \<le> LENGTH('a)"
  shows "word_to_le (length bs) (word_of_le bs :: 'a::len word) = bs"
  using assms
proof (induction bs)
  case Nil
  then show ?case by simp
next
  case (Cons b bs)
  let ?x = "word_of_le bs :: 'a word"
  have x: "bit ?x i \<Longrightarrow> i < 8 * length bs" for i
    by (metis bit_take_bit_iff take_bit_word_of_le)
  have "ucast (ucast b OR push_bit 8 ?x) = b"
    using Cons.prems by (intro bit_word_eqI) (auto simp: bit_simps)
  moreover have "drop_bit 8 (ucast b OR push_bit 8 ?x) = ?x"
    using Cons.prems x by (intro bit_word_eqI) (fastforce simp: bit_simps dest: bit_imp_le_length)
  ultimately show ?case using Cons by simp
qed

section \<open>Memory objects and pointers\<close>

text \<open>
  \<open>Shm k\<close> is the content of a shared memory file (an ashmem region or a file descriptor
  supplied by the user), \<open>Heap k\<close> an allocation private to one process (a caller's
  buffer, the private read counter of the unsynchronized flavor).
\<close>

datatype obj = Shm nat | Heap nat

datatype ptr = Ptr (pobj: obj) (poff: nat)

type_synonym mem = "obj \<Rightarrow> nat \<Rightarrow> u8"

definition padd :: "ptr \<Rightarrow> nat \<Rightarrow> ptr" where
  "padd p k = Ptr (pobj p) (poff p + k)"

lemma padd_simps [simp]:
  "pobj (padd p k) = pobj p" "poff (padd p k) = poff p + k"
  "padd p 0 = p" "padd (padd p j) k = padd p (j + k)"
  by (simp_all add: padd_def add.assoc)

definition rd_bytes :: "mem \<Rightarrow> ptr \<Rightarrow> nat \<Rightarrow> u8 list" where
  "rd_bytes m p n = map (\<lambda>i. m (pobj p) (poff p + i)) [0..<n]"

definition wr_bytes :: "mem \<Rightarrow> ptr \<Rightarrow> u8 list \<Rightarrow> mem" where
  "wr_bytes m p bs = m(pobj p := (\<lambda>i. if poff p \<le> i \<and> i < poff p + length bs
     then bs ! (i - poff p) else m (pobj p) i))"

text \<open>Two byte ranges do not overlap (an empty range overlaps nothing).\<close>

definition sep :: "ptr \<Rightarrow> nat \<Rightarrow> ptr \<Rightarrow> nat \<Rightarrow> bool" where
  "sep p n q k \<longleftrightarrow> n = 0 \<or> k = 0 \<or> pobj p \<noteq> pobj q \<or>
     poff p + n \<le> poff q \<or> poff q + k \<le> poff p"

text \<open>An address lies in a byte range.\<close>

definition in_range :: "ptr \<Rightarrow> nat \<Rightarrow> obj \<Rightarrow> nat \<Rightarrow> bool" where
  "in_range p n ob i \<longleftrightarrow> ob = pobj p \<and> poff p \<le> i \<and> i < poff p + n"

lemma sep_commute: "sep p n q k = sep q k p n"
  by (auto simp: sep_def)

lemma sep_mono:
  assumes "sep p n q k" and "pobj p' = pobj p" and "poff p \<le> poff p'" and "poff p' + n' \<le> poff p + n"
  shows "sep p' n' q k"
  using assms by (auto simp: sep_def)

lemma sep_padd [intro]: "sep p n q k \<Longrightarrow> a + b \<le> n \<Longrightarrow> sep (padd p a) b q k"
  by (auto simp: sep_def)

lemma length_rd_bytes [simp]: "length (rd_bytes m p n) = n"
  by (simp add: rd_bytes_def)

lemma nth_rd_bytes [simp]: "i < n \<Longrightarrow> rd_bytes m p n ! i = m (pobj p) (poff p + i)"
  by (simp add: rd_bytes_def)

lemma rd_bytes_0 [simp]: "rd_bytes m p 0 = []"
  by (simp add: rd_bytes_def)

lemma rd_bytes_eqI:
  assumes "\<And>i. i < n \<Longrightarrow> m (pobj p) (poff p + i) = m' (pobj q) (poff q + i)"
  shows "rd_bytes m p n = rd_bytes m' q n"
  using assms by (auto intro: nth_equalityI)

lemma rd_bytes_append: "rd_bytes m p (a + b) = rd_bytes m p a @ rd_bytes m (padd p a) b"
  by (auto intro!: nth_equalityI simp: nth_append add.assoc)

lemma take_rd_bytes [simp]: "k \<le> n \<Longrightarrow> take k (rd_bytes m p n) = rd_bytes m p k"
  by (auto intro: nth_equalityI)

lemma drop_rd_bytes [simp]: "drop k (rd_bytes m p n) = rd_bytes m (padd p k) (n - k)"
  by (auto intro!: nth_equalityI simp: add.assoc)

lemma wr_bytes_out [fmq_mem]:
  "\<not> in_range p (length bs) ob i \<Longrightarrow> wr_bytes m p bs ob i = m ob i"
  by (auto simp: wr_bytes_def in_range_def)

lemma wr_bytes_in:
  "i < length bs \<Longrightarrow> wr_bytes m p bs (pobj p) (poff p + i) = bs ! i"
  by (simp add: wr_bytes_def)

lemma wr_bytes_Nil [simp]: "wr_bytes m p [] = m"
  by (auto simp: wr_bytes_def fun_eq_iff)

lemma rd_wr_same [simp]: "n = length bs \<Longrightarrow> rd_bytes (wr_bytes m p bs) p n = bs"
  by (auto intro: nth_equalityI simp: wr_bytes_in)

lemma rd_wr_sep [fmq_mem]:
  assumes "sep p (length bs) q n"
  shows "rd_bytes (wr_bytes m p bs) q n = rd_bytes m q n"
  using assms by (intro rd_bytes_eqI wr_bytes_out) (auto simp: sep_def in_range_def)

lemma rd_bytes_cong:
  assumes "\<And>i. poff p \<le> i \<Longrightarrow> i < poff p + n \<Longrightarrow> m (pobj p) i = m' (pobj p) i"
  shows "rd_bytes m p n = rd_bytes m' p n"
  using assms by (intro rd_bytes_eqI) simp

text \<open>\<open>memcpy(dst, src, n)\<close>.\<close>

definition memcpy :: "mem \<Rightarrow> ptr \<Rightarrow> ptr \<Rightarrow> nat \<Rightarrow> mem" where
  "memcpy m dst src n = wr_bytes m dst (rd_bytes m src n)"

lemma memcpy_0 [simp]: "memcpy m dst src 0 = m"
  by (simp add: memcpy_def)

lemma memcpy_out [fmq_mem]: "\<not> in_range dst n ob i \<Longrightarrow> memcpy m dst src n ob i = m ob i"
  by (simp add: memcpy_def wr_bytes_out)

lemma memcpy_in:
  "i < n \<Longrightarrow> memcpy m dst src n (pobj dst) (poff dst + i) = m (pobj src) (poff src + i)"
  using wr_bytes_in [of i "rd_bytes m src n" m dst] by (simp add: memcpy_def)

lemma rd_memcpy_same [simp]: "rd_bytes (memcpy m dst src n) dst n = rd_bytes m src n"
  by (simp add: memcpy_def)

lemma rd_memcpy_sep [fmq_mem]:
  "sep dst n q k \<Longrightarrow> rd_bytes (memcpy m dst src n) q k = rd_bytes m q k"
  by (simp add: memcpy_def rd_wr_sep)

section \<open>Arrays of messages\<close>

text \<open>The \<open>n\<close> messages of \<open>sz\<close> bytes each that are stored from \<open>p\<close> on.\<close>

definition elems :: "mem \<Rightarrow> ptr \<Rightarrow> nat \<Rightarrow> nat \<Rightarrow> u8 list list" where
  "elems m p sz n = map (\<lambda>j. rd_bytes m (padd p (j * sz)) sz) [0..<n]"

lemma length_elems [simp]: "length (elems m p sz n) = n"
  by (simp add: elems_def)

lemma elems_0 [simp]: "elems m p sz 0 = []"
  by (simp add: elems_def)

lemma elems_append: "elems m p sz (a + b) = elems m p sz a @ elems m (padd p (a * sz)) sz b"
  by (rule nth_equalityI) (auto simp: elems_def nth_append algebra_simps)

lemma elems_cong:
  assumes "rd_bytes m p (n * sz) = rd_bytes m' q (n * sz)"
  shows "elems m p sz n = elems m' q sz n"
proof -
  have "rd_bytes m (padd p (j * sz)) sz = rd_bytes m' (padd q (j * sz)) sz" if "j < n" for j
  proof -
    from that have le: "j * sz + sz \<le> n * sz"
      by (metis Suc_leI add.commute mult_Suc mult_le_mono1)
    then have "rd_bytes m'' (padd r (j * sz)) sz = take sz (drop (j * sz) (rd_bytes m'' r (n * sz)))"
      for m'' r by simp
    with assms show ?thesis by metis
  qed
  then show ?thesis by (simp add: elems_def)
qed

text \<open>A byte of the array lies in one of its messages.\<close>

lemma in_range_elems:
  assumes "in_range p (n * sz) ob i"
  shows "\<exists>j<n. in_range (padd p (j * sz)) sz ob i"
proof -
  from assms have pos: "0 < sz" by (cases "sz = 0") (auto simp: in_range_def)
  from assms obtain k where k: "i = poff p + k" "k < n * sz"
    unfolding in_range_def by (metis add_less_cancel_left le_iff_add)
  define q where "q = k div sz"
  have "q < n" using k(2) by (simp add: q_def less_mult_imp_div_less)
  moreover have "q * sz \<le> k" "k < q * sz + sz"
    using pos dividend_less_div_times [of sz k] by (simp_all add: q_def add.commute)
  ultimately show ?thesis using assms k(1)
    by (intro exI [of _ q]) (simp add: in_range_def)
qed

section \<open>Atomic cells\<close>

text \<open>
  The interface the queue uses of its \<open>std::atomic\<close> words: a load after a store to the
  same cell gives the stored value, and a store touches only the bytes of its cell.
\<close>

locale atomic_cell =
  fixes load :: "mem \<Rightarrow> ptr \<Rightarrow> 'w"
    and store :: "mem \<Rightarrow> ptr \<Rightarrow> 'w \<Rightarrow> mem"
    and width :: nat
  assumes load_store_same: "load (store m p w) p = w"
    and store_out: "\<not> in_range p width ob i \<Longrightarrow> store m p w ob i = m ob i"
    and load_local: "rd_bytes m p width = rd_bytes m' p width \<Longrightarrow> load m p = load m' p"
begin

lemma rd_bytes_store_sep:
  assumes "sep p width q n"
  shows "rd_bytes (store m p w) q n = rd_bytes m q n"
  using assms by (intro rd_bytes_eqI store_out) (auto simp: sep_def in_range_def)

lemma load_store_sep: "sep p width q width \<Longrightarrow> load (store m p w) q = load m q"
  by (rule load_local) (rule rd_bytes_store_sep)

lemma load_unchanged:
  assumes "\<And>i. in_range p width (pobj p) i \<Longrightarrow> m' (pobj p) i = m (pobj p) i"
  shows "load m' p = load m p"
  by (rule load_local) (rule rd_bytes_cong, simp add: assms in_range_def)

lemma load_wr_bytes_sep: "sep q (length bs) p width \<Longrightarrow> load (wr_bytes m q bs) p = load m p"
  by (rule load_local) (rule rd_wr_sep)

lemma load_memcpy_sep: "sep q n p width \<Longrightarrow> load (memcpy m q s n) p = load m p"
  by (rule load_local) (rule rd_memcpy_sep)

end

definition load64 :: "mem \<Rightarrow> ptr \<Rightarrow> u64" where
  "load64 m p = word_of_le (rd_bytes m p 8)"

definition store64 :: "mem \<Rightarrow> ptr \<Rightarrow> u64 \<Rightarrow> mem" where
  "store64 m p w = wr_bytes m p (word_to_le 8 w)"

definition load32 :: "mem \<Rightarrow> ptr \<Rightarrow> u32" where
  "load32 m p = word_of_le (rd_bytes m p 4)"

definition store32 :: "mem \<Rightarrow> ptr \<Rightarrow> u32 \<Rightarrow> mem" where
  "store32 m p w = wr_bytes m p (word_to_le 4 w)"

lemma take_bit_64 [simp]: "take_bit 64 (w :: u64) = w"
  by (rule take_bit_word_eq_self) simp

lemma take_bit_32 [simp]: "take_bit 32 (w :: u32) = w"
  by (rule take_bit_word_eq_self) simp

interpretation cell64: atomic_cell load64 store64 8
  by unfold_locales (simp_all add: load64_def store64_def word_of_to_le wr_bytes_out)

interpretation cell32: atomic_cell load32 store32 4
  by unfold_locales (simp_all add: load32_def store32_def word_of_to_le wr_bytes_out)

lemmas [fmq_mem] =
  cell64.load_store_same cell64.load_store_sep cell64.rd_bytes_store_sep
  cell64.load_wr_bytes_sep cell64.load_memcpy_sep cell64.store_out
  cell32.load_store_same cell32.load_store_sep cell32.rd_bytes_store_sep
  cell32.load_wr_bytes_sep cell32.load_memcpy_sep cell32.store_out

lemma store64_load64: "store64 m p (load64 m p) = m"
proof -
  have "word_to_le 8 (word_of_le (rd_bytes m p 8) :: u64) = rd_bytes m p 8"
    using word_to_of_le [of "rd_bytes m p 8", where 'a = 64] by simp
  then show ?thesis
    by (auto simp: store64_def load64_def wr_bytes_def fun_eq_iff)
qed

lemma store32_load32: "store32 m p (load32 m p) = m"
proof -
  have "word_to_le 4 (word_of_le (rd_bytes m p 4) :: u32) = rd_bytes m p 4"
    using word_to_of_le [of "rd_bytes m p 4", where 'a = 32] by simp
  then show ?thesis
    by (auto simp: store32_def load32_def wr_bytes_def fun_eq_iff)
qed
text \<open>Atomic accesses through a pointer that may be null.\<close>

definition load64p :: "mem \<Rightarrow> ptr option \<Rightarrow> u64 option" where
  "load64p m p = map_option (load64 m) p"

definition store64p :: "mem \<Rightarrow> ptr option \<Rightarrow> u64 \<Rightarrow> mem option" where
  "store64p m p w = map_option (\<lambda>q. store64 m q w) p"

lemma load64p_simps [simp]: "load64p m None = None" "load64p m (Some p) = Some (load64 m p)"
  by (simp_all add: load64p_def)

lemma store64p_simps [simp]:
  "store64p m None w = None" "store64p m (Some p) w = Some (store64 m p w)"
  by (simp_all add: store64p_def)

end
