(* ===== verification/MQDescriptorBase.thy ===== *)
theory MQDescriptorBase
  imports FMQ_Prelude
begin

text \<open>
  Model of base/fmq/MQDescriptorBase.h and of the \<open>check\<close> helper of FmqInternal.cpp: the
  queue flavors, the grantor descriptors, the grantor positions, and the rounding of a
  length up to the word boundary.
\<close>

section \<open>Flavors and grantors\<close>

datatype MQFlavor = kSynchronizedReadWrite | kUnsynchronizedWrite

primrec flavor_value :: "MQFlavor \<Rightarrow> u32" where
  "flavor_value kSynchronizedReadWrite = 0x01"
| "flavor_value kUnsynchronizedWrite = 0x02"

lemma flavor_value_inject: "flavor_value a = flavor_value b \<longleftrightarrow> a = b"
  by (cases a; cases b) simp_all

record GrantorDescriptor =
  flags :: u32
  fdIndex :: u32
  offset :: u32
  extent :: u64

text \<open>\<open>enum GrantorType\<close>, used as positions in the grantor vector.\<close>

definition READPTRPOS :: nat where [simp]: "READPTRPOS = 0"
definition WRITEPTRPOS :: nat where [simp]: "WRITEPTRPOS = 1"
definition DATAPTRPOS :: nat where [simp]: "DATAPTRPOS = 2"
definition EVFLAGWORDPOS :: nat where [simp]: "EVFLAGWORDPOS = 3"

definition kMinGrantorCount :: nat where
  [simp]: "kMinGrantorCount = DATAPTRPOS + 1"

definition kMinGrantorCountForEvFlagSupport :: nat where
  [simp]: "kMinGrantorCountForEvFlagSupport = EVFLAGWORDPOS + 1"

text \<open>\<open>sizeof(RingBufferPosition)\<close> and \<open>sizeof(std::atomic<uint32_t>)\<close>.\<close>

definition sizeofRingBufferPosition :: u64 where [simp]: "sizeofRingBufferPosition = 8"
definition sizeofEvFlagWord :: u64 where [simp]: "sizeofEvFlagWord = 4"

section \<open>Alignment\<close>

text \<open>\<open>details::check\<close>: a failed \<open>CHECK\<close> aborts the process.\<close>

definition check :: "bool \<Rightarrow> unit option" where
  "check exp = (if exp then Some () else None)"

definition kAlignmentSize :: u64 where "kAlignmentSize = 64"

definition SIZE_MAX :: u64 where "SIZE_MAX = - 1"

definition alignToWordBoundary :: "u64 \<Rightarrow> u64 option" where
  "alignToWordBoundary len = do {
     check (len \<le> SIZE_MAX - kAlignmentSize div 8 + 1);
     Some ((len + kAlignmentSize div 8 - 1) AND NOT (kAlignmentSize div 8 - 1))
   }"

definition isAlignedToWordBoundary :: "u64 \<Rightarrow> bool" where
  "isAlignedToWordBoundary off \<longleftrightarrow> off AND (kAlignmentSize div 8 - 1) = 0"

text \<open>Clearing or keeping the low bits is rounding modulo a power of two.\<close>

lemma and_mask_mod:
  fixes x :: "'a::len word"
  assumes "k < LENGTH('a)"
  shows "unat (x AND mask k) = unat x mod 2 ^ k"
proof -
  have "unat (take_bit k x) = take_bit k (unat x)"
    by (rule unsigned_take_bit_eq)
  then show ?thesis by (simp only: take_bit_eq_mask [symmetric] take_bit_eq_mod [of k "unat x"])
qed

lemma and_not_mask_div:
  fixes x :: "'a::len word"
  assumes "k < LENGTH('a)"
  shows "unat (x AND NOT (mask k)) = unat x div 2 ^ k * 2 ^ k"
proof -
  have "x AND NOT (mask k) = x - (x AND mask k)"
    by (subst disjunctive_diff_eq_and_not) (auto simp: bit_eq_iff bit_simps)
  moreover have "x AND mask k \<le> x"
    by (rule word_and_le2)
  ultimately have "unat (x AND NOT (mask k)) = unat x - unat x mod 2 ^ k"
    by (simp add: unat_sub and_mask_mod [OF assms])
  then show ?thesis by (simp add: minus_mod_eq_div_mult)
qed

lemma alignment_mask: "kAlignmentSize div 8 - 1 = (mask 3 :: u64)"
  by (simp add: kAlignmentSize_def mask_eq_exp_minus_1)

lemma isAligned_iff: "isAlignedToWordBoundary off \<longleftrightarrow> 8 dvd unat off"
proof -
  have "off AND mask 3 = 0 \<longleftrightarrow> unat (off AND mask 3) = 0"
    by (simp add: unat_eq_zero)
  also have "\<dots> \<longleftrightarrow> 8 dvd unat off"
    using and_mask_mod [of 3 off] by (simp add: dvd_eq_mod_eq_0)
  finally show ?thesis
    by (simp add: isAlignedToWordBoundary_def alignment_mask)
qed

lemma align_limit: "unat (SIZE_MAX - kAlignmentSize div 8 + 1) = 2 ^ 64 - 8"
  by (simp add: SIZE_MAX_def kAlignmentSize_def)

lemma align_sum: "unat len \<le> 2 ^ 64 - 8 \<Longrightarrow> unat (len + kAlignmentSize div 8 - 1) = unat len + 7"
  by (simp add: kAlignmentSize_def unat_add_no_wrap)

lemma alignToWordBoundary_eq:
  "alignToWordBoundary len =
     (if unat len \<le> 2 ^ 64 - 8 then Some (of_nat ((unat len + 7) div 8 * 8)) else None)"
proof (cases "unat len \<le> 2 ^ 64 - 8")
  case True
  have "unat ((len + kAlignmentSize div 8 - 1) AND NOT (mask 3)) = (unat len + 7) div 8 * 8"
    using and_not_mask_div [of 3 "len + kAlignmentSize div 8 - 1"] align_sum [OF True] by simp
  then have "(len + kAlignmentSize div 8 - 1) AND NOT (mask 3) = of_nat ((unat len + 7) div 8 * 8)"
    by (rule u64_eq_of_nat)
  with True show ?thesis
    by (simp add: alignToWordBoundary_def check_def alignment_mask word_le_nat_alt align_limit)
next
  case False
  then show ?thesis
    by (simp add: alignToWordBoundary_def check_def word_le_nat_alt align_limit)
qed

lemma alignToWordBoundary_unat:
  assumes "alignToWordBoundary len = Some a"
  shows "unat a = (unat len + 7) div 8 * 8"
proof -
  from assms have le: "unat len \<le> 2 ^ 64 - 8" and a: "a = of_nat ((unat len + 7) div 8 * 8)"
    by (auto simp: alignToWordBoundary_eq split: if_splits)
  from le have "(unat len + 7) div 8 * 8 < 2 ^ 64" by simp
  then show ?thesis unfolding a by (simp only: unat_of_nat) simp
qed

text \<open>
  \<open>alignToWordBoundary\<close> returns the least multiple of 8 that is not below the length,
  without wrap-around; it aborts exactly for the lengths above \<open>2^64 - 8\<close>, where no such
  multiple is representable, and a returned value passes \<open>isAlignedToWordBoundary\<close>.
\<close>

theorem alignToWordBoundary_least:
  "case alignToWordBoundary len of
     None \<Rightarrow> 2 ^ 64 - 8 < unat len
   | Some a \<Rightarrow> isAlignedToWordBoundary a \<and> unat len \<le> unat a \<and> unat a < unat len + 8"
proof (cases "alignToWordBoundary len")
  case None
  then show ?thesis by (auto simp: alignToWordBoundary_eq split: if_splits)
next
  case (Some a)
  note a = alignToWordBoundary_unat [OF Some]
  have "unat len \<le> (unat len + 7) div 8 * 8" "(unat len + 7) div 8 * 8 < unat len + 8"
    by simp_all
  with Some show ?thesis by (simp add: a isAligned_iff)
qed

end
