(* ===== verification/FMQ_System.thy ===== *)
theory FMQ_System
  imports FMQ_Prelude "HOL-Library.Signed_Division"
begin

text \<open>
  The system the library runs on, as a parameter of the model. A thread's view of the world is
  the shared memory and the history of the system calls it has made, newest first. The record
  \<open>os\<close> gives the answer to each call as a function of that history, so every behaviour of the
  kernel, the clocks and libcutils is some \<open>os\<close>. What other threads do to the shared memory
  becomes visible to this thread at its system calls: \<open>os_run\<close>.
\<close>

section \<open>Status codes and times\<close>

text \<open>
  errno values of Linux and the codes of utils/Errors.h built from them. Signed times are
  unbounded integers: a 64-bit count of nanoseconds lasts for 292 years.
\<close>

type_synonym errno = int
type_synonym status_t = int

definition EINTR :: errno where [simp]: "EINTR = 4"
definition EAGAIN :: errno where [simp]: "EAGAIN = 11"
definition ENOMEM :: errno where [simp]: "ENOMEM = 12"
definition EPERM :: errno where [simp]: "EPERM = 1"
definition EINVAL :: errno where [simp]: "EINVAL = 22"
definition ETIMEDOUT :: errno where [simp]: "ETIMEDOUT = 110"

definition NO_ERROR :: status_t where [simp]: "NO_ERROR = 0"
definition BAD_VALUE :: status_t where [simp]: "BAD_VALUE = - EINVAL"
definition NO_MEMORY :: status_t where [simp]: "NO_MEMORY = - ENOMEM"
definition TIMED_OUT :: status_t where [simp]: "TIMED_OUT = - ETIMEDOUT"

record timespec =
  tv_sec :: int
  tv_nsec :: int

section \<open>System calls\<close>

text \<open>\<open>native_handle_t\<close> of libcutils: \<open>numFds\<close> file descriptors, then \<open>numInts\<close> integers.\<close>

record native_handle =
  numFds :: int
  numInts :: int
  data :: "int list"

datatype sys_event =
    EvFutexWait ptr u32 "timespec option" u32 "errno option"
  | EvFutexWake ptr u32 "errno option"
  | EvClock int
  | EvGettime timespec
  | EvMmap int bool int int "errno + nat"
  | EvMunmap obj int int "errno option"
  | EvNew "nat option"
  | EvDelete ptr
  | EvHandleCreate int int bool
  | EvHandleClose "int list"
  | EvDup int int
  | EvAshmem u64 int
  | EvClose int

type_synonym history = "sys_event list"

text \<open>
  An error answer is \<open>Some e\<close> for a return value of -1 with \<open>errno = e\<close>. \<open>os_mmap\<close> answers with
  the memory object of the mapped file, \<open>os_new\<close> with a fresh heap object or null. A mapped
  piece of a file is named by the object, the offset in the file and the length.
\<close>

record os =
  os_run :: "history \<Rightarrow> mem \<Rightarrow> mem"
  os_futexWait :: "history \<Rightarrow> mem \<Rightarrow> ptr \<Rightarrow> u32 \<Rightarrow> timespec option \<Rightarrow> u32 \<Rightarrow> errno option"
  os_futexWake :: "history \<Rightarrow> mem \<Rightarrow> ptr \<Rightarrow> u32 \<Rightarrow> errno option"
  os_clock :: "history \<Rightarrow> int"
  os_gettime :: "history \<Rightarrow> timespec"
  os_mmap :: "history \<Rightarrow> int \<Rightarrow> bool \<Rightarrow> int \<Rightarrow> int \<Rightarrow> errno + nat"
  os_munmap :: "history \<Rightarrow> obj \<Rightarrow> int \<Rightarrow> int \<Rightarrow> errno option"
  os_new :: "history \<Rightarrow> nat option"
  os_handleCreate :: "history \<Rightarrow> int \<Rightarrow> int \<Rightarrow> bool"
  os_dup :: "history \<Rightarrow> int \<Rightarrow> int"
  os_ashmem :: "history \<Rightarrow> u64 \<Rightarrow> int"
  os_pagesize :: u64

record world =
  wmem :: mem
  hist :: history

text \<open>A call is recorded, and the other threads run before it returns.\<close>

definition ran :: "os \<Rightarrow> sys_event \<Rightarrow> world \<Rightarrow> world" where
  "ran os e w = \<lparr>wmem = os_run os (e # hist w) (wmem w), hist = e # hist w\<rparr>"

definition sys_munmap :: "os \<Rightarrow> obj \<Rightarrow> int \<Rightarrow> int \<Rightarrow> world \<Rightarrow> errno option \<times> world" where
  "sys_munmap os ob start len w =
     (let r = os_munmap os (hist w) ob start len in (r, ran os (EvMunmap ob start len r) w))"

text \<open>The destructor of \<open>unique_fd\<close>, which holds -1 when it owns no file.\<close>

definition sys_close :: "os \<Rightarrow> int \<Rightarrow> world \<Rightarrow> world" where
  "sys_close os fd w = (if fd = - 1 then w else ran os (EvClose fd) w)"

definition sys_new :: "os \<Rightarrow> world \<Rightarrow> nat option \<times> world" where
  "sys_new os w = (let a = os_new os (hist w) in (a, ran os (EvNew a) w))"

text \<open>What the other threads made of a memory in the course of the calls \<open>es\<close> after \<open>h\<close>.\<close>

fun replay :: "os \<Rightarrow> history \<Rightarrow> history \<Rightarrow> mem \<Rightarrow> mem" where
  "replay os [] h m = m"
| "replay os (e # es) h m = os_run os (e # es @ h) (replay os es h m)"

lemma ran_simps [simp]:
  "wmem (ran os e w) = os_run os (e # hist w) (wmem w)" "hist (ran os e w) = e # hist w"
  by (simp_all add: ran_def)

lemma replay_append: "replay os (es2 @ es1) h m = replay os es2 (es1 @ h) (replay os es1 h m)"
  by (induction es2) simp_all

text \<open>
  The part of the history that a computation from \<open>w\<close> to \<open>w'\<close> added; the memory of \<open>w'\<close> is what
  the others made of the one of \<open>w\<close>, when this thread itself has changed nothing.
\<close>

definition only_others :: "os \<Rightarrow> world \<Rightarrow> world \<Rightarrow> bool" where
  "only_others os w w' \<longleftrightarrow>
     (\<exists>es. hist w' = es @ hist w \<and> wmem w' = replay os es (hist w) (wmem w))"

lemma only_others_refl [simp, intro]: "only_others os w w"
  unfolding only_others_def by (rule exI [of _ "[]"]) simp

lemma only_others_ran [simp, intro]: "only_others os w (ran os e w)"
  unfolding only_others_def by (rule exI [of _ "[e]"]) simp

lemma only_others_trans [trans]:
  assumes "only_others os w w'" and "only_others os w' w''"
  shows "only_others os w w''"
  using assms unfolding only_others_def by (metis append.assoc replay_append)

lemma only_others_hist: "only_others os w w' \<Longrightarrow> \<exists>es. hist w' = es @ hist w"
  by (auto simp: only_others_def)

section \<open>Bounded loops\<close>

text \<open>
  A loop that may wait for ever takes fuel: \<open>None\<close> is a crash, \<open>Some NoFuel\<close> a loop that is still
  running when the fuel is used up.
\<close>

datatype 'a fuelled = Done 'a | NoFuel

end
