(* ===== verification/AidlMQDescriptorShim.thy ===== *)
theory AidlMQDescriptorShim
  imports MQDescriptorBase FMQ_System
begin

text \<open>
  Model of include/fmq/AidlMQDescriptorShim.h: the descriptor a queue is built from. Its state
  is the vector of grantors, the native handle with the file descriptors, the quantum (size
  of a message) and the flags. The HIDL descriptor, which is not part of the repository,
  is used by the queue only through the same accessors.
\<close>

section \<open>State and accessors\<close>

record MQDescriptor =
  mGrantors :: "GrantorDescriptor list"
  mHandle :: "native_handle option"
  mQuantum :: u32
  mFlags :: u32

definition getSize :: "MQDescriptor \<Rightarrow> u64" where
  "getSize d = (if DATAPTRPOS < length (mGrantors d) then extent (mGrantors d ! DATAPTRPOS) else 0)"

definition getQuantum :: "MQDescriptor \<Rightarrow> u64" where
  "getQuantum d = ucast (mQuantum d)"

definition getFlags :: "MQDescriptor \<Rightarrow> u32" where
  "getFlags d = mFlags d"

definition isHandleValid :: "MQDescriptor \<Rightarrow> bool" where
  "isHandleValid d \<longleftrightarrow> mHandle d \<noteq> None"

definition countGrantors :: "MQDescriptor \<Rightarrow> nat" where
  "countGrantors d = length (mGrantors d)"

section \<open>libcutils and the AIDL types\<close>

text \<open>
  \<open>native_handle_create\<close> allocates a handle for so many descriptors and integers, or fails;
  \<open>native_handle_close\<close> closes its descriptors; \<open>dup\<close> gives a new descriptor.
\<close>

definition native_handle_create ::
  "os \<Rightarrow> int \<Rightarrow> int \<Rightarrow> world \<Rightarrow> native_handle option \<times> world" where
  "native_handle_create os nf ni w =
     (let ok = os_handleCreate os (hist w) nf ni
      in (if ok then Some \<lparr>numFds = nf, numInts = ni, data = replicate (nat (nf + ni)) 0\<rparr> else None,
          ran os (EvHandleCreate nf ni ok) w))"

definition handle_fds :: "native_handle \<Rightarrow> int list" where
  "handle_fds h = take (nat (numFds h)) (data h)"

definition handle_ints :: "native_handle \<Rightarrow> int list" where
  "handle_ints h = take (nat (numInts h)) (drop (nat (numFds h)) (data h))"

definition native_handle_close :: "os \<Rightarrow> native_handle \<Rightarrow> world \<Rightarrow> world" where
  "native_handle_close os h w = ran os (EvHandleClose (handle_fds h)) w"

fun dup_all :: "os \<Rightarrow> int list \<Rightarrow> world \<Rightarrow> int list \<times> world" where
  "dup_all os [] w = ([], w)"
| "dup_all os (fd # fds) w =
     (let r = os_dup os (hist w) fd; (rs, w') = dup_all os fds (ran os (EvDup fd r) w)
      in (r # rs, w'))"

text \<open>The parcelables of AIDL, whose integers are signed: \<open>sint\<close> reads them.\<close>

record AidlGrantorDescriptor =
  a_fdIndex :: i32
  a_offset :: i32
  a_extent :: i64

record AidlMQDescriptor =
  a_grantors :: "AidlGrantorDescriptor list"
  a_fds :: "int list"
  a_ints :: "int list"
  a_quantum :: i32
  a_flags :: i32

section \<open>Construction\<close>

text \<open>
  The loop over the grantors of an AIDL descriptor: the vector was resized before, so the
  entries from a bad one on are zero. The flag says whether all were good.
\<close>

definition zero_grantor :: GrantorDescriptor where
  "zero_grantor = \<lparr>flags = 0, fdIndex = 0, offset = 0, extent = 0\<rparr>"

fun fill_grantors :: "AidlGrantorDescriptor list \<Rightarrow> GrantorDescriptor list \<times> bool" where
  "fill_grantors [] = ([], True)"
| "fill_grantors (g # gs) =
     (if sint (a_offset g) < 0 \<or> sint (a_extent g) < 0 \<or> sint (a_fdIndex g) < 0
      then (replicate (Suc (length gs)) zero_grantor, False)
      else (let (rs, ok) = fill_grantors gs
            in (\<lparr>flags = 0, fdIndex = a_fdIndex g, offset = a_offset g, extent = a_extent g\<rparr> # rs, ok)))"

definition shim_of_desc :: "os \<Rightarrow> AidlMQDescriptor \<Rightarrow> world \<Rightarrow> MQDescriptor \<times> world" where
  "shim_of_desc os desc w =
     (if sint (a_quantum desc) < 0 \<or> sint (a_flags desc) < 0
      then (\<lparr>mGrantors = [], mHandle = None, mQuantum = a_quantum desc, mFlags = a_flags desc\<rparr>, w)
      else
        (case fill_grantors (a_grantors desc) of (gs, ok) \<Rightarrow>
           let d = \<lparr>mGrantors = gs, mHandle = None, mQuantum = a_quantum desc, mFlags = a_flags desc\<rparr>
           in if \<not> ok then (d, w) else
             (case native_handle_create os (int (length (a_fds desc))) (int (length (a_ints desc))) w of
                (None, w1) \<Rightarrow> (d, w1)
              | (Some h, w1) \<Rightarrow>
                  (case dup_all os (a_fds desc) w1 of (fds, w2) \<Rightarrow>
                     (d\<lparr>mHandle := Some (h\<lparr>data := fds @ a_ints desc\<rparr>)\<rparr>, w2)))))"

definition shim_of_grantors ::
  "MQFlavor \<Rightarrow> GrantorDescriptor list \<Rightarrow> native_handle option \<Rightarrow> u64 \<Rightarrow> MQDescriptor" where
  "shim_of_grantors fl grantors nhandle sz =
     \<lparr>mGrantors = grantors, mHandle = nhandle, mQuantum = ucast sz, mFlags = flavor_value fl\<rparr>"

text \<open>
  The layout in one file: each grantor starts where the one before ends, rounded up. Only the
  offset itself is rounded, not the running sum.
\<close>

fun layout_grantors :: "u64 list \<Rightarrow> u64 \<Rightarrow> GrantorDescriptor list option" where
  "layout_grantors [] off = Some []"
| "layout_grantors (sz # szs) off = do {
     a \<leftarrow> alignToWordBoundary off;
     gs \<leftarrow> layout_grantors szs (off + sz);
     Some (\<lparr>flags = 0, fdIndex = 0, offset = ucast a, extent = sz\<rparr> # gs)
   }"

definition INT32_MAX :: u64 where "INT32_MAX = 2147483647"

definition shim_of_size ::
  "MQFlavor \<Rightarrow> u64 \<Rightarrow> native_handle option \<Rightarrow> u64 \<Rightarrow> bool \<Rightarrow> MQDescriptor option" where
  "shim_of_size fl bufferSize nHandle messageSize configureEventFlag = do {
     let d = \<lparr>mGrantors = [], mHandle = nHandle, mQuantum = ucast messageSize,
              mFlags = flavor_value fl\<rparr>;
     let overflow = (bufferSize > SIZE_MAX - (sizeofRingBufferPosition + sizeofRingBufferPosition));
     largestOffset \<leftarrow>
       alignToWordBoundary (sizeofRingBufferPosition + sizeofRingBufferPosition + bufferSize);
     if overflow \<or> largestOffset > INT32_MAX \<or> messageSize > INT32_MAX then Some d
     else do {
       gs \<leftarrow> layout_grantors
         (take (if configureEventFlag then kMinGrantorCountForEvFlagSupport else kMinGrantorCount)
            [sizeofRingBufferPosition, sizeofRingBufferPosition, bufferSize, sizeofEvFlagWord]) 0;
       Some (d\<lparr>mGrantors := gs\<rparr>)
     }
   }"

section \<open>Copying and destruction\<close>

text \<open>\<open>operator=\<close>. The new handle is used without a test for null: a failed allocation crashes.\<close>

definition shim_assign ::
  "os \<Rightarrow> MQDescriptor \<Rightarrow> MQDescriptor \<Rightarrow> world \<Rightarrow> (MQDescriptor \<times> world) option" where
  "shim_assign os this other w = do {
     let w1 = (case mHandle this of None \<Rightarrow> w | Some h \<Rightarrow> native_handle_close os h w);
     let d = \<lparr>mGrantors = mGrantors other, mHandle = None, mQuantum = mQuantum other,
              mFlags = mFlags other\<rparr>;
     (case mHandle other of
        None \<Rightarrow> Some (d, w1)
      | Some oh \<Rightarrow> do {
          let (h, w2) = native_handle_create os (numFds oh) (numInts oh) w1;
          nh \<leftarrow> h;
          let (fds, w3) = dup_all os (handle_fds oh) w2;
          Some (d\<lparr>mHandle := Some (nh\<lparr>data := fds @ handle_ints oh\<rparr>)\<rparr>, w3)
        })
   }"

definition shim_copy :: "os \<Rightarrow> MQFlavor \<Rightarrow> MQDescriptor \<Rightarrow> world \<Rightarrow> (MQDescriptor \<times> world) option" where
  "shim_copy os fl other w = do {
     this \<leftarrow> shim_of_size fl 0 None 0 False;
     shim_assign os this other w
   }"

definition shim_destroy :: "os \<Rightarrow> MQDescriptor \<Rightarrow> world \<Rightarrow> world" where
  "shim_destroy os d w = (case mHandle d of None \<Rightarrow> w | Some h \<Rightarrow> native_handle_close os h w)"

end
