(* ===== verification/MemTransaction.thy ===== *)
theory MemTransaction
  imports FMQ_Prelude
begin

text \<open>
  Model of \<open>MessageQueueBase::MemRegion\<close> and \<open>MessageQueueBase::MemTransaction\<close>
  (include/fmq/MessageQueueBase.h): the one or two contiguous stretches of the ring
  buffer that a read or a write of several messages covers, and the copies in and out of
  them. \<open>sz\<close> is \<open>sizeof(T)\<close>.
\<close>

section \<open>Regions and transactions\<close>

record MemRegion =
  address :: "ptr option"
  len :: u64

definition emptyMemRegion :: MemRegion where
  "emptyMemRegion = \<lparr>address = None, len = 0\<rparr>"

definition getLengthInBytes :: "u64 \<Rightarrow> MemRegion \<Rightarrow> u64" where
  "getLengthInBytes sz r = len r * sz"

record MemTransaction =
  first :: MemRegion
  second :: MemRegion

definition emptyMemTransaction :: MemTransaction where
  "emptyMemTransaction = \<lparr>first = emptyMemRegion, second = emptyMemRegion\<rparr>"

text \<open>\<open>T*\<close> arithmetic: \<open>p + k\<close> advances by \<open>k * sizeof(T)\<close> bytes.\<close>

definition tadd :: "u64 \<Rightarrow> ptr option \<Rightarrow> u64 \<Rightarrow> ptr option" where
  "tadd sz p k = map_option (\<lambda>q. padd q (unat k * unat sz)) p"

definition getSlot :: "u64 \<Rightarrow> MemTransaction \<Rightarrow> u64 \<Rightarrow> ptr option" where
  "getSlot sz tx idx =
     (let firstRegionLength = len (first tx);
          secondRegionLength = len (second tx)
      in if idx > firstRegionLength + secondRegionLength then None
         else if idx < firstRegionLength then tadd sz (address (first tx)) idx
         else tadd sz (address (second tx)) (idx - firstRegionLength))"

text \<open>
  \<open>getMemRegionInfo\<close> returns \<open>None\<close> for the code's \<open>false\<close>, and the four out-parameters
  otherwise; a base address it does not set stays the null pointer its two callers pass.
\<close>

definition getMemRegionInfo ::
  "u64 \<Rightarrow> MemTransaction \<Rightarrow> u64 \<Rightarrow> u64 \<Rightarrow> (u64 \<times> u64 \<times> ptr option \<times> ptr option) option" where
  "getMemRegionInfo sz tx startIdx nMessages =
     (let firstRegionLength = len (first tx);
          secondRegionLength = len (second tx)
      in if startIdx + nMessages > firstRegionLength + secondRegionLength then None
         else
           let firstCount = (if startIdx < firstRegionLength
                             then min nMessages (firstRegionLength - startIdx) else 0);
               secondCount = nMessages - firstCount;
               firstBaseAddress = (if firstCount \<noteq> 0
                                   then tadd sz (address (first tx)) startIdx else None);
               secondStartIdx = (if startIdx > firstRegionLength
                                 then startIdx - firstRegionLength else 0);
               secondBaseAddress = (if secondCount \<noteq> 0
                                    then tadd sz (address (second tx)) secondStartIdx else None)
           in Some (firstCount, secondCount, firstBaseAddress, secondBaseAddress))"

text \<open>\<open>memcpy\<close> through pointers that may be null, of a byte count of type \<open>size_t\<close>.\<close>

definition memcpyp :: "mem \<Rightarrow> ptr option \<Rightarrow> ptr option \<Rightarrow> u64 \<Rightarrow> mem option" where
  "memcpyp m dst src n = (case (dst, src) of
     (Some d, Some s) \<Rightarrow> Some (memcpy m d s (unat n))
   | _ \<Rightarrow> None)"

definition copyFrom ::
  "u64 \<Rightarrow> MemTransaction \<Rightarrow> mem \<Rightarrow> ptr option \<Rightarrow> u64 \<Rightarrow> u64 \<Rightarrow> (bool \<times> mem) option" where
  "copyFrom sz tx m data startIdx nMessages =
     (if data = None then Some (False, m)
      else case getMemRegionInfo sz tx startIdx nMessages of
        None \<Rightarrow> Some (False, m)
      | Some (firstReadCount, secondReadCount, firstBaseAddress, secondBaseAddress) \<Rightarrow> do {
          m1 \<leftarrow> (if firstReadCount \<noteq> 0
                then memcpyp m data firstBaseAddress (firstReadCount * sz) else Some m);
          m2 \<leftarrow> (if secondReadCount \<noteq> 0
                then memcpyp m1 (tadd sz data firstReadCount) secondBaseAddress
                       (secondReadCount * sz)
                else Some m1);
          Some (True, m2)
        })"

definition copyTo ::
  "u64 \<Rightarrow> MemTransaction \<Rightarrow> mem \<Rightarrow> ptr option \<Rightarrow> u64 \<Rightarrow> u64 \<Rightarrow> (bool \<times> mem) option" where
  "copyTo sz tx m data startIdx nMessages =
     (if data = None then Some (False, m)
      else case getMemRegionInfo sz tx startIdx nMessages of
        None \<Rightarrow> Some (False, m)
      | Some (firstWriteCount, secondWriteCount, firstBaseAddress, secondBaseAddress) \<Rightarrow> do {
          m1 \<leftarrow> (if firstWriteCount \<noteq> 0
                then memcpyp m firstBaseAddress data (firstWriteCount * sz) else Some m);
          m2 \<leftarrow> (if secondWriteCount \<noteq> 0
                then memcpyp m1 secondBaseAddress (tadd sz data firstWriteCount)
                       (secondWriteCount * sz)
                else Some m1);
          Some (True, m2)
        })"

section \<open>The slots of a transaction\<close>

text \<open>
  What a transaction denotes: the list of the addresses of its message slots, first region
  then second region. \<open>base\<close> picks an arbitrary address for a null region, which has no slot
  in a well-formed transaction.
\<close>

definition base :: "MemRegion \<Rightarrow> ptr" where
  "base r = (case address r of None \<Rightarrow> Ptr (Heap 0) 0 | Some p \<Rightarrow> p)"

definition region_ptrs :: "nat \<Rightarrow> MemRegion \<Rightarrow> ptr list" where
  "region_ptrs sz r = map (\<lambda>i. padd (base r) (i * sz)) [0..<unat (len r)]"

definition tx_ptrs :: "nat \<Rightarrow> MemTransaction \<Rightarrow> ptr list" where
  "tx_ptrs sz tx = region_ptrs sz (first tx) @ region_ptrs sz (second tx)"

definition region_wf :: "MemRegion \<Rightarrow> bool" where
  "region_wf r \<longleftrightarrow> (len r = 0 \<or> address r \<noteq> None)"

text \<open>
  Well-formed: no null region with slots, and the total size in bytes is representable in
  \<open>size_t\<close> (which it is for every region that fits into an address space).
\<close>

definition tx_wf :: "u64 \<Rightarrow> MemTransaction \<Rightarrow> bool" where
  "tx_wf sz tx \<longleftrightarrow> region_wf (first tx) \<and> region_wf (second tx) \<and> sz \<noteq> 0 \<and>
     (unat (len (first tx)) + unat (len (second tx))) * unat sz < 2 ^ 64"

lemma region_wf_address: "region_wf r \<Longrightarrow> len r \<noteq> 0 \<Longrightarrow> address r = Some (base r)"
  by (auto simp: region_wf_def base_def)

lemma length_region_ptrs [simp]: "length (region_ptrs sz r) = unat (len r)"
  by (simp add: region_ptrs_def)

lemma length_tx_ptrs [simp]:
  "length (tx_ptrs sz tx) = unat (len (first tx)) + unat (len (second tx))"
  by (simp add: tx_ptrs_def)

lemma nth_region_ptrs [simp]:
  "i < unat (len r) \<Longrightarrow> region_ptrs sz r ! i = padd (base r) (i * sz)"
  by (simp add: region_ptrs_def)

lemma take_drop_region_ptrs:
  assumes "a + n \<le> unat (len r)"
  shows "take n (drop a (region_ptrs sz r)) = map (\<lambda>i. padd (padd (base r) (a * sz)) (i * sz)) [0..<n]"
  using assms by (auto intro!: nth_equalityI simp: add_mult_distrib)

lemma elems_via_ptrs:
  assumes "a + n \<le> unat (len r)"
  shows "map (\<lambda>p. rd_bytes m p sz) (take n (drop a (region_ptrs sz r)))
    = elems m (padd (base r) (a * sz)) sz n"
  using assms by (simp add: take_drop_region_ptrs elems_def)

lemma tx_wf_sum:
  assumes "tx_wf sz tx"
  shows "unat (len (first tx) + len (second tx)) = unat (len (first tx)) + unat (len (second tx))"
proof (rule unat_add_no_wrap)
  from assms have "0 < unat sz" by (simp add: tx_wf_def unat_gt_0)
  then have "unat (len (first tx)) + unat (len (second tx))
      \<le> (unat (len (first tx)) + unat (len (second tx))) * unat sz" by simp
  also have "\<dots> < 2 ^ 64" using assms by (simp add: tx_wf_def)
  finally show "unat (len (first tx)) + unat (len (second tx)) < 2 ^ 64" .
qed

lemma tx_wf_mult:
  assumes "tx_wf sz tx" and "unat k \<le> unat (len (first tx)) + unat (len (second tx))"
  shows "unat (k * sz) = unat k * unat sz"
proof (rule unat_mult_no_wrap)
  from assms(2) have "unat k * unat sz \<le> (unat (len (first tx)) + unat (len (second tx))) * unat sz"
    by simp
  also have "\<dots> < 2 ^ 64" using assms(1) by (simp add: tx_wf_def)
  finally show "unat k * unat sz < 2 ^ 64" .
qed

text \<open>
  \<open>getSlot\<close> of an index below the number of messages of the transaction is the address
  of that message's slot.
\<close>

theorem getSlot_in_range:
  assumes "tx_wf sz tx" and "unat idx < unat (len (first tx)) + unat (len (second tx))"
  shows "getSlot sz tx idx = Some (tx_ptrs (unat sz) tx ! unat idx)"
proof (cases "idx < len (first tx)")
  case True
  then have nz: "len (first tx) \<noteq> 0" by auto
  with assms(1) have "address (first tx) = Some (base (first tx))"
    by (simp add: region_wf_address tx_wf_def)
  with True assms tx_wf_sum [OF assms(1)] show ?thesis
    by (simp add: getSlot_def tadd_def tx_ptrs_def nth_append word_less_nat_alt)
next
  case False
  then have le: "len (first tx) \<le> idx" by simp
  have sub: "unat (idx - len (first tx)) = unat idx - unat (len (first tx))"
    using le by (rule unat_sub_le)
  from le assms(2) have "len (second tx) \<noteq> 0"
    by (auto simp: word_le_nat_alt)
  with assms(1) have "address (second tx) = Some (base (second tx))"
    by (simp add: region_wf_address tx_wf_def)
  with False le assms tx_wf_sum [OF assms(1)] show ?thesis
    by (simp add: getSlot_def tadd_def tx_ptrs_def nth_append word_less_nat_alt sub)
qed

section \<open>The copies\<close>

lemma firstCount_unat:
  fixes f start n :: u64
  shows "unat (if start < f then min n (f - start) else 0) = min (unat n) (unat f - unat start)"
  by (auto simp: min_def word_le_nat_alt word_less_nat_alt unat_sub_le)

lemma secondStart_unat:
  fixes f start :: u64
  shows "unat (if start > f then start - f else 0) = unat start - unat f"
  by (auto simp: word_less_nat_alt unat_sub_le word_le_nat_alt)

text \<open>
  The range check of \<open>getMemRegionInfo\<close>: it adds in \<open>size_t\<close>, so it is exact as long as the
  sum of the start index and the count does not wrap.
\<close>

lemma getMemRegionInfo_None_iff:
  assumes "tx_wf sz tx" and "unat startIdx + unat nMessages < 2 ^ 64"
  shows "getMemRegionInfo sz tx startIdx nMessages = None \<longleftrightarrow>
    unat (len (first tx)) + unat (len (second tx)) < unat startIdx + unat nMessages"
  using assms(2) tx_wf_sum [OF assms(1)]
  by (simp add: getMemRegionInfo_def Let_def word_less_nat_alt unat_add_no_wrap)

text \<open>
  How many messages go to each region, and where each part starts, as natural numbers.
\<close>

definition tx_fc :: "MemTransaction \<Rightarrow> u64 \<Rightarrow> u64 \<Rightarrow> nat" where
  "tx_fc tx startIdx nMessages = min (unat nMessages) (unat (len (first tx)) - unat startIdx)"

definition tx_sc :: "MemTransaction \<Rightarrow> u64 \<Rightarrow> u64 \<Rightarrow> nat" where
  "tx_sc tx startIdx nMessages = unat nMessages - tx_fc tx startIdx nMessages"

definition tx_fptr :: "nat \<Rightarrow> MemTransaction \<Rightarrow> u64 \<Rightarrow> ptr" where
  "tx_fptr sz tx startIdx = padd (base (first tx)) (unat startIdx * sz)"

definition tx_sptr :: "nat \<Rightarrow> MemTransaction \<Rightarrow> u64 \<Rightarrow> ptr" where
  "tx_sptr sz tx startIdx =
     padd (base (second tx)) ((unat startIdx - unat (len (first tx))) * sz)"

text \<open>A part of a transaction: \<open>nMessages\<close> messages from slot \<open>startIdx\<close> on.\<close>

definition tx_fits :: "u64 \<Rightarrow> MemTransaction \<Rightarrow> u64 \<Rightarrow> u64 \<Rightarrow> bool" where
  "tx_fits sz tx startIdx nMessages \<longleftrightarrow> tx_wf sz tx \<and>
     unat startIdx + unat nMessages \<le> unat (len (first tx)) + unat (len (second tx))"

lemma tx_parts_total: "tx_fc tx startIdx nMessages + tx_sc tx startIdx nMessages = unat nMessages"
  by (simp add: tx_fc_def tx_sc_def)

lemma tx_first_fits:
  "tx_fc tx startIdx nMessages \<noteq> 0 \<Longrightarrow>
    unat startIdx + tx_fc tx startIdx nMessages \<le> unat (len (first tx))"
  by (auto simp: tx_fc_def)

lemma tx_second_fits:
  assumes "tx_fits sz tx startIdx nMessages"
  shows "unat startIdx - unat (len (first tx)) + tx_sc tx startIdx nMessages
    \<le> unat (len (second tx))"
  using assms by (auto simp: tx_fits_def tx_fc_def tx_sc_def)

lemma getMemRegionInfo_parts:
  assumes fits: "tx_fits sz tx startIdx nMessages"
  obtains c1 c2 p1 p2 where
    "getMemRegionInfo sz tx startIdx nMessages = Some (c1, c2, p1, p2)"
    "unat c1 = tx_fc tx startIdx nMessages" "unat c2 = tx_sc tx startIdx nMessages"
    "unat (c1 * sz) = tx_fc tx startIdx nMessages * unat sz"
    "unat (c2 * sz) = tx_sc tx startIdx nMessages * unat sz"
    "c1 \<noteq> 0 \<longrightarrow> p1 = Some (tx_fptr (unat sz) tx startIdx)"
    "c2 \<noteq> 0 \<longrightarrow> p2 = Some (tx_sptr (unat sz) tx startIdx)"
proof -
  let ?fc = "tx_fc tx startIdx nMessages" and ?sc = "tx_sc tx startIdx nMessages"
  let ?c1 = "if startIdx < len (first tx) then min nMessages (len (first tx) - startIdx) else 0"
  let ?c2 = "nMessages - ?c1"
  let ?ss = "if startIdx > len (first tx) then startIdx - len (first tx) else 0"
  let ?p1 = "if ?c1 \<noteq> 0 then tadd sz (address (first tx)) startIdx else None"
  let ?p2 = "if ?c2 \<noteq> 0 then tadd sz (address (second tx)) ?ss else None"
  from fits have wf: "tx_wf sz tx" by (simp add: tx_fits_def)
  have c1: "unat ?c1 = ?fc" by (simp only: firstCount_unat tx_fc_def)
  then have "?c1 \<le> nMessages" by (simp add: word_le_nat_alt tx_fc_def)
  then have c2: "unat ?c2 = ?sc" by (simp only: unat_sub_le c1 tx_sc_def)
  have lens: "?fc \<le> unat (len (first tx))" "?sc \<le> unat (len (second tx))"
    using tx_second_fits [OF fits] by (auto simp: tx_fc_def)
  have p1: "?c1 \<noteq> 0 \<longrightarrow> ?p1 = Some (tx_fptr (unat sz) tx startIdx)"
  proof
    assume nz: "?c1 \<noteq> 0"
    then have "?fc \<noteq> 0" using c1 by (metis unat_eq_zero)
    then have "len (first tx) \<noteq> 0" using lens(1) by auto
    with nz wf region_wf_address [of "first tx"]
    show "?p1 = Some (tx_fptr (unat sz) tx startIdx)"
      by (simp only: tadd_def tx_fptr_def tx_wf_def option.map if_True simp_thms)
  qed
  have p2: "?c2 \<noteq> 0 \<longrightarrow> ?p2 = Some (tx_sptr (unat sz) tx startIdx)"
  proof
    assume nz: "?c2 \<noteq> 0"
    then have "?sc \<noteq> 0" using c2 by (metis unat_eq_zero)
    then have "len (second tx) \<noteq> 0" using lens(2) by auto
    with nz wf region_wf_address [of "second tx"]
    show "?p2 = Some (tx_sptr (unat sz) tx startIdx)"
      by (simp only: tadd_def tx_sptr_def tx_wf_def secondStart_unat option.map if_True simp_thms)
  qed
  have "unat startIdx + unat nMessages < 2 ^ 64"
    using fits tx_wf_sum [OF wf] unat64_less [of "len (first tx) + len (second tx)"]
    by (simp add: tx_fits_def)
  then have "\<not> len (first tx) + len (second tx) < startIdx + nMessages"
    using fits tx_wf_sum [OF wf] by (simp add: word_less_nat_alt unat_add_no_wrap tx_fits_def)
  then have eq: "getMemRegionInfo sz tx startIdx nMessages = Some (?c1, ?c2, ?p1, ?p2)"
    by (simp only: getMemRegionInfo_def Let_def if_False)
  have m1: "unat (?c1 * sz) = ?fc * unat sz"
    using tx_wf_mult [OF wf, of ?c1] lens(1) by (simp only: c1)
  have m2: "unat (?c2 * sz) = ?sc * unat sz"
    using tx_wf_mult [OF wf, of ?c2] lens(2) by (simp only: c2)
  show thesis by (rule that [OF eq c1 c2 m1 m2 p1 p2])
qed

lemma copyTo_eq:
  assumes "tx_fits sz tx startIdx nMessages"
  shows "copyTo sz tx m (Some d) startIdx nMessages = Some (True,
     memcpy (memcpy m (tx_fptr (unat sz) tx startIdx) d (tx_fc tx startIdx nMessages * unat sz))
       (tx_sptr (unat sz) tx startIdx) (padd d (tx_fc tx startIdx nMessages * unat sz))
       (tx_sc tx startIdx nMessages * unat sz))"
  using assms
  by (rule getMemRegionInfo_parts) (auto simp: copyTo_def memcpyp_def tadd_def unat_eq_zero)

lemma copyFrom_eq:
  assumes "tx_fits sz tx startIdx nMessages"
  shows "copyFrom sz tx m (Some d) startIdx nMessages = Some (True,
     memcpy (memcpy m d (tx_fptr (unat sz) tx startIdx) (tx_fc tx startIdx nMessages * unat sz))
       (padd d (tx_fc tx startIdx nMessages * unat sz)) (tx_sptr (unat sz) tx startIdx)
       (tx_sc tx startIdx nMessages * unat sz))"
  using assms
  by (rule getMemRegionInfo_parts) (auto simp: copyFrom_def memcpyp_def tadd_def unat_eq_zero)

section \<open>What the copies do, slot by slot\<close>

definition tx_slots :: "u64 \<Rightarrow> MemTransaction \<Rightarrow> u64 \<Rightarrow> u64 \<Rightarrow> ptr list" where
  "tx_slots sz tx startIdx nMessages =
     take (unat nMessages) (drop (unat startIdx) (tx_ptrs (unat sz) tx))"

text \<open>The two regions do not overlap, and the caller's buffer overlaps neither.\<close>

definition tx_disjoint :: "u64 \<Rightarrow> MemTransaction \<Rightarrow> bool" where
  "tx_disjoint sz tx \<longleftrightarrow> sep (base (first tx)) (unat (len (first tx)) * unat sz)
     (base (second tx)) (unat (len (second tx)) * unat sz)"

definition tx_buffer :: "u64 \<Rightarrow> MemTransaction \<Rightarrow> ptr \<Rightarrow> u64 \<Rightarrow> bool" where
  "tx_buffer sz tx d nMessages \<longleftrightarrow>
     sep d (unat nMessages * unat sz) (base (first tx)) (unat (len (first tx)) * unat sz) \<and>
     sep d (unat nMessages * unat sz) (base (second tx)) (unat (len (second tx)) * unat sz)"

lemma mult_add_le: "(a::nat) + b \<le> c \<Longrightarrow> a * k + b * k \<le> c * k"
  by (metis add_mult_distrib mult_le_mono1)

lemma sep_parts:
  assumes "sep p (a * k) q (b * k)" and "i + n \<le> a" and "j + m \<le> b"
  shows "sep (padd p (i * k)) (n * k) (padd q (j * k)) (m * k)"
proof -
  have "sep (padd p (i * k)) (n * k) q (b * k)"
    using assms(1,2) by (auto intro: mult_add_le)
  then have "sep q (b * k) (padd p (i * k)) (n * k)" by (subst sep_commute)
  then have "sep (padd q (j * k)) (m * k) (padd p (i * k)) (n * k)"
    by (rule sep_padd) (rule mult_add_le [OF assms(3)])
  then show ?thesis by (simp add: sep_commute)
qed

lemma tx_slots_parts:
  assumes "tx_fits sz tx startIdx nMessages"
  shows "tx_slots sz tx startIdx nMessages =
    map (\<lambda>j. padd (tx_fptr (unat sz) tx startIdx) (j * unat sz))
      [0..<tx_fc tx startIdx nMessages] @
    map (\<lambda>j. padd (tx_sptr (unat sz) tx startIdx) (j * unat sz))
      [0..<tx_sc tx startIdx nMessages]"
proof -
  let ?n = "unat nMessages" and ?a = "unat startIdx" and ?f = "unat (len (first tx))"
  have "tx_slots sz tx startIdx nMessages =
      take (tx_fc tx startIdx nMessages) (drop ?a (region_ptrs (unat sz) (first tx))) @
      take (tx_sc tx startIdx nMessages) (drop (?a - ?f) (region_ptrs (unat sz) (second tx)))"
    by (simp add: tx_slots_def tx_ptrs_def tx_fc_def tx_sc_def min_def)
  moreover have "take (tx_fc tx startIdx nMessages)
      (drop ?a (region_ptrs (unat sz) (first tx))) =
      map (\<lambda>j. padd (tx_fptr (unat sz) tx startIdx) (j * unat sz))
        [0..<tx_fc tx startIdx nMessages]"
    using tx_first_fits [of tx startIdx nMessages]
    by (cases "tx_fc tx startIdx nMessages = 0")
      (simp_all add: take_drop_region_ptrs tx_fptr_def)
  ultimately show ?thesis
    using take_drop_region_ptrs [OF tx_second_fits [OF assms], of "unat sz"]
    by (simp add: tx_sptr_def)
qed

lemma tx_slots_elems:
  assumes "tx_fits sz tx startIdx nMessages"
  shows "map (\<lambda>p. rd_bytes m p (unat sz)) (tx_slots sz tx startIdx nMessages) =
    elems m (tx_fptr (unat sz) tx startIdx) (unat sz) (tx_fc tx startIdx nMessages) @
    elems m (tx_sptr (unat sz) tx startIdx) (unat sz) (tx_sc tx startIdx nMessages)"
  by (simp add: tx_slots_parts [OF assms] elems_def)

lemma copyTo_outside:
  assumes fits: "tx_fits sz tx startIdx nMessages"
    and copy: "copyTo sz tx m (Some d) startIdx nMessages = Some (b, m')"
    and out: "\<forall>p \<in> set (tx_slots sz tx startIdx nMessages). \<not> in_range p (unat sz) ob i"
  shows "m' ob i = m ob i"
proof -
  let ?fc = "tx_fc tx startIdx nMessages" and ?sc = "tx_sc tx startIdx nMessages"
  let ?fp = "tx_fptr (unat sz) tx startIdx" and ?sp = "tx_sptr (unat sz) tx startIdx"
  have "\<not> in_range ?fp (?fc * unat sz) ob i" "\<not> in_range ?sp (?sc * unat sz) ob i"
    using out in_range_elems [of ?fp ?fc "unat sz" ob i] in_range_elems [of ?sp ?sc "unat sz" ob i]
    by (auto simp: tx_slots_parts [OF fits])
  then show ?thesis using copy by (auto simp: copyTo_eq [OF fits] memcpy_out)
qed

text \<open>The parts used by a copy inherit the separation of the regions and the buffer.\<close>

lemma tx_parts_sep:
  assumes fits: "tx_fits sz tx startIdx nMessages" and disj: "tx_disjoint sz tx"
  shows "sep (tx_fptr (unat sz) tx startIdx) (tx_fc tx startIdx nMessages * unat sz)
    (tx_sptr (unat sz) tx startIdx) (tx_sc tx startIdx nMessages * unat sz)"
proof (cases "tx_fc tx startIdx nMessages = 0")
  case True
  then show ?thesis by (simp add: sep_def)
next
  case False
  show ?thesis
    using sep_parts [OF _ tx_first_fits [OF False] tx_second_fits [OF fits]] disj
    by (simp add: tx_disjoint_def tx_fptr_def tx_sptr_def)
qed

lemma sep_buffer_part:
  assumes "sep d (n * k) q (b * k)" and "x + y \<le> n" and "j + c \<le> b"
  shows "sep (padd q (j * k)) (c * k) (padd d (x * k)) (y * k)"
  using sep_parts [OF assms] by (simp add: sep_commute)

lemma tx_buffer_first:
  assumes fits: "tx_fits sz tx startIdx nMessages" and buf: "tx_buffer sz tx d nMessages"
    and "x + y \<le> unat nMessages"
  shows "sep (tx_fptr (unat sz) tx startIdx) (tx_fc tx startIdx nMessages * unat sz)
    (padd d (x * unat sz)) (y * unat sz)"
proof (cases "tx_fc tx startIdx nMessages = 0")
  case True
  then show ?thesis by (simp add: sep_def)
next
  case False
  show ?thesis
    using sep_buffer_part [OF _ assms(3) tx_first_fits [OF False]] buf
    by (simp add: tx_buffer_def tx_fptr_def)
qed

lemma tx_buffer_second:
  assumes fits: "tx_fits sz tx startIdx nMessages" and buf: "tx_buffer sz tx d nMessages"
    and "x + y \<le> unat nMessages"
  shows "sep (tx_sptr (unat sz) tx startIdx) (tx_sc tx startIdx nMessages * unat sz)
    (padd d (x * unat sz)) (y * unat sz)"
  using sep_buffer_part [OF _ assms(3) tx_second_fits [OF fits]] buf
  by (simp add: tx_buffer_def tx_sptr_def)

lemma copyTo_effect:
  assumes fits: "tx_fits sz tx startIdx nMessages" and disj: "tx_disjoint sz tx"
    and buf: "tx_buffer sz tx d nMessages"
  shows "\<exists>m'. copyTo sz tx m (Some d) startIdx nMessages = Some (True, m') \<and>
    map (\<lambda>p. rd_bytes m' p (unat sz)) (tx_slots sz tx startIdx nMessages) =
      elems m d (unat sz) (unat nMessages) \<and>
    (\<forall>ob i. (\<forall>p \<in> set (tx_slots sz tx startIdx nMessages). \<not> in_range p (unat sz) ob i) \<longrightarrow>
      m' ob i = m ob i)"
proof -
  let ?s = "unat sz"
  let ?fc = "tx_fc tx startIdx nMessages" and ?sc = "tx_sc tx startIdx nMessages"
  let ?fp = "tx_fptr ?s tx startIdx" and ?sp = "tx_sptr ?s tx startIdx"
  define m1 where "m1 = memcpy m ?fp d (?fc * ?s)"
  define m2 where "m2 = memcpy m1 ?sp (padd d (?fc * ?s)) (?sc * ?s)"
  have copy: "copyTo sz tx m (Some d) startIdx nMessages = Some (True, m2)"
    by (simp add: copyTo_eq [OF fits] m1_def m2_def)
  have sep1: "sep ?sp (?sc * ?s) ?fp (?fc * ?s)"
    using tx_parts_sep [OF fits disj] by (simp add: sep_commute)
  have sep2: "sep ?fp (?fc * ?s) (padd d (?fc * ?s)) (?sc * ?s)"
    by (rule tx_buffer_first [OF fits buf]) (simp add: tx_parts_total)
  have "elems m2 ?fp ?s ?fc = elems m d ?s ?fc"
    by (rule elems_cong) (simp add: m1_def m2_def rd_memcpy_sep [OF sep1])
  moreover have "elems m2 ?sp ?s ?sc = elems m (padd d (?fc * ?s)) ?s ?sc"
    by (rule elems_cong) (simp add: m1_def m2_def rd_memcpy_sep [OF sep2])
  ultimately have "map (\<lambda>p. rd_bytes m2 p ?s) (tx_slots sz tx startIdx nMessages) =
      elems m d ?s (?fc + ?sc)"
    by (simp add: tx_slots_elems [OF fits] elems_append)
  with copy copyTo_outside [OF fits copy] show ?thesis by (auto simp: tx_parts_total)
qed

text \<open>
  C16. \<open>copyTo\<close> on a range of slots that the transaction has, with a source buffer that does not
  overlap the regions, succeeds, leaves the caller's messages in exactly those slots in order,
  and changes no byte outside them.
\<close>

theorem copyTo_slots:
  assumes fits: "tx_fits sz tx startIdx nMessages" and disj: "tx_disjoint sz tx"
    and buf: "tx_buffer sz tx d nMessages"
  shows "\<exists>m'. copyTo sz tx m (Some d) startIdx nMessages = Some (True, m') \<and>
    map (\<lambda>p. rd_bytes m' p (unat sz)) (tx_slots sz tx startIdx nMessages) =
      elems m d (unat sz) (unat nMessages) \<and>
    (\<forall>ob i. (\<forall>p \<in> set (tx_slots sz tx startIdx nMessages). \<not> in_range p (unat sz) ob i) \<longrightarrow>
      m' ob i = m ob i)"
  using assms by (rule copyTo_effect)

lemma copyFrom_effect:
  assumes fits: "tx_fits sz tx startIdx nMessages" and buf: "tx_buffer sz tx d nMessages"
  shows "\<exists>m'. copyFrom sz tx m (Some d) startIdx nMessages = Some (True, m') \<and>
    elems m' d (unat sz) (unat nMessages) =
      map (\<lambda>p. rd_bytes m p (unat sz)) (tx_slots sz tx startIdx nMessages) \<and>
    (\<forall>ob i. \<not> in_range d (unat nMessages * unat sz) ob i \<longrightarrow> m' ob i = m ob i)"
proof -
  let ?s = "unat sz"
  let ?fc = "tx_fc tx startIdx nMessages" and ?sc = "tx_sc tx startIdx nMessages"
  let ?fp = "tx_fptr ?s tx startIdx" and ?sp = "tx_sptr ?s tx startIdx"
  let ?d2 = "padd d (?fc * ?s)"
  define m1 where "m1 = memcpy m d ?fp (?fc * ?s)"
  define m2 where "m2 = memcpy m1 ?d2 ?sp (?sc * ?s)"
  have copy: "copyFrom sz tx m (Some d) startIdx nMessages = Some (True, m2)"
    by (simp add: copyFrom_eq [OF fits] m1_def m2_def)
  have sep1: "sep ?d2 (?sc * ?s) d (?fc * ?s)" by (simp add: sep_def)
  have "sep ?sp (?sc * ?s) (padd d (0 * ?s)) (?fc * ?s)"
    by (rule tx_buffer_second [OF fits buf]) (simp add: tx_fc_def)
  then have sep2: "sep d (?fc * ?s) ?sp (?sc * ?s)" by (simp add: sep_commute)
  have "elems m2 d ?s ?fc = elems m ?fp ?s ?fc"
    by (rule elems_cong) (simp add: m1_def m2_def rd_memcpy_sep [OF sep1])
  moreover have "elems m2 ?d2 ?s ?sc = elems m ?sp ?s ?sc"
    by (rule elems_cong) (simp add: m1_def m2_def rd_memcpy_sep [OF sep2])
  ultimately have "elems m2 d ?s (?fc + ?sc) =
      map (\<lambda>p. rd_bytes m p ?s) (tx_slots sz tx startIdx nMessages)"
    by (simp add: tx_slots_elems [OF fits] elems_append)
  moreover have "m2 ob i = m ob i" if "\<not> in_range d (unat nMessages * ?s) ob i" for ob i
  proof -
    have "unat nMessages * ?s = ?fc * ?s + ?sc * ?s"
      by (simp add: add_mult_distrib [symmetric] tx_parts_total)
    with that have "\<not> in_range d (?fc * ?s) ob i" "\<not> in_range ?d2 (?sc * ?s) ob i"
      by (auto simp: in_range_def)
    then show ?thesis by (simp add: m1_def m2_def memcpy_out)
  qed
  ultimately show ?thesis using copy by (auto simp: tx_parts_total)
qed

text \<open>
  C17. \<open>copyFrom\<close> on a range of slots that the transaction has succeeds and leaves the messages
  of those slots, in order, in the caller's buffer; only the buffer's bytes change.
\<close>

theorem copyFrom_slots:
  assumes fits: "tx_fits sz tx startIdx nMessages" and buf: "tx_buffer sz tx d nMessages"
  shows "\<exists>m'. copyFrom sz tx m (Some d) startIdx nMessages = Some (True, m') \<and>
    elems m' d (unat sz) (unat nMessages) =
      map (\<lambda>p. rd_bytes m p (unat sz)) (tx_slots sz tx startIdx nMessages) \<and>
    (\<forall>ob i. \<not> in_range d (unat nMessages * unat sz) ob i \<longrightarrow> m' ob i = m ob i)"
  using assms by (rule copyFrom_effect)

end
