(* ===== verification/EventFlag.thy ===== *)
theory EventFlag
  imports FMQ_System
begin

text \<open>
  Model of EventFlag.cpp and include/fmq/EventFlag.h. An event flag group is a 32-bit word in
  shared memory: \<open>wake\<close> sets bits, \<open>wait\<close> sleeps until one of the bits it asks for is set and
  takes the bits it found. An output parameter \<open>efState\<close> is the value it points to, \<open>None\<close> for
  a null pointer; a crash is \<open>None\<close>.
\<close>

section \<open>State and operations\<close>

record EventFlag =
  mEfWordNeedsUnmapping :: bool
  mEfWordPtr :: "ptr option"

text \<open>\<open>std::atomic_fetch_or\<close> and \<open>std::atomic_fetch_and\<close>: the old value and the new memory.\<close>

definition atomic_fetch_or :: "mem \<Rightarrow> ptr option \<Rightarrow> u32 \<Rightarrow> (u32 \<times> mem) option" where
  "atomic_fetch_or m p x = map_option (\<lambda>q. (load32 m q, store32 m q (load32 m q OR x))) p"

definition atomic_fetch_and :: "mem \<Rightarrow> ptr option \<Rightarrow> u32 \<Rightarrow> (u32 \<times> mem) option" where
  "atomic_fetch_and m p x = map_option (\<lambda>q. (load32 m q, store32 m q (load32 m q AND x))) p"

definition sys_futexWake :: "os \<Rightarrow> ptr \<Rightarrow> u32 \<Rightarrow> world \<Rightarrow> errno option \<times> world" where
  "sys_futexWake os p bitmask w =
     (let r = os_futexWake os (hist w) (wmem w) p bitmask in (r, ran os (EvFutexWake p bitmask r) w))"

definition sys_futexWait ::
  "os \<Rightarrow> ptr \<Rightarrow> u32 \<Rightarrow> timespec option \<Rightarrow> u32 \<Rightarrow> world \<Rightarrow> errno option \<times> world" where
  "sys_futexWait os p val t bitmask w =
     (let r = os_futexWait os (hist w) (wmem w) p val t bitmask
      in (r, ran os (EvFutexWait p val t bitmask r) w))"

definition elapsedRealtimeNano :: "os \<Rightarrow> world \<Rightarrow> int \<times> world" where
  "elapsedRealtimeNano os w = (let t = os_clock os (hist w) in (t, ran os (EvClock t) w))"

text \<open>The error of \<open>FUTEX_WAKE_BITSET\<close> is the status, negated.\<close>

definition wake :: "os \<Rightarrow> EventFlag \<Rightarrow> u32 \<Rightarrow> world \<Rightarrow> (status_t \<times> world) option" where
  "wake os ef bitmask w =
     (if bitmask = 0 then Some (NO_ERROR, w) else do {
        (old, m) \<leftarrow> atomic_fetch_or (wmem w) (mEfWordPtr ef) bitmask;
        p \<leftarrow> mEfWordPtr ef;
        let w1 = w\<lparr>wmem := m\<rparr>;
        if NOT old AND bitmask \<noteq> 0
        then (let (ret, w2) = sys_futexWake os p bitmask w1
              in Some (case ret of Some e \<Rightarrow> - e | None \<Rightarrow> NO_ERROR, w2))
        else Some (NO_ERROR, w1)
      })"

definition kNanosPerSecond :: int where "kNanosPerSecond = 1000000000"

text \<open>\<open>/\<close> and \<open>%\<close> on \<open>int64_t\<close> round towards zero.\<close>

definition addNanoseconds :: "int \<Rightarrow> timespec \<Rightarrow> timespec" where
  "addNanoseconds nanoSeconds now =
     (let s = tv_sec now + nanoSeconds sdiv kNanosPerSecond;
          n = tv_nsec now + nanoSeconds smod kNanosPerSecond
      in if n \<ge> kNanosPerSecond then \<lparr>tv_sec = s + 1, tv_nsec = n - kNanosPerSecond\<rparr>
         else \<lparr>tv_sec = s, tv_nsec = n\<rparr>)"

definition addNanosecondsToCurrentTime :: "os \<Rightarrow> int \<Rightarrow> world \<Rightarrow> timespec \<times> world" where
  "addNanosecondsToCurrentTime os nanoSeconds w =
     (let now = os_gettime os (hist w)
      in (addNanoseconds nanoSeconds now, ran os (EvGettime now) w))"

text \<open>The two calls of \<open>FUTEX_WAIT_BITSET\<close> in \<open>waitHelper\<close>, with and without a time limit.\<close>

definition futexWaitFor ::
  "os \<Rightarrow> ptr \<Rightarrow> u32 \<Rightarrow> u32 \<Rightarrow> int \<Rightarrow> world \<Rightarrow> errno option \<times> world" where
  "futexWaitFor os p efWord bitmask timeoutNanoSeconds w =
     (if timeoutNanoSeconds \<noteq> 0
      then (let (t, w1) = addNanosecondsToCurrentTime os timeoutNanoSeconds w
            in sys_futexWait os p efWord (Some t) bitmask w1)
      else sys_futexWait os p efWord None bitmask w)"

definition waitHelper ::
  "os \<Rightarrow> EventFlag \<Rightarrow> u32 \<Rightarrow> u32 option \<Rightarrow> int \<Rightarrow> world \<Rightarrow> (status_t \<times> u32 option \<times> world) option"
where
  "waitHelper os ef bitmask efState timeoutNanoSeconds w =
     (if bitmask = 0 \<or> efState = None then Some (BAD_VALUE, efState, w) else do {
        (old, m) \<leftarrow> atomic_fetch_and (wmem w) (mEfWordPtr ef) (NOT bitmask);
        p \<leftarrow> mEfWordPtr ef;
        let w1 = w\<lparr>wmem := m\<rparr>;
        let setBits = old AND bitmask;
        if setBits \<noteq> 0 then Some (NO_ERROR, Some setBits, w1) else do {
          let efWord = old AND NOT bitmask;
          let (ret, w3) = futexWaitFor os p efWord bitmask timeoutNanoSeconds w1;
          case ret of
            Some e \<Rightarrow> Some (- e, Some 0, w3)
          | None \<Rightarrow> do {
              (old', m') \<leftarrow> atomic_fetch_and (wmem w3) (Some p) (NOT bitmask);
              let s = old' AND bitmask;
              Some (if s = 0 then - EINTR else NO_ERROR, Some s, w3\<lparr>wmem := m'\<rparr>)
            }
        }
      })"

text \<open>
  The loop of \<open>wait\<close> with \<open>retry\<close>. Setting \<open>*efState\<close> to 0 when the time is used up is a crash for
  a null pointer.
\<close>

fun wait_loop ::
  "nat \<Rightarrow> os \<Rightarrow> EventFlag \<Rightarrow> u32 \<Rightarrow> u32 option \<Rightarrow> bool \<Rightarrow> int \<Rightarrow> int \<Rightarrow> world \<Rightarrow>
   (status_t \<times> u32 option \<times> world) fuelled option" where
  "wait_loop 0 os ef bitmask efState shouldTimeOut timeoutNanoSeconds prevTimeNs w = Some NoFuel"
| "wait_loop (Suc n) os ef bitmask efState shouldTimeOut timeoutNanoSeconds prevTimeNs w =
     (let (currentTimeNs, w1) =
        (if shouldTimeOut then elapsedRealtimeNano os w else (prevTimeNs, w));
        left = (if shouldTimeOut then timeoutNanoSeconds - (currentTimeNs - prevTimeNs)
                else timeoutNanoSeconds)
      in if shouldTimeOut \<and> left \<le> 0
         then (if efState = None then None else Some (Done (- ETIMEDOUT, Some 0, w1)))
         else do {
           (status, efState', w2) \<leftarrow> waitHelper os ef bitmask efState left w1;
           if status \<noteq> - EAGAIN \<and> status \<noteq> - EINTR then Some (Done (status, efState', w2))
           else wait_loop n os ef bitmask efState' shouldTimeOut left currentTimeNs w2
         })"

definition ef_wait ::
  "nat \<Rightarrow> os \<Rightarrow> EventFlag \<Rightarrow> u32 \<Rightarrow> u32 option \<Rightarrow> int \<Rightarrow> bool \<Rightarrow> world \<Rightarrow>
   (status_t \<times> u32 option \<times> world) fuelled option" where
  "ef_wait fuel os ef bitmask efState timeoutNanoSeconds retry w =
     (if \<not> retry then map_option Done (waitHelper os ef bitmask efState timeoutNanoSeconds w)
      else let shouldTimeOut = timeoutNanoSeconds \<noteq> 0;
               (prevTimeNs, w1) = (if shouldTimeOut then elapsedRealtimeNano os w else (0, w))
           in wait_loop fuel os ef bitmask efState shouldTimeOut timeoutNanoSeconds prevTimeNs w1)"

section \<open>Creation and deletion\<close>

text \<open>The constructor: the object and \<open>*status\<close>.\<close>

definition EventFlag_init :: "ptr option \<Rightarrow> EventFlag \<times> status_t" where
  "EventFlag_init fwAddr =
     (if fwAddr = None then (\<lparr>mEfWordNeedsUnmapping = False, mEfWordPtr = None\<rparr>, BAD_VALUE)
      else (\<lparr>mEfWordNeedsUnmapping = False, mEfWordPtr = fwAddr\<rparr>, NO_ERROR))"

definition unmapEventFlagWord ::
  "os \<Rightarrow> ptr option \<Rightarrow> bool \<Rightarrow> world \<Rightarrow> (status_t \<times> bool \<times> world) option" where
  "unmapEventFlagWord os efWordPtr efWordNeedsUnmapping w =
     (if \<not> efWordNeedsUnmapping then Some (NO_ERROR, False, w) else do {
        p \<leftarrow> efWordPtr;
        let (ret, w1) = sys_munmap os (pobj p) (int (poff p)) 4 w;
        Some (case ret of Some e \<Rightarrow> - e | None \<Rightarrow> NO_ERROR, False, w1)
      })"

definition EventFlag_destroy :: "os \<Rightarrow> EventFlag \<Rightarrow> world \<Rightarrow> world option" where
  "EventFlag_destroy os ef w = do {
     (st, nu, w') \<leftarrow> unmapEventFlagWord os (mEfWordPtr ef) (mEfWordNeedsUnmapping ef) w;
     Some w'
   }"

text \<open>
  \<open>flag\<close> is the pointer \<open>*flag\<close> points to; the first argument says whether \<open>flag\<close> itself is not
  null. The allocation fails when \<open>os_new\<close> answers null.
\<close>

definition createEventFlag ::
  "os \<Rightarrow> ptr option \<Rightarrow> bool \<Rightarrow> EventFlag option \<Rightarrow> world \<Rightarrow> (status_t \<times> EventFlag option \<times> world) option"
where
  "createEventFlag os fwAddr flagGiven flag w =
     (if \<not> flagGiven then Some (BAD_VALUE, flag, w)
      else case sys_new os w of
                (None, w1) \<Rightarrow> Some (NO_MEMORY, None, w1)
              | (Some k, w1) \<Rightarrow>
                  (let (evFlag, status) = EventFlag_init fwAddr
                   in if status = NO_ERROR then Some (status, Some evFlag, w1)
                      else do { w2 \<leftarrow> EventFlag_destroy os evFlag w1; Some (status, None, w2) }))"

definition deleteEventFlag ::
  "os \<Rightarrow> EventFlag option \<Rightarrow> world \<Rightarrow> (status_t \<times> EventFlag option \<times> world) option" where
  "deleteEventFlag os evFlag w =
     (case evFlag of
        None \<Rightarrow> Some (BAD_VALUE, None, w)
      | Some ef \<Rightarrow> do {
          (status, nu, w1) \<leftarrow> unmapEventFlagWord os (mEfWordPtr ef) (mEfWordNeedsUnmapping ef) w;
          w2 \<leftarrow> EventFlag_destroy os (ef\<lparr>mEfWordNeedsUnmapping := nu\<rparr>) w1;
          Some (status, None, w2)
        })"

end
