(* ===== verification/MessageQueueBase.thy ===== *)
theory MessageQueueBase
  imports AidlMQDescriptorShim MemTransaction EventFlag
begin

text \<open>
  Model of the non-blocking operations of include/fmq/MessageQueueBase.h. The object's fields
  and its two template parameters (\<open>sizeof(T)\<close> and the flavor) are the record \<open>MessageQueue\<close>;
  the counters, the ring buffer and the callers' buffers live in the memory \<open>m\<close>, which every
  operation takes and returns. \<open>None\<close> is a crash (null dereference, division by zero).
  Atomic loads and stores are those of the code, in the code's order. Logging is left out.
\<close>

section \<open>State\<close>

record MessageQueue =
  sizeofT :: u64
  flavor :: MQFlavor
  mDesc :: "MQDescriptor option"
  mRing :: "ptr option"
  mReadPtr :: "ptr option"
  mWritePtr :: "ptr option"
  mEvFlagWord :: "ptr option"
  mEventFlag :: "EventFlag option"

definition isValid :: "MessageQueue \<Rightarrow> bool" where
  "isValid q \<longleftrightarrow> mRing q \<noteq> None \<and> mReadPtr q \<noteq> None \<and> mWritePtr q \<noteq> None"

definition getQuantumSize :: "MessageQueue \<Rightarrow> u64 option" where
  "getQuantumSize q = map_option getQuantum (mDesc q)"

definition getQuantumCount :: "MessageQueue \<Rightarrow> u64 option" where
  "getQuantumCount q = do { d \<leftarrow> mDesc q; checked_div (getSize d) (getQuantum d) }"

section \<open>Available space\<close>

definition availableToReadBytes :: "MessageQueue \<Rightarrow> mem \<Rightarrow> u64 option" where
  "availableToReadBytes q m = do {
     writePtr \<leftarrow> load64p m (mWritePtr q);
     readPtr \<leftarrow> load64p m (mReadPtr q);
     Some (if writePtr < readPtr then 0 else writePtr - readPtr)
   }"

definition availableToWriteBytes :: "MessageQueue \<Rightarrow> mem \<Rightarrow> u64 option" where
  "availableToWriteBytes q m = do {
     d \<leftarrow> mDesc q;
     availableBytes \<leftarrow> availableToReadBytes q m;
     Some (if getSize d < availableBytes then 0 else getSize d - availableBytes)
   }"

definition availableToWrite :: "MessageQueue \<Rightarrow> mem \<Rightarrow> u64 option" where
  "availableToWrite q m = do { b \<leftarrow> availableToWriteBytes q m; checked_div b (sizeofT q) }"

definition availableToRead :: "MessageQueue \<Rightarrow> mem \<Rightarrow> u64 option" where
  "availableToRead q m = do { b \<leftarrow> availableToReadBytes q m; checked_div b (sizeofT q) }"

section \<open>Writing\<close>

text \<open>Byte arithmetic on \<open>uint8_t*\<close>.\<close>

definition badd :: "ptr option \<Rightarrow> u64 \<Rightarrow> ptr option" where
  "badd p k = map_option (\<lambda>q. padd q (unat k)) p"

text \<open>
  \<open>beginWrite\<close> with the transaction \<open>result\<close> points to before the call; the branch for a
  misaligned write pointer leaves it as it was. The synchronized flavor evaluates
  \<open>availableToWrite\<close> first; the short-circuit is immaterial for the value.
\<close>

definition beginWrite ::
  "MessageQueue \<Rightarrow> mem \<Rightarrow> u64 \<Rightarrow> MemTransaction \<Rightarrow> (bool \<times> MemTransaction) option" where
  "beginWrite q m nMessages result = do {
     d \<leftarrow> mDesc q;
     noSpace \<leftarrow> (if flavor q = kSynchronizedReadWrite
                then do { a \<leftarrow> availableToWrite q m; Some (a < nMessages) } else Some False);
     tooMany \<leftarrow> (if noSpace then Some True
                else do { c \<leftarrow> getQuantumCount q; Some (nMessages > c) });
     if tooMany then Some (False, emptyMemTransaction) else do {
       writePtr \<leftarrow> load64p m (mWritePtr q);
       misaligned \<leftarrow> checked_mod writePtr (sizeofT q);
       if misaligned \<noteq> 0 then Some (False, result) else do {
         writeOffset \<leftarrow> checked_mod writePtr (getSize d);
         contiguousMessages \<leftarrow> checked_div (getSize d - writeOffset) (sizeofT q);
         Some (True,
           if contiguousMessages < nMessages
           then \<lparr>first = \<lparr>address = badd (mRing q) writeOffset, len = contiguousMessages\<rparr>,
                 second = \<lparr>address = mRing q, len = nMessages - contiguousMessages\<rparr>\<rparr>
           else \<lparr>first = \<lparr>address = badd (mRing q) writeOffset, len = nMessages\<rparr>,
                 second = emptyMemRegion\<rparr>)
       }
     }
   }"

definition commitWrite :: "MessageQueue \<Rightarrow> mem \<Rightarrow> u64 \<Rightarrow> (bool \<times> mem) option" where
  "commitWrite q m nMessages = do {
     writePtr \<leftarrow> load64p m (mWritePtr q);
     m' \<leftarrow> store64p m (mWritePtr q) (writePtr + nMessages * sizeofT q);
     Some (True, m')
   }"

definition mq_write :: "MessageQueue \<Rightarrow> mem \<Rightarrow> ptr option \<Rightarrow> u64 \<Rightarrow> (bool \<times> mem) option" where
  "mq_write q m dat nMessages = do {
     (ok, tx) \<leftarrow> beginWrite q m nMessages emptyMemTransaction;
     if \<not> ok then Some (False, m) else do {
       (copied, m1) \<leftarrow> copyTo (sizeofT q) tx m dat 0 nMessages;
       if \<not> copied then Some (False, m1) else commitWrite q m1 nMessages
     }
   }"

definition mq_write1 :: "MessageQueue \<Rightarrow> mem \<Rightarrow> ptr option \<Rightarrow> (bool \<times> mem) option" where
  "mq_write1 q m dat = mq_write q m dat 1"

section \<open>Reading\<close>

definition beginRead ::
  "MessageQueue \<Rightarrow> mem \<Rightarrow> u64 \<Rightarrow> (bool \<times> MemTransaction \<times> mem) option" where
  "beginRead q m nMessages = do {
     writePtr \<leftarrow> load64p m (mWritePtr q);
     readPtr \<leftarrow> load64p m (mReadPtr q);
     wMis \<leftarrow> checked_mod writePtr (sizeofT q);
     rMis \<leftarrow> checked_mod readPtr (sizeofT q);
     if wMis \<noteq> 0 \<or> rMis \<noteq> 0 then Some (False, emptyMemTransaction, m) else do {
       d \<leftarrow> mDesc q;
       if writePtr - readPtr > getSize d then do {
         m' \<leftarrow> store64p m (mReadPtr q) writePtr;
         Some (False, emptyMemTransaction, m')
       } else
         let nBytesDesired = nMessages * sizeofT q
         in if writePtr - readPtr < nBytesDesired then Some (False, emptyMemTransaction, m)
            else do {
              readOffset \<leftarrow> checked_mod readPtr (getSize d);
              contiguousMessages \<leftarrow> checked_div (getSize d - readOffset) (sizeofT q);
              Some (True,
                if contiguousMessages < nMessages
                then \<lparr>first = \<lparr>address = badd (mRing q) readOffset, len = contiguousMessages\<rparr>,
                      second = \<lparr>address = mRing q, len = nMessages - contiguousMessages\<rparr>\<rparr>
                else \<lparr>first = \<lparr>address = badd (mRing q) readOffset, len = nMessages\<rparr>,
                      second = emptyMemRegion\<rparr>,
                m)
            }
     }
   }"

definition commitRead :: "MessageQueue \<Rightarrow> mem \<Rightarrow> u64 \<Rightarrow> (bool \<times> mem) option" where
  "commitRead q m nMessages = do {
     readPtr \<leftarrow> load64p m (mReadPtr q);
     writePtr \<leftarrow> load64p m (mWritePtr q);
     d \<leftarrow> mDesc q;
     if writePtr - readPtr > getSize d then do {
       m' \<leftarrow> store64p m (mReadPtr q) writePtr;
       Some (False, m')
     } else do {
       m' \<leftarrow> store64p m (mReadPtr q) (readPtr + nMessages * sizeofT q);
       Some (True, m')
     }
   }"

definition mq_read :: "MessageQueue \<Rightarrow> mem \<Rightarrow> ptr option \<Rightarrow> u64 \<Rightarrow> (bool \<times> mem) option" where
  "mq_read q m dat nMessages = do {
     (ok, tx, m0) \<leftarrow> beginRead q m nMessages;
     if \<not> ok then Some (False, m0) else do {
       (copied, m1) \<leftarrow> copyFrom (sizeofT q) tx m0 dat 0 nMessages;
       if \<not> copied then Some (False, m1) else commitRead q m1 nMessages
     }
   }"

definition mq_read1 :: "MessageQueue \<Rightarrow> mem \<Rightarrow> ptr option \<Rightarrow> (bool \<times> mem) option" where
  "mq_read1 q m dat = mq_read q m dat 1"

end
