(* ===== verification/MessageQueueRing.thy ===== *)
theory MessageQueueRing
  imports MessageQueueBase
begin

text \<open>
  The ring buffer behind the queue: when a queue object is well-formed, where the slots of
  the message numbers lie, what the transactions of \<open>beginWrite\<close> and \<open>beginRead\<close> denote, and
  that they stay inside the ring buffer.
\<close>

section \<open>Well-formed queue objects\<close>

definition qdesc :: "MessageQueue \<Rightarrow> MQDescriptor" where "qdesc q = the (mDesc q)"
definition qring :: "MessageQueue \<Rightarrow> ptr" where "qring q = the (mRing q)"
definition qrp :: "MessageQueue \<Rightarrow> ptr" where "qrp q = the (mReadPtr q)"
definition qwp :: "MessageQueue \<Rightarrow> ptr" where "qwp q = the (mWritePtr q)"
definition qS :: "MessageQueue \<Rightarrow> nat" where "qS q = unat (getSize (qdesc q))"
definition qz :: "MessageQueue \<Rightarrow> nat" where "qz q = unat (sizeofT q)"
definition qcap :: "MessageQueue \<Rightarrow> nat" where "qcap q = qS q div qz q"

text \<open>
  What the constructor establishes of an object for which \<open>isValid\<close> holds: a descriptor
  whose quantum is \<open>sizeof(T)\<close> and whose size is not 0, and three mapped pieces of memory.
  The pieces must not overlap; the layouts the library computes itself have this property.
\<close>

definition mq_wf :: "MessageQueue \<Rightarrow> bool" where
  "mq_wf q \<longleftrightarrow> isValid q \<and> mDesc q \<noteq> None \<and> sizeofT q \<noteq> 0 \<and>
     getQuantum (qdesc q) = sizeofT q \<and> getSize (qdesc q) \<noteq> 0 \<and>
     sep (qring q) (qS q) (qrp q) 8 \<and> sep (qring q) (qS q) (qwp q) 8 \<and> sep (qrp q) 8 (qwp q) 8"

text \<open>The ring holds a whole number of messages, at least one.\<close>

definition mq_whole :: "MessageQueue \<Rightarrow> bool" where
  "mq_whole q \<longleftrightarrow> qz q dvd qS q"

lemma mq_wf_ptrs:
  assumes "mq_wf q"
  shows "mDesc q = Some (qdesc q)" "mRing q = Some (qring q)"
    "mReadPtr q = Some (qrp q)" "mWritePtr q = Some (qwp q)"
  using assms by (auto simp: mq_wf_def isValid_def qdesc_def qring_def qrp_def qwp_def)

lemma mq_wf_sizes:
  assumes "mq_wf q"
  shows "sizeofT q \<noteq> 0" "getSize (qdesc q) \<noteq> 0" "getQuantum (qdesc q) = sizeofT q"
    "0 < qz q" "0 < qS q"
  using assms by (auto simp: mq_wf_def qz_def qS_def unat_gt_0)

lemma mq_wf_sep:
  assumes "mq_wf q"
  shows "sep (qring q) (qS q) (qrp q) 8" "sep (qring q) (qS q) (qwp q) 8" "sep (qrp q) 8 (qwp q) 8"
    "sep (qwp q) 8 (qrp q) 8" "sep (qwp q) 8 (qring q) (qS q)" "sep (qrp q) 8 (qring q) (qS q)"
  using assms by (auto simp: mq_wf_def sep_commute)

lemma qS_less: "qS q < 2 ^ 64"
  unfolding qS_def by (rule unat64_less)

lemma qcap_times: "mq_whole q \<Longrightarrow> qcap q * qz q = qS q"
  by (simp add: qcap_def mq_whole_def)

lemma qS_eq: "mq_whole q \<Longrightarrow> qS q = qcap q * qz q"
  by (simp add: qcap_times)

lemma qcap_pos: "mq_wf q \<Longrightarrow> mq_whole q \<Longrightarrow> 0 < qcap q"
  using qcap_times [of q] mq_wf_sizes [of q] by (cases "qcap q = 0") simp_all

lemma qcap_bytes: "n \<le> qcap q \<Longrightarrow> n * qz q \<le> qS q"
  by (metis qcap_def mult_le_mono1 order_trans div_times_less_eq_dividend)

lemma qcap_unat: "unat (getSize (qdesc q) div sizeofT q) = qcap q"
  by (simp add: unat_div qcap_def qS_def qz_def)

lemma mult_sizeof_unat:
  assumes "unat n * qz q < 2 ^ 64"
  shows "unat (n * sizeofT q) = unat n * qz q"
  using assms by (simp add: qz_def unat_mult_no_wrap)

section \<open>The counters\<close>

definition wrc :: "MessageQueue \<Rightarrow> mem \<Rightarrow> nat" where "wrc q m = unat (load64 m (qwp q))"
definition rdc :: "MessageQueue \<Rightarrow> mem \<Rightarrow> nat" where "rdc q m = unat (load64 m (qrp q))"

text \<open>\<open>availableToReadBytes\<close> and \<open>availableToWriteBytes\<close> as natural numbers.\<close>

definition usedBytes :: "MessageQueue \<Rightarrow> mem \<Rightarrow> nat" where
  "usedBytes q m = wrc q m - rdc q m"

definition freeBytes :: "MessageQueue \<Rightarrow> mem \<Rightarrow> nat" where
  "freeBytes q m = qS q - usedBytes q m"

lemma availableToReadBytes_eq:
  assumes "mq_wf q"
  shows "\<exists>b. availableToReadBytes q m = Some b \<and> unat b = usedBytes q m"
  using mq_wf_ptrs [OF assms]
  by (auto simp: availableToReadBytes_def usedBytes_def wrc_def rdc_def word_less_nat_alt
      word_le_nat_alt unat_sub_le)

lemma availableToWriteBytes_eq:
  assumes "mq_wf q"
  shows "\<exists>b. availableToWriteBytes q m = Some b \<and> unat b = freeBytes q m"
proof -
  obtain b where "availableToReadBytes q m = Some b" "unat b = usedBytes q m"
    using availableToReadBytes_eq [OF assms] by blast
  then show ?thesis using mq_wf_ptrs [OF assms]
    by (auto simp: availableToWriteBytes_def freeBytes_def qS_def word_less_nat_alt
        word_le_nat_alt unat_sub_le)
qed

lemma availableToWrite_eq:
  assumes "mq_wf q"
  shows "\<exists>a. availableToWrite q m = Some a \<and> unat a = freeBytes q m div qz q"
  using availableToWriteBytes_eq [OF assms, of m] mq_wf_sizes [OF assms]
  by (auto simp: availableToWrite_def unat_div qz_def)

lemma availableToRead_eq:
  assumes "mq_wf q"
  shows "\<exists>a. availableToRead q m = Some a \<and> unat a = usedBytes q m div qz q"
  using availableToReadBytes_eq [OF assms, of m] mq_wf_sizes [OF assms]
  by (auto simp: availableToRead_def unat_div qz_def)

lemma getQuantumCount_eq:
  assumes "mq_wf q"
  shows "\<exists>c. getQuantumCount q = Some c \<and> unat c = qcap q"
  using mq_wf_ptrs [OF assms] mq_wf_sizes [OF assms]
  by (simp add: getQuantumCount_def qcap_unat)

section \<open>The transaction for a stretch of the ring\<close>

text \<open>The transaction both \<open>beginWrite\<close> and \<open>beginRead\<close> build from a counter value.\<close>

definition contiguous :: "MessageQueue \<Rightarrow> u64 \<Rightarrow> u64" where
  "contiguous q pos = (getSize (qdesc q) - pos mod getSize (qdesc q)) div sizeofT q"

definition ring_tx :: "MessageQueue \<Rightarrow> u64 \<Rightarrow> u64 \<Rightarrow> MemTransaction" where
  "ring_tx q pos n =
     (let off = pos mod getSize (qdesc q)
      in if contiguous q pos < n
         then \<lparr>first = \<lparr>address = badd (mRing q) off, len = contiguous q pos\<rparr>,
               second = \<lparr>address = mRing q, len = n - contiguous q pos\<rparr>\<rparr>
         else \<lparr>first = \<lparr>address = badd (mRing q) off, len = n\<rparr>, second = emptyMemRegion\<rparr>)"

lemma beginWrite_eq:
  assumes wf: "mq_wf q"
  shows "beginWrite q m n r = Some
    (if flavor q = kSynchronizedReadWrite \<and> freeBytes q m div qz q < unat n \<or> qcap q < unat n
     then (False, emptyMemTransaction)
     else if \<not> qz q dvd wrc q m then (False, r)
     else (True, ring_tx q (load64 m (qwp q)) n))"
proof -
  obtain a c where a: "availableToWrite q m = Some a" "unat a = freeBytes q m div qz q"
    and c: "getQuantumCount q = Some c" "unat c = qcap q"
    using availableToWrite_eq [OF wf] getQuantumCount_eq [OF wf] by blast
  have mis: "load64 m (qwp q) mod sizeofT q \<noteq> 0 \<longleftrightarrow> \<not> qz q dvd wrc q m"
    by (simp add: wrc_def qz_def unat_mod dvd_eq_mod_eq_0 flip: unat_eq_zero)
  show ?thesis
    using mq_wf_ptrs [OF wf] mq_wf_sizes [OF wf] a(1) c(1) mis
    by (auto simp: beginWrite_def ring_tx_def contiguous_def Let_def word_less_nat_alt a(2) c(2))
qed

lemma beginRead_eq:
  assumes wf: "mq_wf q"
  shows "beginRead q m n = Some
    (if \<not> qz q dvd wrc q m \<or> \<not> qz q dvd rdc q m then (False, emptyMemTransaction, m)
     else if qS q < unat (load64 m (qwp q) - load64 m (qrp q))
     then (False, emptyMemTransaction, store64 m (qrp q) (load64 m (qwp q)))
     else if unat (load64 m (qwp q) - load64 m (qrp q)) < unat (n * sizeofT q)
     then (False, emptyMemTransaction, m)
     else (True, ring_tx q (load64 m (qrp q)) n, m))"
proof -
  have mis: "w mod sizeofT q = 0 \<longleftrightarrow> qz q dvd unat w" for w
    by (simp add: qz_def unat_mod dvd_eq_mod_eq_0 flip: unat_eq_zero)
  show ?thesis
    using mq_wf_ptrs [OF wf] mq_wf_sizes [OF wf]
    by (simp add: beginRead_def ring_tx_def contiguous_def Let_def word_less_nat_alt mis
        wrc_def rdc_def qS_def)
qed

section \<open>Transactions stay inside the ring\<close>

text \<open>
  A region inside the ring buffer: it has an address, and its messages lie between the first
  and the last byte of the ring.
\<close>

definition region_inside :: "MessageQueue \<Rightarrow> MemRegion \<Rightarrow> bool" where
  "region_inside q r \<longleftrightarrow> len r = 0 \<or>
     (\<exists>p. address r = Some p \<and> pobj p = pobj (qring q) \<and> poff (qring q) \<le> poff p \<and>
          poff p + unat (len r) * qz q \<le> poff (qring q) + qS q)"

definition tx_inside :: "MessageQueue \<Rightarrow> MemTransaction \<Rightarrow> bool" where
  "tx_inside q tx \<longleftrightarrow> region_inside q (first tx) \<and> region_inside q (second tx)"

lemma contiguous_unat:
  assumes "mq_wf q"
  shows "unat (contiguous q pos) = (qS q - unat pos mod qS q) div qz q"
proof -
  have "pos mod getSize (qdesc q) \<le> getSize (qdesc q)"
    using mq_wf_sizes(5) [OF assms] by (simp add: word_le_nat_alt unat_mod qS_def less_imp_le)
  then show ?thesis
    by (simp add: contiguous_def unat_div unat_sub_le unat_mod qS_def qz_def)
qed

lemma contiguous_bytes:
  assumes "mq_wf q"
  shows "unat pos mod qS q + unat (contiguous q pos) * qz q \<le> qS q"
proof -
  have "unat pos mod qS q < qS q" using mq_wf_sizes(5) [OF assms] by simp
  moreover have "unat (contiguous q pos) * qz q \<le> qS q - unat pos mod qS q"
    by (simp add: contiguous_unat [OF assms])
  ultimately show ?thesis by linarith
qed

lemma ring_tx_first:
  "first (ring_tx q pos n) =
    \<lparr>address = badd (mRing q) (pos mod getSize (qdesc q)), len = min n (contiguous q pos)\<rparr>"
  by (auto simp: ring_tx_def Let_def min_def not_less)

lemma ring_tx_second:
  "second (ring_tx q pos n) =
    (if contiguous q pos < n then \<lparr>address = mRing q, len = n - contiguous q pos\<rparr>
     else emptyMemRegion)"
  by (simp add: ring_tx_def Let_def)

lemma ring_tx_lens:
  "unat (len (first (ring_tx q pos n))) = min (unat n) (unat (contiguous q pos))"
  "unat (len (second (ring_tx q pos n))) = unat n - unat (contiguous q pos)"
  by (auto simp: ring_tx_first ring_tx_second min_def word_le_nat_alt word_less_nat_alt
      unat_sub_le emptyMemRegion_def)

lemma ring_tx_total:
  "unat (len (first (ring_tx q pos n))) + unat (len (second (ring_tx q pos n))) = unat n"
  by (simp add: ring_tx_lens)

lemma ring_tx_bases:
  assumes "mq_wf q"
  shows "base (first (ring_tx q pos n)) = padd (qring q) (unat pos mod qS q)"
    "unat (len (second (ring_tx q pos n))) \<noteq> 0 \<Longrightarrow> base (second (ring_tx q pos n)) = qring q"
  using mq_wf_ptrs [OF assms]
  by (auto simp: ring_tx_first ring_tx_second base_def badd_def unat_mod qS_def emptyMemRegion_def)

lemma ring_tx_inside:
  assumes wf: "mq_wf q" and n: "unat n \<le> qcap q"
  shows "tx_inside q (ring_tx q pos n)"
proof -
  have "min (unat n) (unat (contiguous q pos)) * qz q \<le> unat (contiguous q pos) * qz q"
    by simp
  then have "unat pos mod qS q + min (unat n) (unat (contiguous q pos)) * qz q \<le> qS q"
    using contiguous_bytes [OF wf, of pos] by linarith
  then have first: "region_inside q (first (ring_tx q pos n))"
    using mq_wf_ptrs(2) [OF wf] ring_tx_lens(1) [of q pos n]
    by (auto simp: region_inside_def ring_tx_first badd_def unat_mod qS_def)
  have "(unat n - unat (contiguous q pos)) * qz q \<le> unat n * qz q" by simp
  then have "(unat n - unat (contiguous q pos)) * qz q \<le> qS q"
    using qcap_bytes [OF n] by linarith
  then have "region_inside q (second (ring_tx q pos n))"
    using mq_wf_ptrs [OF wf] ring_tx_lens(2) [of q pos n]
    by (auto simp: region_inside_def ring_tx_second emptyMemRegion_def)
  with first show ?thesis by (simp add: tx_inside_def)
qed

lemma ring_tx_wf:
  assumes wf: "mq_wf q" and n: "unat n \<le> qcap q"
  shows "tx_wf (sizeofT q) (ring_tx q pos n)"
proof -
  have "unat n * qz q < 2 ^ 64" using qcap_bytes [OF n] qS_less [of q] by linarith
  then show ?thesis
    using mq_wf_ptrs [OF wf] mq_wf_sizes [OF wf] ring_tx_total [of q pos n]
    by (auto simp: tx_wf_def region_wf_def ring_tx_first ring_tx_second badd_def
        emptyMemRegion_def qz_def)
qed

lemma ring_tx_fits:
  assumes "mq_wf q" and "unat n \<le> qcap q"
  shows "tx_fits (sizeofT q) (ring_tx q pos n) 0 n"
  using ring_tx_wf [OF assms] ring_tx_total [of q pos n] by (simp add: tx_fits_def)

text \<open>
  C14. For a well-formed queue object, whatever the counters hold, a successful \<open>beginWrite\<close>
  describes memory inside the ring buffer only, with room for exactly the messages asked for.
  This needs no assumption that the size is a multiple of the message size.
\<close>

theorem beginWrite_memory_safe:
  assumes "mq_wf q" and "beginWrite q m nMessages r = Some (True, tx)"
  shows "tx_inside q tx \<and>
    unat (len (first tx)) + unat (len (second tx)) = unat nMessages"
proof -
  from assms have "unat nMessages \<le> qcap q" and "tx = ring_tx q (load64 m (qwp q)) nMessages"
    by (auto simp: beginWrite_eq split: if_splits)
  then show ?thesis using assms(1) by (simp add: ring_tx_inside ring_tx_total)
qed

text \<open>
  C15. The same for \<open>beginRead\<close>, for a count that the queue can hold at all. (\<open>beginRead\<close> does
  not test the count against the capacity, unlike \<open>beginWrite\<close>.)
\<close>

theorem beginRead_memory_safe:
  assumes "mq_wf q" and "unat nMessages \<le> qcap q"
    and "beginRead q m nMessages = Some (True, tx, m')"
  shows "tx_inside q tx \<and>
    unat (len (first tx)) + unat (len (second tx)) = unat nMessages \<and> m' = m"
proof -
  from assms(1,3) have "tx = ring_tx q (load64 m (qrp q)) nMessages" "m' = m"
    by (auto simp: beginRead_eq split: if_splits)
  then show ?thesis using assms(1,2) by (simp add: ring_tx_inside ring_tx_total)
qed

section \<open>The slots of the message numbers\<close>

text \<open>Message number \<open>k\<close>, counted from the creation of the queue, is stored at this slot.\<close>

definition ring_slot :: "MessageQueue \<Rightarrow> nat \<Rightarrow> ptr" where
  "ring_slot q k = padd (qring q) (k mod qcap q * qz q)"

lemma contiguous_whole:
  assumes wf: "mq_wf q" and whole: "mq_whole q" and al: "unat pos = k * qz q"
  shows "unat (contiguous q pos) = qcap q - k mod qcap q" "unat pos mod qS q = k mod qcap q * qz q"
proof -
  have S: "qS q = qcap q * qz q" using whole by (simp add: qcap_times)
  show off: "unat pos mod qS q = k mod qcap q * qz q"
    by (simp add: S al)
  have "qS q - k mod qcap q * qz q = (qcap q - k mod qcap q) * qz q"
    by (simp add: S diff_mult_distrib)
  then show "unat (contiguous q pos) = qcap q - k mod qcap q"
    using mq_wf_sizes(4) [OF wf] by (simp add: contiguous_unat [OF wf] off)
qed

lemma mod_add_wrap:
  assumes "0 < (c::nat)" and "i < c"
  shows "(k + i) mod c = (if i < c - k mod c then k mod c + i else i - (c - k mod c))"
proof -
  have lt: "k mod c < c" using assms(1) by simp
  have eq: "(k + i) mod c = (k mod c + i) mod c" by (simp add: mod_add_left_eq)
  show ?thesis
  proof (cases "i < c - k mod c")
    case True
    with lt show ?thesis by (simp add: eq)
  next
    case False
    then have "(k mod c + i) mod c = (k mod c + i - c) mod c"
      using lt by (simp add: le_mod_geq)
    also have "\<dots> = k mod c + i - c" using lt assms(2) by (intro mod_less) linarith
    finally show ?thesis using False lt by (simp add: eq)
  qed
qed

lemma ring_tx_slots:
  assumes wf: "mq_wf q" and whole: "mq_whole q" and al: "unat pos = k * qz q"
    and n: "unat n \<le> qcap q"
  shows "tx_slots (sizeofT q) (ring_tx q pos n) 0 n = map (\<lambda>i. ring_slot q (k + i)) [0..<unat n]"
proof (rule nth_equalityI)
  show "length (tx_slots (sizeofT q) (ring_tx q pos n) 0 n) =
      length (map (\<lambda>i. ring_slot q (k + i)) [0..<unat n])"
    by (simp add: tx_slots_def ring_tx_total)
next
  fix i assume "i < length (tx_slots (sizeofT q) (ring_tx q pos n) 0 n)"
  then have i: "i < unat n" by (simp add: tx_slots_def ring_tx_total)
  let ?c = "qcap q - k mod qcap q"
  note cw = contiguous_whole [OF wf whole al]
  have wrap: "(k + i) mod qcap q = (if i < ?c then k mod qcap q + i else i - ?c)"
    using mod_add_wrap [OF qcap_pos [OF wf whole]] i n by simp
  show "tx_slots (sizeofT q) (ring_tx q pos n) 0 n ! i =
      map (\<lambda>i. ring_slot q (k + i)) [0..<unat n] ! i"
  proof (cases "i < ?c")
    case True
    with i show ?thesis
      by (simp add: tx_slots_def tx_ptrs_def nth_append ring_tx_lens cw wrap ring_slot_def
          ring_tx_bases(1) [OF wf] add_mult_distrib flip: qz_def)
  next
    case False
    with i have "unat (len (second (ring_tx q pos n))) \<noteq> 0"
      by (simp add: ring_tx_lens cw)
    with False i show ?thesis
      by (simp add: tx_slots_def tx_ptrs_def nth_append ring_tx_lens cw wrap ring_slot_def
          ring_tx_bases(2) [OF wf] flip: qz_def)
  qed
qed

end
