(* ===== verification/MessageQueueEffects.thy ===== *)
theory MessageQueueEffects
  imports MessageQueueRing
begin

text \<open>
  The effect of one \<open>write\<close> and one \<open>read\<close> on the slots of the ring, the counters and the
  rest of the memory, for both flavors, and their failures. The refinement proofs rest on
  these lemmas only.
\<close>

section \<open>Slots\<close>

lemma mod_distinct:
  assumes "(k::nat) < j" and "j - k < c"
  shows "j mod c \<noteq> k mod c"
proof
  assume "j mod c = k mod c"
  then have "c dvd j - k" using assms(1) by (simp add: mod_eq_dvd_iff_nat)
  then show False using assms by (auto dest: dvd_imp_le)
qed

lemma ring_slot_mod: "k mod qcap q = j mod qcap q \<Longrightarrow> ring_slot q k = ring_slot q j"
  by (simp add: ring_slot_def)

lemma mult_slot_unique:
  assumes "a * z \<le> (x::nat)" "x < a * z + z" "b * z \<le> x" "x < b * z + z"
  shows "a = b"
proof -
  have "x div z = a" "x div z = b"
    using assms by (auto intro!: div_nat_eqI simp: algebra_simps)
  then show ?thesis by simp
qed

lemma ring_slot_distinct:
  assumes "k mod qcap q \<noteq> j mod qcap q" and "in_range (ring_slot q k) (qz q) ob i"
  shows "\<not> in_range (ring_slot q j) (qz q) ob i"
proof
  assume j: "in_range (ring_slot q j) (qz q) ob i"
  let ?x = "i - poff (qring q)"
  have "k mod qcap q = j mod qcap q"
    by (rule mult_slot_unique [where x = ?x and z = "qz q"])
      (use assms(2) j in \<open>auto simp: in_range_def ring_slot_def\<close>)
  with assms(1) show False ..
qed

lemma ring_slot_in_ring:
  assumes wf: "mq_wf q" and whole: "mq_whole q" and "in_range (ring_slot q k) (qz q) ob i"
  shows "in_range (qring q) (qS q) ob i"
proof -
  have "k mod qcap q + 1 \<le> qcap q" using qcap_pos [OF wf whole] by (simp add: Suc_leI)
  then have "(k mod qcap q + 1) * qz q \<le> qcap q * qz q" by (rule mult_le_mono1)
  then have "k mod qcap q * qz q + qz q \<le> qS q" using qcap_times [OF whole] by simp
  then show ?thesis using assms(3) by (auto simp: in_range_def ring_slot_def)
qed

lemma in_range_sep: "sep p n p' n' \<Longrightarrow> in_range p n ob i \<Longrightarrow> \<not> in_range p' n' ob i"
  by (auto simp: sep_def in_range_def)

text \<open>Reading a slot, a counter or a buffer that a step did not touch.\<close>

lemma rd_bytes_unchanged:
  assumes "\<And>i. in_range p n (pobj p) i \<Longrightarrow> m' (pobj p) i = m (pobj p) i"
  shows "rd_bytes m' p n = rd_bytes m p n"
  using assms by (intro rd_bytes_cong) (simp add: in_range_def)

section \<open>Callers' buffers\<close>

text \<open>A buffer for \<open>n\<close> messages that overlaps neither the ring nor the counters.\<close>

definition user_buf :: "MessageQueue \<Rightarrow> ptr \<Rightarrow> nat \<Rightarrow> bool" where
  "user_buf q d n \<longleftrightarrow> sep d (n * qz q) (qring q) (qS q) \<and>
     sep d (n * qz q) (qrp q) 8 \<and> sep d (n * qz q) (qwp q) 8"

lemma user_buf_mono: "user_buf q d n \<Longrightarrow> k \<le> n \<Longrightarrow> user_buf q d k"
  unfolding user_buf_def by (auto elim!: sep_mono)

lemma ring_tx_buffer:
  assumes wf: "mq_wf q" and buf: "user_buf q d (unat n)" and n: "unat n \<le> qcap q"
  shows "tx_buffer (sizeofT q) (ring_tx q pos n) d n"
proof -
  have "min (unat n) (unat (contiguous q pos)) * qz q \<le> unat (contiguous q pos) * qz q" by simp
  then have f: "unat pos mod qS q + min (unat n) (unat (contiguous q pos)) * qz q \<le> qS q"
    using contiguous_bytes [OF wf, of pos] by linarith
  have "(unat n - unat (contiguous q pos)) * qz q \<le> unat n * qz q" by simp
  then have s: "(unat n - unat (contiguous q pos)) * qz q \<le> qS q"
    using qcap_bytes [OF n] by linarith
  have ring: "sep (qring q) (qS q) d (unat n * qz q)"
    using buf by (simp add: user_buf_def sep_commute)
  have "sep (padd (qring q) (unat pos mod qS q))
      (min (unat n) (unat (contiguous q pos)) * qz q) d (unat n * qz q)"
    using ring f by (rule sep_padd)
  moreover have "sep (padd (qring q) 0) ((unat n - unat (contiguous q pos)) * qz q)
      d (unat n * qz q)"
    using ring s by (intro sep_padd) simp_all
  ultimately show ?thesis
    using ring_tx_bases [OF wf, of pos n] ring_tx_lens [of q pos n]
    by (cases "unat (len (second (ring_tx q pos n))) = 0")
      (simp_all add: tx_buffer_def sep_commute sep_def flip: qz_def)
qed

lemma ring_tx_disjoint:
  assumes wf: "mq_wf q" and whole: "mq_whole q" and al: "unat pos = k * qz q"
    and n: "unat n \<le> qcap q"
  shows "tx_disjoint (sizeofT q) (ring_tx q pos n)"
proof (cases "unat (len (second (ring_tx q pos n))) = 0")
  case True
  then show ?thesis by (simp add: tx_disjoint_def sep_def)
next
  case False
  note cw = contiguous_whole [OF wf whole al]
  have "k mod qcap q \<le> qcap q" using qcap_pos [OF wf whole] by (simp add: less_imp_le)
  then have "unat n - (qcap q - k mod qcap q) \<le> k mod qcap q" using n by linarith
  then have "(unat n - (qcap q - k mod qcap q)) * qz q \<le> k mod qcap q * qz q"
    by (rule mult_le_mono1)
  then show ?thesis
    using False ring_tx_bases [OF wf, of pos n] ring_tx_lens [of q pos n] cw
    by (simp add: tx_disjoint_def sep_def flip: qz_def)
qed

section \<open>Copies between a buffer and the ring\<close>

text \<open>Stores to the counters leave slots and buffers alone.\<close>

lemma slot_store_counter:
  assumes "mq_wf q" and "mq_whole q"
  shows "rd_bytes (store64 m (qwp q) v) (ring_slot q k) (qz q) = rd_bytes m (ring_slot q k) (qz q)"
    "rd_bytes (store64 m (qrp q) v) (ring_slot q k) (qz q) = rd_bytes m (ring_slot q k) (qz q)"
  using mq_wf_sep [OF assms(1)]
  by (auto intro!: rd_bytes_unchanged cell64.store_out dest!: ring_slot_in_ring [OF assms]
      dest: in_range_sep)

lemma buf_store_counter:
  assumes "user_buf q d n"
  shows "elems (store64 m (qwp q) v) d (qz q) n = elems m d (qz q) n"
    "elems (store64 m (qrp q) v) d (qz q) n = elems m d (qz q) n"
  using assms unfolding user_buf_def
  by (auto intro!: elems_cong rd_bytes_unchanged cell64.store_out dest: in_range_sep)

lemma copyTo_ring:
  assumes wf: "mq_wf q" and whole: "mq_whole q" and al: "unat pos = w * qz q"
    and n: "unat n \<le> qcap q" and buf: "user_buf q d (unat n)"
  obtains m1 where "copyTo (sizeofT q) (ring_tx q pos n) m (Some d) 0 n = Some (True, m1)"
    "map (\<lambda>i. rd_bytes m1 (ring_slot q (w + i)) (qz q)) [0..<unat n] = elems m d (qz q) (unat n)"
    "\<And>k. (\<And>i. i < unat n \<Longrightarrow> k mod qcap q \<noteq> (w + i) mod qcap q) \<Longrightarrow>
       rd_bytes m1 (ring_slot q k) (qz q) = rd_bytes m (ring_slot q k) (qz q)"
    "\<And>ob i. \<not> in_range (qring q) (qS q) ob i \<Longrightarrow> m1 ob i = m ob i"
proof -
  let ?tx = "ring_tx q pos n"
  have slots: "tx_slots (sizeofT q) ?tx 0 n = map (\<lambda>i. ring_slot q (w + i)) [0..<unat n]"
    by (rule ring_tx_slots [OF wf whole al n])
  obtain m1 where copy: "copyTo (sizeofT q) ?tx m (Some d) 0 n = Some (True, m1)"
    and new: "map (\<lambda>p. rd_bytes m1 p (qz q)) (tx_slots (sizeofT q) ?tx 0 n) =
        elems m d (qz q) (unat n)"
    and out: "\<And>ob i. (\<forall>p \<in> set (tx_slots (sizeofT q) ?tx 0 n). \<not> in_range p (qz q) ob i) \<Longrightarrow>
        m1 ob i = m ob i"
    using copyTo_effect [OF ring_tx_fits [OF wf n] ring_tx_disjoint [OF wf whole al n]
        ring_tx_buffer [OF wf buf n]] unfolding qz_def by blast
  show thesis
  proof (rule that)
    show "copyTo (sizeofT q) ?tx m (Some d) 0 n = Some (True, m1)" by (rule copy)
    show "map (\<lambda>i. rd_bytes m1 (ring_slot q (w + i)) (qz q)) [0..<unat n] = elems m d (qz q) (unat n)"
      using new by (simp add: slots comp_def)
    show "m1 ob i = m ob i" if "\<not> in_range (qring q) (qS q) ob i" for ob i
      using that by (intro out) (auto simp: slots dest: ring_slot_in_ring [OF wf whole])
    show "rd_bytes m1 (ring_slot q k) (qz q) = rd_bytes m (ring_slot q k) (qz q)"
      if "\<And>i. i < unat n \<Longrightarrow> k mod qcap q \<noteq> (w + i) mod qcap q" for k
    proof (rule rd_bytes_unchanged, rule out, rule ballI)
      fix i p assume i: "in_range (ring_slot q k) (qz q) (pobj (ring_slot q k)) i"
        and "p \<in> set (tx_slots (sizeofT q) ?tx 0 n)"
      then obtain j where "j < unat n" "p = ring_slot q (w + j)" by (auto simp: slots)
      with that i show "\<not> in_range p (qz q) (pobj (ring_slot q k)) i"
        by (blast dest: ring_slot_distinct)
    qed
  qed
qed

lemma copyFrom_ring:
  assumes wf: "mq_wf q" and whole: "mq_whole q" and al: "unat pos = r * qz q"
    and n: "unat n \<le> qcap q" and buf: "user_buf q d (unat n)"
  obtains m1 where "copyFrom (sizeofT q) (ring_tx q pos n) m (Some d) 0 n = Some (True, m1)"
    "elems m1 d (qz q) (unat n) = map (\<lambda>i. rd_bytes m (ring_slot q (r + i)) (qz q)) [0..<unat n]"
    "\<And>k. rd_bytes m1 (ring_slot q k) (qz q) = rd_bytes m (ring_slot q k) (qz q)"
    "\<And>ob i. \<not> in_range d (unat n * qz q) ob i \<Longrightarrow> m1 ob i = m ob i"
proof -
  obtain m1 where copy: "copyFrom (sizeofT q) (ring_tx q pos n) m (Some d) 0 n = Some (True, m1)"
    and got: "elems m1 d (qz q) (unat n) =
        map (\<lambda>p. rd_bytes m p (qz q)) (tx_slots (sizeofT q) (ring_tx q pos n) 0 n)"
    and keep: "\<And>ob i. \<not> in_range d (unat n * qz q) ob i \<Longrightarrow> m1 ob i = m ob i"
    using copyFrom_effect [OF ring_tx_fits [OF wf n] ring_tx_buffer [OF wf buf n]]
    unfolding qz_def by blast
  have "sep d (unat n * qz q) (qring q) (qS q)" using buf by (simp add: user_buf_def)
  then have "rd_bytes m1 (ring_slot q k) (qz q) = rd_bytes m (ring_slot q k) (qz q)" for k
    by (auto intro!: rd_bytes_unchanged keep dest!: ring_slot_in_ring [OF wf whole]
        dest: in_range_sep)
  then show thesis
    using copy got keep by (intro that [of m1]) (simp_all add: ring_tx_slots [OF wf whole al n] comp_def)
qed

text \<open>The counters survive a change of the ring or of a buffer only.\<close>

lemma ring_change_counters:
  assumes "mq_wf q" and "\<And>ob i. \<not> in_range (qring q) (qS q) ob i \<Longrightarrow> m1 ob i = m ob i"
  shows "load64 m1 (qwp q) = load64 m (qwp q)" "load64 m1 (qrp q) = load64 m (qrp q)"
  using mq_wf_sep [OF assms(1)]
  by (auto intro!: cell64.load_unchanged assms(2) dest: in_range_sep)

lemma buf_change_counters:
  assumes "user_buf q d n" and "\<And>ob i. \<not> in_range d (n * qz q) ob i \<Longrightarrow> m1 ob i = m ob i"
  shows "load64 m1 (qwp q) = load64 m (qwp q)" "load64 m1 (qrp q) = load64 m (qrp q)"
  using assms(1) unfolding user_buf_def
  by (auto intro!: cell64.load_unchanged assms(2) dest: in_range_sep)

section \<open>A successful write\<close>

lemma mq_write_effect:
  assumes wf: "mq_wf q" and whole: "mq_whole q" and al: "wrc q m = w * qz q"
    and n: "unat n \<le> qcap q" and buf: "user_buf q d (unat n)"
    and space: "flavor q = kSynchronizedReadWrite \<Longrightarrow> unat n \<le> freeBytes q m div qz q"
  obtains m' where "mq_write q m (Some d) n = Some (True, m')"
    "load64 m' (qwp q) = load64 m (qwp q) + n * sizeofT q"
    "load64 m' (qrp q) = load64 m (qrp q)"
    "map (\<lambda>i. rd_bytes m' (ring_slot q (w + i)) (qz q)) [0..<unat n] = elems m d (qz q) (unat n)"
    "\<And>k. (\<And>i. i < unat n \<Longrightarrow> k mod qcap q \<noteq> (w + i) mod qcap q) \<Longrightarrow>
       rd_bytes m' (ring_slot q k) (qz q) = rd_bytes m (ring_slot q k) (qz q)"
    "\<And>ob i. \<not> in_range (qring q) (qS q) ob i \<Longrightarrow> \<not> in_range (qwp q) 8 ob i \<Longrightarrow> m' ob i = m ob i"
proof -
  have al': "unat (load64 m (qwp q)) = w * qz q" using al by (simp add: wrc_def)
  have begin_tx: "beginWrite q m n emptyMemTransaction = Some (True, ring_tx q (load64 m (qwp q)) n)"
    using n space al by (auto simp: beginWrite_eq [OF wf])
  obtain m1 where copy: "copyTo (sizeofT q) (ring_tx q (load64 m (qwp q)) n) m (Some d) 0 n =
      Some (True, m1)"
    and new: "map (\<lambda>i. rd_bytes m1 (ring_slot q (w + i)) (qz q)) [0..<unat n] =
        elems m d (qz q) (unat n)"
    and old: "\<And>k. (\<And>i. i < unat n \<Longrightarrow> k mod qcap q \<noteq> (w + i) mod qcap q) \<Longrightarrow>
        rd_bytes m1 (ring_slot q k) (qz q) = rd_bytes m (ring_slot q k) (qz q)"
    and keep: "\<And>ob i. \<not> in_range (qring q) (qS q) ob i \<Longrightarrow> m1 ob i = m ob i"
    using copyTo_ring [OF wf whole al' n buf, of m] by blast
  note same = ring_change_counters [OF wf keep]
  show thesis
    using begin_tx copy mq_wf_ptrs [OF wf] new old mq_wf_sep [OF wf] same
    by (intro that [of "store64 m1 (qwp q) (load64 m (qwp q) + n * sizeofT q)"])
      (simp_all add: mq_write_def commitWrite_def slot_store_counter [OF wf whole]
        cell64.load_store_same cell64.load_store_sep cell64.store_out keep)
qed

lemma mq_write_fails:
  assumes "mq_wf q"
    and "flavor q = kSynchronizedReadWrite \<and> freeBytes q m div qz q < unat n \<or> qcap q < unat n"
  shows "mq_write q m dat n = Some (False, m)"
  using assms by (auto simp: mq_write_def beginWrite_eq)

section \<open>A successful read\<close>

lemma mq_read_effect:
  assumes wf: "mq_wf q" and whole: "mq_whole q"
    and al: "rdc q m = r * qz q" "qz q dvd wrc q m"
    and rng: "rdc q m \<le> wrc q m" "wrc q m - rdc q m \<le> qS q"
    and n: "unat n * qz q \<le> wrc q m - rdc q m" and buf: "user_buf q d (unat n)"
  obtains m' where "mq_read q m (Some d) n = Some (True, m')"
    "load64 m' (qwp q) = load64 m (qwp q)"
    "load64 m' (qrp q) = load64 m (qrp q) + n * sizeofT q"
    "elems m' d (qz q) (unat n) =
       map (\<lambda>i. rd_bytes m (ring_slot q (r + i)) (qz q)) [0..<unat n]"
    "\<And>k. rd_bytes m' (ring_slot q k) (qz q) = rd_bytes m (ring_slot q k) (qz q)"
    "\<And>ob i. \<not> in_range d (unat n * qz q) ob i \<Longrightarrow> \<not> in_range (qrp q) 8 ob i \<Longrightarrow> m' ob i = m ob i"
proof -
  note ptrs = mq_wf_ptrs [OF wf] and seps = mq_wf_sep [OF wf]
  have al': "unat (load64 m (qrp q)) = r * qz q" using al by (simp add: rdc_def)
  have used: "unat (load64 m (qwp q) - load64 m (qrp q)) = wrc q m - rdc q m"
    using rng(1) by (simp add: wrc_def rdc_def word_le_nat_alt unat_sub_le)
  have nS: "unat n * qz q \<le> qS q" using n rng(2) by simp
  then have nb: "unat (n * sizeofT q) = unat n * qz q"
    using qS_less [of q] by (simp add: mult_sizeof_unat)
  have ncap: "unat n \<le> qcap q"
    using nS mq_wf_sizes(4) [OF wf] by (simp add: qcap_def less_eq_div_iff_mult_less_eq)
  have begin_tx: "beginRead q m n = Some (True, ring_tx q (load64 m (qrp q)) n, m)"
    using n rng al by (simp add: beginRead_eq [OF wf] used nb not_less)
  obtain m1 where copy: "copyFrom (sizeofT q) (ring_tx q (load64 m (qrp q)) n) m (Some d) 0 n =
      Some (True, m1)"
    and got: "elems m1 d (qz q) (unat n) =
        map (\<lambda>i. rd_bytes m (ring_slot q (r + i)) (qz q)) [0..<unat n]"
    and slot: "\<And>k. rd_bytes m1 (ring_slot q k) (qz q) = rd_bytes m (ring_slot q k) (qz q)"
    and keep: "\<And>ob i. \<not> in_range d (unat n * qz q) ob i \<Longrightarrow> m1 ob i = m ob i"
    using copyFrom_ring [OF wf whole al' ncap buf, of m] by blast
  note same = buf_change_counters [OF buf keep]
  have commit: "mq_read q m (Some d) n =
      Some (True, store64 m1 (qrp q) (load64 m (qrp q) + n * sizeofT q))"
    using begin_tx copy ptrs used rng
    by (simp add: mq_read_def commitRead_def same word_less_nat_alt flip: qS_def)
  show thesis
    by (rule that [OF commit])
      (simp_all add: seps same slot got keep buf_store_counter [OF buf] slot_store_counter [OF wf whole]
        cell64.load_store_same cell64.load_store_sep cell64.store_out)
qed

end
