(* ===== verification/BoundedFifo.thy ===== *)
theory BoundedFifo
  imports FMQ_Prelude
begin

text \<open>
  The contract of a bounded FIFO channel, as its two ends use it: a batch of messages is
  accepted whole or not at all, a batch is delivered whole or not at all, and messages come out
  in the order they went in. \<open>budget\<close> bounds the messages that may still be accepted
  (the queue's 64-bit counters are finite).
\<close>

datatype 'a fifo_op = Put "'a list" | Get nat

text \<open>Running a sequence of operations: the messages accepted, those delivered, the final state.\<close>

fun fifo_run ::
  "('s \<Rightarrow> 'a list \<Rightarrow> (bool \<times> 's) option) \<Rightarrow> ('s \<Rightarrow> nat \<Rightarrow> ('a list option \<times> 's) option) \<Rightarrow>
   's \<Rightarrow> 'a fifo_op list \<Rightarrow> ('a list \<times> 'a list \<times> 's) option" where
  "fifo_run put get s [] = Some ([], [], s)"
| "fifo_run put get s (Put xs # ops) = do {
     (ok, s') \<leftarrow> put s xs;
     (ins, outs, s'') \<leftarrow> fifo_run put get s' ops;
     Some (if ok then xs @ ins else ins, outs, s'')
   }"
| "fifo_run put get s (Get n # ops) = do {
     (r, s') \<leftarrow> get s n;
     (ins, outs, s'') \<leftarrow> fifo_run put get s' ops;
     Some (ins, (case r of None \<Rightarrow> outs | Some ys \<Rightarrow> ys @ outs), s'')
   }"

text \<open>How many messages the run may want to put.\<close>

fun puts :: "'a fifo_op list \<Rightarrow> nat" where
  "puts [] = 0"
| "puts (Put xs # ops) = length xs + puts ops"
| "puts (Get n # ops) = puts ops"

text \<open>Batches of a size the channel can hold, of messages of its type.\<close>

fun op_valid :: "nat \<Rightarrow> ('a \<Rightarrow> bool) \<Rightarrow> 'a fifo_op \<Rightarrow> bool" where
  "op_valid c ok (Put xs) \<longleftrightarrow> length xs \<le> c \<and> list_all ok xs"
| "op_valid c ok (Get n) \<longleftrightarrow> n \<le> c"

locale bounded_fifo =
  fixes inv :: "'s \<Rightarrow> bool"
    and abs :: "'s \<Rightarrow> 'a list"
    and cap :: "'s \<Rightarrow> nat"
    and budget :: "'s \<Rightarrow> nat"
    and valid :: "'s \<Rightarrow> 'a \<Rightarrow> bool"
    and put :: "'s \<Rightarrow> 'a list \<Rightarrow> (bool \<times> 's) option"
    and get :: "'s \<Rightarrow> nat \<Rightarrow> ('a list option \<times> 's) option"
  assumes put_ok: "inv s \<Longrightarrow> list_all (valid s) xs \<Longrightarrow> length (abs s) + length xs \<le> cap s \<Longrightarrow>
      length xs \<le> budget s \<Longrightarrow>
      \<exists>s'. put s xs = Some (True, s') \<and> inv s' \<and> abs s' = abs s @ xs \<and>
        cap s' = cap s \<and> valid s' = valid s \<and> budget s \<le> budget s' + length xs"
    and put_full: "inv s \<Longrightarrow> list_all (valid s) xs \<Longrightarrow> length xs \<le> cap s \<Longrightarrow>
      cap s < length (abs s) + length xs \<Longrightarrow>
      \<exists>s'. put s xs = Some (False, s') \<and> inv s' \<and> abs s' = abs s \<and>
        cap s' = cap s \<and> valid s' = valid s \<and> budget s' = budget s"
    and get_ok: "inv s \<Longrightarrow> n \<le> length (abs s) \<Longrightarrow>
      \<exists>s'. get s n = Some (Some (take n (abs s)), s') \<and> inv s' \<and> abs s' = drop n (abs s) \<and>
        cap s' = cap s \<and> valid s' = valid s \<and> budget s' = budget s"
    and get_short: "inv s \<Longrightarrow> length (abs s) < n \<Longrightarrow> n \<le> cap s \<Longrightarrow>
      \<exists>s'. get s n = Some (None, s') \<and> inv s' \<and> abs s' = abs s \<and>
        cap s' = cap s \<and> valid s' = valid s \<and> budget s' = budget s"
begin

lemma put_step:
  assumes "inv s" "op_valid (cap s) (valid s) (Put xs)" "length xs \<le> budget s"
  obtains ok s' where "put s xs = Some (ok, s')" "inv s'" "cap s' = cap s" "valid s' = valid s"
    "abs s' = abs s @ (if ok then xs else [])" "budget s \<le> budget s' + length xs"
proof (cases "length (abs s) + length xs \<le> cap s")
  case True
  with assms show thesis using put_ok [of s xs] that by auto
next
  case False
  with assms put_full [of s xs] obtain s' where "put s xs = Some (False, s')" "inv s'"
    "abs s' = abs s" "cap s' = cap s" "valid s' = valid s" "budget s' = budget s" by auto
  then show thesis using that [of False s'] by simp
qed

lemma get_step:
  assumes "inv s" "op_valid (cap s) (valid s) (Get n)"
  obtains r s' where "get s n = Some (r, s')" "inv s'" "cap s' = cap s" "valid s' = valid s"
    "abs s = (case r of None \<Rightarrow> [] | Some ys \<Rightarrow> ys) @ abs s'" "budget s' = budget s"
proof (cases "n \<le> length (abs s)")
  case True
  with assms get_ok [of s n] obtain s' where "get s n = Some (Some (take n (abs s)), s')" "inv s'"
    "abs s' = drop n (abs s)" "cap s' = cap s" "valid s' = valid s" "budget s' = budget s" by auto
  then show thesis using that [of "Some (take n (abs s))" s'] by simp
next
  case False
  with assms get_short [of s n] obtain s' where "get s n = Some (None, s')" "inv s'"
    "abs s' = abs s" "cap s' = cap s" "valid s' = valid s" "budget s' = budget s" by auto
  then show thesis using that [of None s'] by simp
qed

lemma run_in_order:
  assumes "inv s" and "list_all (op_valid (cap s) (valid s)) ops" and "puts ops \<le> budget s"
  shows "\<exists>ins outs s'. fifo_run put get s ops = Some (ins, outs, s') \<and> inv s' \<and>
    abs s @ ins = outs @ abs s'"
  using assms
proof (induction ops arbitrary: s)
  case Nil
  then show ?case by simp
next
  case (Cons op ops)
  show ?case
  proof (cases op)
    case (Put xs)
    with Cons.prems have "op_valid (cap s) (valid s) (Put xs)" "length xs \<le> budget s" by auto
    then obtain ok s' where p: "put s xs = Some (ok, s')" "inv s'" "cap s' = cap s"
      "valid s' = valid s" "abs s' = abs s @ (if ok then xs else [])"
      "budget s \<le> budget s' + length xs" using put_step [OF Cons.prems(1)] by blast
    with Put Cons.prems have "list_all (op_valid (cap s') (valid s')) ops" "puts ops \<le> budget s'"
      by auto
    with Cons.IH [OF p(2)] obtain ins outs s'' where
      "fifo_run put get s' ops = Some (ins, outs, s'')" "inv s''" "abs s' @ ins = outs @ abs s''"
      by blast
    with p Put show ?thesis by auto
  next
    case (Get n)
    with Cons.prems have "op_valid (cap s) (valid s) (Get n)" by auto
    then obtain r s' where g: "get s n = Some (r, s')" "inv s'" "cap s' = cap s"
      "valid s' = valid s" "abs s = (case r of None \<Rightarrow> [] | Some ys \<Rightarrow> ys) @ abs s'"
      "budget s' = budget s" using get_step [OF Cons.prems(1)] by blast
    with Get Cons.prems have "list_all (op_valid (cap s') (valid s')) ops" "puts ops \<le> budget s'"
      by auto
    with Cons.IH [OF g(2)] obtain ins outs s'' where
      "fifo_run put get s' ops = Some (ins, outs, s'')" "inv s''" "abs s' @ ins = outs @ abs s''"
      by blast
    with g Get show ?thesis by (cases r) auto
  qed
qed

end

end
