(* ===== verification/MessageQueueFifo.thy ===== *)
theory MessageQueueFifo
  imports MessageQueueEffects BoundedFifo
begin

text \<open>
  The synchronized queue refines a bounded FIFO of messages: the abstraction function
  \<open>contents\<close>, the invariant of the counters, the refinement of \<open>write\<close> and \<open>read\<close> on their
  success and failure branches, the interface \<open>bounded_fifo\<close> with the client lemma that any
  run of writes and reads delivers the accepted messages in order, and its interpretation on
  the queue.
\<close>

section \<open>Abstraction and invariant\<close>

text \<open>The unread messages, oldest first.\<close>

definition contents :: "MessageQueue \<Rightarrow> mem \<Rightarrow> u8 list list" where
  "contents q m = map (\<lambda>k. rd_bytes m (ring_slot q k) (qz q))
     [rdc q m div qz q ..< wrc q m div qz q]"

definition ring_inv :: "MessageQueue \<Rightarrow> mem \<Rightarrow> bool" where
  "ring_inv q m \<longleftrightarrow> qz q dvd rdc q m \<and> qz q dvd wrc q m \<and>
     rdc q m \<le> wrc q m \<and> wrc q m - rdc q m \<le> qS q"

text \<open>A well-formed queue of the synchronized flavor in a consistent state.\<close>

definition fifo_inv :: "MessageQueue \<Rightarrow> mem \<Rightarrow> bool" where
  "fifo_inv q m \<longleftrightarrow> mq_wf q \<and> mq_whole q \<and> flavor q = kSynchronizedReadWrite \<and> ring_inv q m"

lemma fifo_invD:
  assumes "fifo_inv q m"
  shows "mq_wf q" "mq_whole q" "flavor q = kSynchronizedReadWrite" "ring_inv q m" "0 < qz q"
  using assms by (auto simp: fifo_inv_def mq_wf_sizes)

text \<open>Counters as message numbers.\<close>

lemma ring_inv_numbers:
  assumes "ring_inv q m"
  obtains r w where "rdc q m = r * qz q" "wrc q m = w * qz q"
  using assms unfolding ring_inv_def by (metis dvdE mult.commute)

lemma ring_inv_iff:
  assumes "rdc q m = r * qz q" "wrc q m = w * qz q" "0 < qz q" "mq_whole q"
  shows "ring_inv q m \<longleftrightarrow> r \<le> w \<and> w - r \<le> qcap q"
  using assms by (auto simp: ring_inv_def qS_eq simp flip: diff_mult_distrib)

lemma contents_numbers:
  assumes "rdc q m = r * qz q" "wrc q m = w * qz q" "0 < qz q"
  shows "contents q m = map (\<lambda>k. rd_bytes m (ring_slot q k) (qz q)) [r..<w]"
  using assms by (simp add: contents_def)

lemma length_contents:
  assumes "rdc q m = r * qz q" "wrc q m = w * qz q" "0 < qz q"
  shows "length (contents q m) = w - r"
  by (simp add: contents_numbers [OF assms])

lemma freeBytes_numbers:
  assumes "rdc q m = r * qz q" "wrc q m = w * qz q" "0 < qz q" "mq_whole q"
  shows "freeBytes q m div qz q = qcap q - (w - r)"
  using assms by (simp add: freeBytes_def usedBytes_def qS_eq flip: diff_mult_distrib)

lemma fifo_inv_length_contents: "fifo_inv q m \<Longrightarrow> length (contents q m) \<le> qcap q"
  by (metis fifo_invD(2,4,5) length_contents ring_inv_iff ring_inv_numbers)

lemma mq_write_append:
  assumes inv: "fifo_inv q m" and buf: "user_buf q d (unat n)"
    and room: "length (contents q m) + unat n \<le> qcap q"
    and no_wrap: "wrc q m + unat n * qz q < 2 ^ 64"
  shows "\<exists>m'. mq_write q m (Some d) n = Some (True, m') \<and> fifo_inv q m' \<and>
    contents q m' = contents q m @ elems m d (qz q) (unat n) \<and>
    wrc q m' = wrc q m + unat n * qz q \<and> rdc q m' = rdc q m \<and>
    (\<forall>ob i. \<not> in_range (qring q) (qS q) ob i \<longrightarrow> \<not> in_range (qwp q) 8 ob i \<longrightarrow> m' ob i = m ob i)"
proof -
  note wf = fifo_invD(1) [OF inv] and whole = fifo_invD(2) [OF inv] and z = fifo_invD(5) [OF inv]
  obtain r w where r: "rdc q m = r * qz q" and w: "wrc q m = w * qz q"
    using fifo_invD(4) [OF inv] by (rule ring_inv_numbers)
  have rw: "r \<le> w" "w - r \<le> qcap q"
    using fifo_invD(4) [OF inv] ring_inv_iff [OF r w z whole] by auto
  have fit: "w - r + unat n \<le> qcap q" using room by (simp add: length_contents [OF r w z])
  then have n: "unat n \<le> qcap q" "unat n \<le> freeBytes q m div qz q"
    by (simp_all add: freeBytes_numbers [OF r w z whole])
  obtain m' where m': "mq_write q m (Some d) n = Some (True, m')"
    and wp: "load64 m' (qwp q) = load64 m (qwp q) + n * sizeofT q"
    and rp: "load64 m' (qrp q) = load64 m (qrp q)"
    and new: "map (\<lambda>i. rd_bytes m' (ring_slot q (w + i)) (qz q)) [0..<unat n] =
        elems m d (qz q) (unat n)"
    and old: "\<And>k. (\<And>i. i < unat n \<Longrightarrow> k mod qcap q \<noteq> (w + i) mod qcap q) \<Longrightarrow>
        rd_bytes m' (ring_slot q k) (qz q) = rd_bytes m (ring_slot q k) (qz q)"
    and out: "\<And>ob i. \<not> in_range (qring q) (qS q) ob i \<Longrightarrow> \<not> in_range (qwp q) 8 ob i \<Longrightarrow>
        m' ob i = m ob i"
    using mq_write_effect [OF wf whole w n(1) buf n(2)] by blast
  have "unat (n * sizeofT q) = unat n * qz q"
    using no_wrap by (simp add: mult_sizeof_unat)
  then have w': "wrc q m' = (w + unat n) * qz q"
    using no_wrap w by (simp add: wrc_def wp unat_add_no_wrap add_mult_distrib)
  have r': "rdc q m' = r * qz q" using r by (simp add: rdc_def rp)
  have keep: "rd_bytes m' (ring_slot q k) (qz q) = rd_bytes m (ring_slot q k) (qz q)"
    if "r \<le> k" "k < w" for k
  proof (rule old)
    fix i assume "i < unat n"
    with that fit show "k mod qcap q \<noteq> (w + i) mod qcap q"
      using mod_distinct [of k "w + i" "qcap q"] by fastforce
  qed
  have split: "[r..<w + unat n] = [r..<w] @ map (\<lambda>i. w + i) [0..<unat n]"
    using rw(1) by (auto simp: map_add_upt add.commute upt_add_eq_append [of r w] intro: nth_equalityI)
  have "contents q m' = contents q m @ elems m d (qz q) (unat n)"
    using new keep by (simp add: contents_numbers [OF r' w' z] contents_numbers [OF r w z] split comp_def)
  moreover have "fifo_inv q m'"
    using inv ring_inv_iff [OF r' w' z whole] rw fit by (simp add: fifo_inv_def)
  ultimately show ?thesis using m' out r r' w w' by (auto simp: add_mult_distrib)
qed

text \<open>
  C1. \<open>write\<close> refines the append of a bounded FIFO: in a consistent state with room for the
  messages it succeeds, appends exactly the caller's messages in order, keeps the
  consistency, leaves the read counter alone and changes no byte outside the ring buffer and
  the write counter.
\<close>

theorem write_refines_append:
  assumes inv: "fifo_inv q m" and buf: "user_buf q d (unat n)"
    and room: "length (contents q m) + unat n \<le> qcap q"
    and no_wrap: "wrc q m + unat n * qz q < 2 ^ 64"
  shows "\<exists>m'. mq_write q m (Some d) n = Some (True, m') \<and> fifo_inv q m' \<and>
    contents q m' = contents q m @ elems m d (qz q) (unat n) \<and>
    wrc q m' = wrc q m + unat n * qz q \<and> rdc q m' = rdc q m \<and>
    (\<forall>ob i. \<not> in_range (qring q) (qS q) ob i \<longrightarrow> \<not> in_range (qwp q) 8 ob i \<longrightarrow> m' ob i = m ob i)"
  using assms by (rule mq_write_append)

lemma write_full_fails:
  assumes inv: "fifo_inv q m" and full: "qcap q < length (contents q m) + unat n"
  shows "mq_write q m dat n = Some (False, m)"
proof -
  note whole = fifo_invD(2) [OF inv] and z = fifo_invD(5) [OF inv]
  obtain r w where r: "rdc q m = r * qz q" and w: "wrc q m = w * qz q"
    using fifo_invD(4) [OF inv] by (rule ring_inv_numbers)
  have "w - r \<le> qcap q" using fifo_invD(4) [OF inv] ring_inv_iff [OF r w z whole] by auto
  then have "qcap q - (w - r) < unat n"
    using full unfolding length_contents [OF r w z] by linarith
  then show ?thesis
    using fifo_invD(1,3) [OF inv]
    by (intro mq_write_fails) (auto simp: freeBytes_numbers [OF r w z whole])
qed

lemma mq_read_take:
  assumes inv: "fifo_inv q m" and buf: "user_buf q d (unat n)"
    and enough: "unat n \<le> length (contents q m)"
  shows "\<exists>m'. mq_read q m (Some d) n = Some (True, m') \<and> fifo_inv q m' \<and>
    elems m' d (qz q) (unat n) = take (unat n) (contents q m) \<and>
    contents q m' = drop (unat n) (contents q m) \<and>
    rdc q m' = rdc q m + unat n * qz q \<and> wrc q m' = wrc q m \<and>
    (\<forall>ob i. \<not> in_range d (unat n * qz q) ob i \<longrightarrow> \<not> in_range (qrp q) 8 ob i \<longrightarrow> m' ob i = m ob i)"
proof -
  note wf = fifo_invD(1) [OF inv] and whole = fifo_invD(2) [OF inv] and z = fifo_invD(5) [OF inv]
  obtain r w where r: "rdc q m = r * qz q" and w: "wrc q m = w * qz q"
    using fifo_invD(4) [OF inv] by (rule ring_inv_numbers)
  have rw: "r \<le> w" "w - r \<le> qcap q"
    using fifo_invD(4) [OF inv] ring_inv_iff [OF r w z whole] by auto
  have n: "r + unat n \<le> w" using enough rw by (simp add: length_contents [OF r w z])
  have bytes: "unat n * qz q \<le> wrc q m - rdc q m"
  proof -
    have "unat n \<le> w - r" using n by linarith
    then show ?thesis by (simp add: r w flip: diff_mult_distrib)
  qed
  have wdvd: "qz q dvd wrc q m" and le: "rdc q m \<le> wrc q m" and lim: "wrc q m - rdc q m \<le> qS q"
    using fifo_invD(4) [OF inv] by (simp_all add: ring_inv_def)
  obtain m' where m': "mq_read q m (Some d) n = Some (True, m')"
    and wp: "load64 m' (qwp q) = load64 m (qwp q)"
    and rp: "load64 m' (qrp q) = load64 m (qrp q) + n * sizeofT q"
    and got: "elems m' d (qz q) (unat n) =
        map (\<lambda>i. rd_bytes m (ring_slot q (r + i)) (qz q)) [0..<unat n]"
    and keep: "\<And>k. rd_bytes m' (ring_slot q k) (qz q) = rd_bytes m (ring_slot q k) (qz q)"
    and out: "\<And>ob i. \<not> in_range d (unat n * qz q) ob i \<Longrightarrow> \<not> in_range (qrp q) 8 ob i \<Longrightarrow>
        m' ob i = m ob i"
    using mq_read_effect [OF wf whole r wdvd le lim bytes buf] by blast
  have sum: "r * qz q + unat n * qz q \<le> w * qz q"
    using n by (simp flip: add_mult_distrib)
  have lt: "w * qz q < 2 ^ 64" using w unat64_less by (metis wrc_def)
  have "unat (n * sizeofT q) = unat n * qz q"
    using sum lt by (simp add: mult_sizeof_unat)
  then have r': "rdc q m' = (r + unat n) * qz q"
    using sum lt r by (simp add: rdc_def rp unat_add_no_wrap add_mult_distrib)
  have w': "wrc q m' = w * qz q" using w by (simp add: wrc_def wp)
  have "elems m' d (qz q) (unat n) = take (unat n) (contents q m)"
    using n by (auto simp: got contents_numbers [OF r w z] take_map intro!: nth_equalityI)
  moreover have "contents q m' = drop (unat n) (contents q m)"
    by (simp add: contents_numbers [OF r' w' z] contents_numbers [OF r w z] keep drop_map)
  moreover have "fifo_inv q m'"
    using inv ring_inv_iff [OF r' w' z whole] rw n by (simp add: fifo_inv_def)
  ultimately show ?thesis using m' out r r' w w' by (auto simp: add_mult_distrib)
qed

text \<open>
  C2. \<open>read\<close> refines the removal of a prefix: with enough unread messages it succeeds, puts the
  oldest ones in order into the caller's buffer, removes exactly them, keeps the consistency,
  leaves the write counter alone and changes no byte outside the buffer and the read counter.
\<close>

theorem read_refines_take:
  assumes inv: "fifo_inv q m" and buf: "user_buf q d (unat n)"
    and enough: "unat n \<le> length (contents q m)"
  shows "\<exists>m'. mq_read q m (Some d) n = Some (True, m') \<and> fifo_inv q m' \<and>
    elems m' d (qz q) (unat n) = take (unat n) (contents q m) \<and>
    contents q m' = drop (unat n) (contents q m) \<and>
    rdc q m' = rdc q m + unat n * qz q \<and> wrc q m' = wrc q m \<and>
    (\<forall>ob i. \<not> in_range d (unat n * qz q) ob i \<longrightarrow> \<not> in_range (qrp q) 8 ob i \<longrightarrow> m' ob i = m ob i)"
  using assms by (rule mq_read_take)

lemma read_short_fails:
  assumes inv: "fifo_inv q m" and short: "length (contents q m) < unat n"
    and size: "unat n * qz q < 2 ^ 64"
  shows "mq_read q m dat n = Some (False, m)"
proof -
  note whole = fifo_invD(2) [OF inv] and z = fifo_invD(5) [OF inv]
  obtain r w where r: "rdc q m = r * qz q" and w: "wrc q m = w * qz q"
    using fifo_invD(4) [OF inv] by (rule ring_inv_numbers)
  have rw: "r \<le> w" "w - r \<le> qcap q"
    using fifo_invD(4) [OF inv] ring_inv_iff [OF r w z whole] by auto
  then have "load64 m (qrp q) \<le> load64 m (qwp q)"
    using r w by (simp add: word_le_nat_alt flip: rdc_def wrc_def)
  then have used: "unat (load64 m (qwp q) - load64 m (qrp q)) = (w - r) * qz q"
    using r w by (simp add: unat_sub_le diff_mult_distrib flip: rdc_def wrc_def)
  have "(w - r) * qz q \<le> qS q" using rw by (simp add: qS_eq [OF whole])
  moreover have "(w - r) * qz q < unat (n * sizeofT q)"
    using short size z by (simp add: mult_sizeof_unat length_contents [OF r w z])
  ultimately show ?thesis
    by (simp add: mq_read_def beginRead_eq [OF fifo_invD(1) [OF inv]] used r w)
qed

text \<open>
  C13. A \<open>write\<close> without room for all its messages and a \<open>read\<close> of more than there are fail and change
  nothing: there are no partial transfers. (For \<open>read\<close> the size in bytes must be a \<open>size_t\<close>.)
\<close>

theorem refused_calls_change_nothing:
  assumes "fifo_inv q m"
  shows "(qcap q < length (contents q m) + unat n \<longrightarrow> mq_write q m dat n = Some (False, m)) \<and>
    (length (contents q m) < unat n \<and> unat n * qz q < 2 ^ 64 \<longrightarrow> mq_read q m dat n = Some (False, m))"
  using write_full_fails [OF assms] read_short_fails [OF assms] by simp

text \<open>
  \<open>availableToRead\<close> is the number of unread messages, \<open>availableToWrite\<close> the free
  capacity, and together they make up \<open>getQuantumCount\<close>.
\<close>

theorem available_counts:
  assumes inv: "fifo_inv q m"
  shows "\<exists>a b c. availableToRead q m = Some a \<and> availableToWrite q m = Some b \<and>
    getQuantumCount q = Some c \<and> unat a = length (contents q m) \<and>
    unat b = qcap q - length (contents q m) \<and> unat c = qcap q \<and> unat a + unat b = unat c"
proof -
  note wf = fifo_invD(1) [OF inv] and whole = fifo_invD(2) [OF inv] and z = fifo_invD(5) [OF inv]
  obtain r w where r: "rdc q m = r * qz q" and w: "wrc q m = w * qz q"
    using fifo_invD(4) [OF inv] by (rule ring_inv_numbers)
  have "w - r \<le> qcap q" using fifo_invD(4) [OF inv] ring_inv_iff [OF r w z whole] by auto
  moreover have "usedBytes q m div qz q = w - r"
    using z by (simp add: usedBytes_def r w flip: diff_mult_distrib)
  ultimately show ?thesis
    using availableToRead_eq [OF wf, of m] availableToWrite_eq [OF wf, of m] getQuantumCount_eq [OF wf]
    by (auto simp: freeBytes_numbers [OF r w z whole] length_contents [OF r w z])
qed

section \<open>The queue as a bounded FIFO channel\<close>

text \<open>
  A program that owns one queue object and one buffer: it stores a batch in its buffer and calls
  \<open>write\<close>, or calls \<open>read\<close> and takes the batch from its buffer.
\<close>

record client =
  cq :: MessageQueue
  cbuf :: ptr
  cmem :: mem

definition client_put :: "client \<Rightarrow> u8 list list \<Rightarrow> (bool \<times> client) option" where
  "client_put s xs = do {
     (ok, m') \<leftarrow> mq_write (cq s) (wr_bytes (cmem s) (cbuf s) (concat xs)) (Some (cbuf s))
                  (of_nat (length xs));
     Some (ok, s\<lparr>cmem := m'\<rparr>)
   }"

definition client_get :: "client \<Rightarrow> nat \<Rightarrow> (u8 list list option \<times> client) option" where
  "client_get s n = do {
     (ok, m') \<leftarrow> mq_read (cq s) (cmem s) (Some (cbuf s)) (of_nat n);
     Some (if ok then Some (elems m' (cbuf s) (qz (cq s)) n) else None, s\<lparr>cmem := m'\<rparr>)
   }"

definition client_inv :: "client \<Rightarrow> bool" where
  "client_inv s \<longleftrightarrow> fifo_inv (cq s) (cmem s) \<and> user_buf (cq s) (cbuf s) (qcap (cq s))"

text \<open>Messages that can be accepted before the 64-bit write counter wraps.\<close>

definition client_budget :: "client \<Rightarrow> nat" where
  "client_budget s = (2 ^ 64 - 1 - wrc (cq s) (cmem s)) div qz (cq s)"

definition client_valid :: "client \<Rightarrow> u8 list \<Rightarrow> bool" where
  "client_valid s x \<longleftrightarrow> length x = qz (cq s)"

lemma length_concat_const: "list_all (\<lambda>x. length x = z) xs \<Longrightarrow> length (concat xs) = length xs * z"
  by (induction xs) auto

lemma elems_wr_concat:
  "list_all (\<lambda>x. length x = z) xs \<Longrightarrow> elems (wr_bytes m d (concat xs)) d z (length xs) = xs"
proof (induction xs arbitrary: m d)
  case Nil
  then show ?case by simp
next
  case (Cons x xs)
  have split: "wr_bytes m d (x @ concat xs) = wr_bytes (wr_bytes m d x) (padd d z) (concat xs)"
    using Cons.prems by (auto simp: wr_bytes_def fun_eq_iff nth_append)
  have "rd_bytes (wr_bytes m d (x @ concat xs)) d z = x"
    using Cons.prems take_rd_bytes [of z "length (x @ concat xs)" "wr_bytes m d (x @ concat xs)" d]
    by simp
  moreover have "elems (wr_bytes m d (x @ concat xs)) (padd d z) z (length xs) = xs"
    using Cons by (simp add: split)
  ultimately show ?case
    using elems_append [of "wr_bytes m d (x @ concat xs)" d z 1 "length xs"]
    by (simp add: elems_def)
qed

text \<open>Filling the buffer does not touch the queue.\<close>

lemma fill_buffer:
  assumes inv: "fifo_inv q m" and buf: "user_buf q d n" and len: "length bs \<le> n * qz q"
  shows "fifo_inv q (wr_bytes m d bs)" "contents q (wr_bytes m d bs) = contents q m"
    "wrc q (wr_bytes m d bs) = wrc q m"
proof -
  let ?m = "wr_bytes m d bs"
  have seps: "sep d (length bs) (qring q) (qS q)" "sep d (length bs) (qrp q) 8"
    "sep d (length bs) (qwp q) 8"
    using buf len unfolding user_buf_def by (auto elim!: sep_mono)
  then show w: "wrc q ?m = wrc q m" by (simp add: wrc_def cell64.load_wr_bytes_sep)
  from seps have r: "rdc q ?m = rdc q m" by (simp add: rdc_def cell64.load_wr_bytes_sep)
  show "fifo_inv q ?m" using inv by (simp add: fifo_inv_def ring_inv_def w r)
  have "rd_bytes ?m (ring_slot q k) (qz q) = rd_bytes m (ring_slot q k) (qz q)" for k
  proof (rule rd_bytes_unchanged, rule wr_bytes_out)
    fix i assume "in_range (ring_slot q k) (qz q) (pobj (ring_slot q k)) i"
    then show "\<not> in_range d (length bs) (pobj (ring_slot q k)) i"
      using ring_slot_in_ring [OF fifo_invD(1,2) [OF inv]] seps(1) by (auto dest: in_range_sep)
  qed
  then show "contents q ?m = contents q m" by (simp add: contents_def w r)
qed

lemma div_minus_mult: "(a - n * z) div z = a div z - (n::nat)" if "n * z \<le> a"
proof (cases "z = 0")
  case False
  from that have "a div z = (a - n * z + n * z) div z" by simp
  also have "\<dots> = (a - n * z) div z + n" using False by simp
  finally show ?thesis by simp
qed simp

lemma qcap_of_nat:
  assumes "fifo_inv q m" "n \<le> qcap q"
  shows "unat (of_nat n :: u64) = n" "n * qz q < 2 ^ 64"
proof -
  show lt: "n * qz q < 2 ^ 64" using qcap_bytes [OF assms(2)] qS_less [of q] by linarith
  have "n \<le> n * qz q" using fifo_invD(5) [OF assms(1)] by simp
  then have "n < 2 ^ 64" using lt by (rule le_less_trans)
  then show "unat (of_nat n :: u64) = n" by (simp add: unat_of_nat)
qed

lemma client_put_ok:
  assumes inv: "client_inv s" and val: "list_all (client_valid s) xs"
    and room: "length (contents (cq s) (cmem s)) + length xs \<le> qcap (cq s)"
    and bud: "length xs \<le> client_budget s"
  shows "\<exists>s'. client_put s xs = Some (True, s') \<and> client_inv s' \<and>
    contents (cq s') (cmem s') = contents (cq s) (cmem s) @ xs \<and> qcap (cq s') = qcap (cq s) \<and>
    client_valid s' = client_valid s \<and> client_budget s \<le> client_budget s' + length xs"
proof -
  let ?q = "cq s" and ?n = "length xs" and ?m = "wr_bytes (cmem s) (cbuf s) (concat xs)"
  from inv have i: "fifo_inv ?q (cmem s)" and b: "user_buf ?q (cbuf s) (qcap ?q)"
    by (simp_all add: client_inv_def)
  have val': "list_all (\<lambda>x. length x = qz ?q) xs"
    using val by (simp add: client_valid_def [abs_def])
  have ncap: "?n \<le> qcap ?q" using room by simp
  note n = qcap_of_nat [OF i ncap]
  have len: "length (concat xs) \<le> qcap ?q * qz ?q"
    using ncap by (simp add: length_concat_const [OF val'])
  note fill = fill_buffer [OF i b len]
  have "?n * qz ?q \<le> client_budget s * qz ?q" using bud by simp
  also have "\<dots> \<le> 2 ^ 64 - 1 - wrc ?q (cmem s)" by (simp only: client_budget_def div_times_less_eq_dividend)
  finally have fin: "?n * qz ?q \<le> 2 ^ 64 - 1 - wrc ?q (cmem s)" .
  moreover have "wrc ?q (cmem s) < 2 ^ 64" by (simp only: wrc_def unat64_less)
  ultimately have no_wrap: "wrc ?q ?m + unat (of_nat ?n :: u64) * qz ?q < 2 ^ 64"
    unfolding n(1) fill(3) by linarith
  obtain m' where m': "mq_write ?q ?m (Some (cbuf s)) (of_nat ?n) = Some (True, m')"
    "fifo_inv ?q m'" "contents ?q m' = contents ?q (cmem s) @ xs"
    "wrc ?q m' = wrc ?q (cmem s) + ?n * qz ?q"
    using mq_write_append [OF fill(1), of "cbuf s" "of_nat ?n"] no_wrap room n(1)
      user_buf_mono [OF b ncap] elems_wr_concat [OF val']
    by (auto simp: fill(2,3))
  have "client_budget (s\<lparr>cmem := m'\<rparr>) = client_budget s - ?n"
    unfolding client_budget_def using div_minus_mult [OF fin] m'(4) by (simp add: diff_diff_left)
  with m' b inv show ?thesis
    by (auto simp: client_put_def client_inv_def client_valid_def [abs_def])
qed

lemma client_put_full:
  assumes inv: "client_inv s" and val: "list_all (client_valid s) xs" and ncap: "length xs \<le> qcap (cq s)"
    and full: "qcap (cq s) < length (contents (cq s) (cmem s)) + length xs"
  shows "\<exists>s'. client_put s xs = Some (False, s') \<and> client_inv s' \<and>
    contents (cq s') (cmem s') = contents (cq s) (cmem s) \<and> qcap (cq s') = qcap (cq s) \<and>
    client_valid s' = client_valid s \<and> client_budget s' = client_budget s"
proof -
  let ?q = "cq s" and ?n = "length xs" and ?m = "wr_bytes (cmem s) (cbuf s) (concat xs)"
  from inv have i: "fifo_inv ?q (cmem s)" and b: "user_buf ?q (cbuf s) (qcap ?q)"
    by (simp_all add: client_inv_def)
  have val': "list_all (\<lambda>x. length x = qz ?q) xs"
    using val by (simp add: client_valid_def [abs_def])
  have len: "length (concat xs) \<le> qcap ?q * qz ?q"
    using ncap by (simp add: length_concat_const [OF val'])
  note fill = fill_buffer [OF i b len]
  have "mq_write ?q ?m (Some (cbuf s)) (of_nat ?n) = Some (False, ?m)"
    using full qcap_of_nat(1) [OF i ncap] by (intro write_full_fails fill(1)) (simp add: fill(2))
  with fill b show ?thesis
    by (auto simp: client_put_def client_inv_def client_valid_def [abs_def] client_budget_def)
qed

lemma client_get_ok:
  assumes inv: "client_inv s" and enough: "n \<le> length (contents (cq s) (cmem s))"
  shows "\<exists>s'. client_get s n = Some (Some (take n (contents (cq s) (cmem s))), s') \<and>
    client_inv s' \<and> contents (cq s') (cmem s') = drop n (contents (cq s) (cmem s)) \<and>
    qcap (cq s') = qcap (cq s) \<and> client_valid s' = client_valid s \<and>
    client_budget s' = client_budget s"
proof -
  let ?q = "cq s"
  from inv have i: "fifo_inv ?q (cmem s)" and b: "user_buf ?q (cbuf s) (qcap ?q)"
    by (simp_all add: client_inv_def)
  have ncap: "n \<le> qcap ?q" using enough fifo_inv_length_contents [OF i] by linarith
  note n = qcap_of_nat(1) [OF i ncap]
  obtain m' where "mq_read ?q (cmem s) (Some (cbuf s)) (of_nat n) = Some (True, m')"
    "fifo_inv ?q m'" "elems m' (cbuf s) (qz ?q) n = take n (contents ?q (cmem s))"
    "contents ?q m' = drop n (contents ?q (cmem s))" "wrc ?q m' = wrc ?q (cmem s)"
    using mq_read_take [OF i, of "cbuf s" "of_nat n"] user_buf_mono [OF b ncap] enough
    by (auto simp: n)
  with b show ?thesis
    by (auto simp: client_get_def client_inv_def client_valid_def [abs_def] client_budget_def)
qed

lemma client_get_short:
  assumes inv: "client_inv s" and short: "length (contents (cq s) (cmem s)) < n"
    and ncap: "n \<le> qcap (cq s)"
  shows "\<exists>s'. client_get s n = Some (None, s') \<and> client_inv s' \<and>
    contents (cq s') (cmem s') = contents (cq s) (cmem s) \<and> qcap (cq s') = qcap (cq s) \<and>
    client_valid s' = client_valid s \<and> client_budget s' = client_budget s"
proof -
  from inv have i: "fifo_inv (cq s) (cmem s)" by (simp add: client_inv_def)
  have "mq_read (cq s) (cmem s) (Some (cbuf s)) (of_nat n) = Some (False, cmem s)"
    using short qcap_of_nat [OF i ncap] by (intro read_short_fails i) simp_all
  with inv show ?thesis by (simp add: client_get_def)
qed

interpretation mq: bounded_fifo client_inv "\<lambda>s. contents (cq s) (cmem s)" "\<lambda>s. qcap (cq s)"
  client_budget client_valid client_put client_get
  by unfold_locales
    (simp_all add: client_put_ok client_put_full client_get_ok client_get_short)

text \<open>
  C3. Any sequence of \<open>write\<close> and \<open>read\<close> calls on a synchronized queue, of batches it can hold,
  runs without a crash and delivers the accepted messages in order, without loss or
  duplication: what was in the queue followed by what was accepted is what was delivered
  followed by what is left.
\<close>

theorem queue_run_in_order:
  assumes "client_inv s" and "list_all (op_valid (qcap (cq s)) (client_valid s)) ops"
    and "puts ops \<le> client_budget s"
  shows "\<exists>ins outs s'. fifo_run client_put client_get s ops = Some (ins, outs, s') \<and>
    client_inv s' \<and> contents (cq s) (cmem s) @ ins = outs @ contents (cq s') (cmem s')"
  using assms by (rule mq.run_in_order)

end
