(* ===== verification/MessageQueueUnsync.thy ===== *)
theory MessageQueueUnsync
  imports MessageQueueEffects
begin

text \<open>
  The unsynchronized flavor: one writer that never waits, any number of readers with private
  read counters. Its specification is a log of every message written; the ring holds the last
  \<open>qcap\<close> of them, and a reader that lags behind further than that is told so and restarts at
  the writer's position.
\<close>

section \<open>The log\<close>

text \<open>
  The write counter is the length of the log, and the ring holds its last \<open>qcap\<close> messages.
  The read counter does not occur: the log is shared by all readers.
\<close>

definition log_inv :: "MessageQueue \<Rightarrow> mem \<Rightarrow> u8 list list \<Rightarrow> bool" where
  "log_inv q m h \<longleftrightarrow> mq_wf q \<and> mq_whole q \<and> flavor q = kUnsynchronizedWrite \<and>
     wrc q m = length h * qz q \<and>
     (\<forall>k < length h. length h \<le> k + qcap q \<longrightarrow> rd_bytes m (ring_slot q k) (qz q) = h ! k)"

lemma log_invD:
  assumes "log_inv q m h"
  shows "mq_wf q" "mq_whole q" "flavor q = kUnsynchronizedWrite" "wrc q m = length h * qz q" "0 < qz q"
    "\<And>k. k < length h \<Longrightarrow> length h \<le> k + qcap q \<Longrightarrow> rd_bytes m (ring_slot q k) (qz q) = h ! k"
  using assms by (auto simp: log_inv_def mq_wf_sizes)

text \<open>
  C7. A write of the unsynchronized flavor of at most the capacity always succeeds, whatever
  the read counter is, and appends the caller's messages to the log; the read counter
  stays as it was.
\<close>

theorem unsync_write_appends:
  assumes inv: "log_inv q m h" and buf: "user_buf q d (unat n)" and n: "unat n \<le> qcap q"
    and no_wrap: "wrc q m + unat n * qz q < 2 ^ 64"
  shows "\<exists>m'. mq_write q m (Some d) n = Some (True, m') \<and>
    log_inv q m' (h @ elems m d (qz q) (unat n)) \<and> rdc q m' = rdc q m"
proof -
  note wf = log_invD(1) [OF inv] and whole = log_invD(2) [OF inv] and w = log_invD(4) [OF inv]
  let ?w = "length h" and ?new = "elems m d (qz q) (unat n)"
  have space: "flavor q = kSynchronizedReadWrite \<Longrightarrow> unat n \<le> freeBytes q m div qz q"
    using log_invD(3) [OF inv] by simp
  obtain m' where m': "mq_write q m (Some d) n = Some (True, m')"
    and wp: "load64 m' (qwp q) = load64 m (qwp q) + n * sizeofT q"
    and rp: "load64 m' (qrp q) = load64 m (qrp q)"
    and new: "map (\<lambda>i. rd_bytes m' (ring_slot q (?w + i)) (qz q)) [0..<unat n] = ?new"
    and old: "\<And>k. (\<And>i. i < unat n \<Longrightarrow> k mod qcap q \<noteq> (?w + i) mod qcap q) \<Longrightarrow>
        rd_bytes m' (ring_slot q k) (qz q) = rd_bytes m (ring_slot q k) (qz q)"
    and "\<And>ob i. \<not> in_range (qring q) (qS q) ob i \<Longrightarrow> \<not> in_range (qwp q) 8 ob i \<Longrightarrow>
        m' ob i = m ob i"
    using mq_write_effect [OF wf whole w n buf space] by blast
  have "unat (n * sizeofT q) = unat n * qz q" using no_wrap by (simp add: mult_sizeof_unat)
  then have w': "wrc q m' = length (h @ ?new) * qz q"
    using no_wrap w by (simp add: wrc_def wp unat_add_no_wrap add_mult_distrib)
  have "rd_bytes m' (ring_slot q k) (qz q) = (h @ ?new) ! k"
    if k: "k < ?w + unat n" "?w + unat n \<le> k + qcap q" for k
  proof (cases "k < ?w")
    case True
    have "rd_bytes m' (ring_slot q k) (qz q) = rd_bytes m (ring_slot q k) (qz q)"
    proof (rule old)
      fix i assume "i < unat n"
      with k True show "k mod qcap q \<noteq> (?w + i) mod qcap q"
        using mod_distinct [of k "?w + i" "qcap q"] by fastforce
    qed
    with True k show ?thesis using log_invD(6) [OF inv, of k] by (simp add: nth_append)
  next
    case False
    define i where "i = k - ?w"
    with False k(1) have i: "k = ?w + i" "i < unat n" by linarith+
    have "rd_bytes m' (ring_slot q (?w + i)) (qz q) = ?new ! i"
      using i(2) by (simp flip: new)
    with i show ?thesis by (simp add: nth_append)
  qed
  with wf whole log_invD(3) [OF inv] w' have "log_inv q m' (h @ ?new)"
    by (simp add: log_inv_def)
  with m' rp show ?thesis by (auto simp: rdc_def)
qed

text \<open>
  C8. A reader that is at most the capacity behind gets exactly the log from its position
  on, and moves on by that much; the log is unchanged.
\<close>

theorem unsync_read_from_log:
  assumes inv: "log_inv q m h" and buf: "user_buf q d (unat n)"
    and r: "rdc q m = r * qz q" and avail: "r + unat n \<le> length h"
    and lag: "length h - r \<le> qcap q"
  shows "\<exists>m'. mq_read q m (Some d) n = Some (True, m') \<and>
    elems m' d (qz q) (unat n) = take (unat n) (drop r h) \<and>
    log_inv q m' h \<and> rdc q m' = (r + unat n) * qz q"
proof -
  note wf = log_invD(1) [OF inv] and whole = log_invD(2) [OF inv] and w = log_invD(4) [OF inv]
    and z = log_invD(5) [OF inv]
  have "unat n \<le> length h - r" using avail by linarith
  then have bytes: "unat n * qz q \<le> wrc q m - rdc q m"
    by (simp add: r w flip: diff_mult_distrib)
  have al: "qz q dvd wrc q m" and le: "rdc q m \<le> wrc q m" using avail by (simp_all add: r w)
  have lim: "wrc q m - rdc q m \<le> qS q"
    using lag by (simp add: r w qS_eq [OF whole] flip: diff_mult_distrib)
  obtain m' where m': "mq_read q m (Some d) n = Some (True, m')"
    and wp: "load64 m' (qwp q) = load64 m (qwp q)"
    and rp: "load64 m' (qrp q) = load64 m (qrp q) + n * sizeofT q"
    and got: "elems m' d (qz q) (unat n) =
        map (\<lambda>i. rd_bytes m (ring_slot q (r + i)) (qz q)) [0..<unat n]"
    and keep: "\<And>k. rd_bytes m' (ring_slot q k) (qz q) = rd_bytes m (ring_slot q k) (qz q)"
    and "\<And>ob i. \<not> in_range d (unat n * qz q) ob i \<Longrightarrow> \<not> in_range (qrp q) 8 ob i \<Longrightarrow>
        m' ob i = m ob i"
    using mq_read_effect [OF wf whole r al le lim bytes buf] by blast
  have sum: "r * qz q + unat n * qz q \<le> length h * qz q"
    using avail by (simp flip: add_mult_distrib)
  have lt: "length h * qz q < 2 ^ 64" using w unat64_less by (metis wrc_def)
  have "unat (n * sizeofT q) = unat n * qz q" using sum lt by (simp add: mult_sizeof_unat)
  then have "rdc q m' = (r + unat n) * qz q"
    using sum lt r by (simp add: rdc_def rp unat_add_no_wrap add_mult_distrib)
  moreover have "elems m' d (qz q) (unat n) = take (unat n) (drop r h)"
  proof (rule nth_equalityI)
    show "length (elems m' d (qz q) (unat n)) = length (take (unat n) (drop r h))"
      using avail by simp
    fix i assume "i < length (elems m' d (qz q) (unat n))"
    then have i: "i < unat n" by simp
    then have "rd_bytes m (ring_slot q (r + i)) (qz q) = h ! (r + i)"
      using avail lag by (intro log_invD(6) [OF inv]) linarith+
    with i avail show "elems m' d (qz q) (unat n) ! i = take (unat n) (drop r h) ! i"
      by (simp add: got)
  qed
  moreover have "log_inv q m' h" using inv by (simp add: log_inv_def wrc_def wp keep)
  ultimately show ?thesis using m' by blast
qed

text \<open>
  C9. A reader that is further behind than the capacity is not given overwritten data:
  \<open>read\<close> fails for every count and buffer and moves the read counter to the write counter, after
  which the queue is empty for this reader; the log is unchanged.
\<close>

theorem unsync_overrun_detected:
  assumes inv: "log_inv q m h" and r: "rdc q m = r * qz q" "r \<le> length h"
    and lag: "qcap q < length h - r"
  shows "\<exists>m'. mq_read q m dat n = Some (False, m') \<and> rdc q m' = wrc q m' \<and>
    availableToRead q m' = Some 0 \<and> log_inv q m' h"
proof -
  note wf = log_invD(1) [OF inv] and whole = log_invD(2) [OF inv] and w = log_invD(4) [OF inv]
    and z = log_invD(5) [OF inv]
  let ?m = "store64 m (qrp q) (load64 m (qwp q))"
  have "r * qz q \<le> length h * qz q" using r(2) by simp
  then have "load64 m (qrp q) \<le> load64 m (qwp q)"
    using r(1) w by (simp add: word_le_nat_alt flip: rdc_def wrc_def)
  then have used: "unat (load64 m (qwp q) - load64 m (qrp q)) = (length h - r) * qz q"
    using r w by (simp add: unat_sub_le diff_mult_distrib flip: rdc_def wrc_def)
  have over: "qS q < (length h - r) * qz q" using lag z by (simp add: qS_eq [OF whole])
  have read: "mq_read q m dat n = Some (False, ?m)"
    using over by (simp add: mq_read_def beginRead_eq [OF wf] used r w)
  have wp: "load64 ?m (qwp q) = load64 m (qwp q)" and rp: "load64 ?m (qrp q) = load64 m (qwp q)"
    using mq_wf_sep [OF wf] by (simp_all add: cell64.load_store_same cell64.load_store_sep)
  have slots: "rd_bytes ?m (ring_slot q k) (qz q) = rd_bytes m (ring_slot q k) (qz q)" for k
    using mq_wf_sep(1) [OF wf]
    by (intro rd_bytes_unchanged cell64.store_out)
      (auto dest!: ring_slot_in_ring [OF wf whole] dest: in_range_sep)
  have "log_inv q ?m h" using inv by (simp add: log_inv_def wrc_def wp slots)
  moreover have "rdc q ?m = wrc q ?m" by (simp add: rdc_def wrc_def wp rp)
  moreover have "availableToRead q ?m = Some 0"
    using mq_wf_ptrs [OF wf] mq_wf_sizes [OF wf]
    by (simp add: availableToRead_def availableToReadBytes_def wp rp)
  ultimately show ?thesis using read by blast
qed

text \<open>
  C10. \<open>commitRead\<close> looks again: when the writer has overrun the reader since \<open>beginRead\<close>, it
  fails and resynchronizes the read counter; it reports success only while every message
  from the read position on is still in the ring.
\<close>

theorem commitRead_detects_overrun:
  assumes inv: "log_inv q m h" and r: "rdc q m = r * qz q" "r \<le> length h"
  shows "\<exists>ok m'. commitRead q m n = Some (ok, m') \<and> ok = (length h - r \<le> qcap q) \<and>
    (if ok then load64 m' (qrp q) = load64 m (qrp q) + n * sizeofT q
     else rdc q m' = wrc q m')"
proof -
  note wf = log_invD(1) [OF inv] and whole = log_invD(2) [OF inv] and w = log_invD(4) [OF inv]
    and z = log_invD(5) [OF inv]
  have "r * qz q \<le> length h * qz q" using r(2) by simp
  then have "load64 m (qrp q) \<le> load64 m (qwp q)"
    using r(1) w by (simp add: word_le_nat_alt flip: rdc_def wrc_def)
  then have used: "unat (load64 m (qwp q) - load64 m (qrp q)) = (length h - r) * qz q"
    using r w by (simp add: unat_sub_le diff_mult_distrib flip: rdc_def wrc_def)
  have "getSize (qdesc q) < load64 m (qwp q) - load64 m (qrp q) \<longleftrightarrow> \<not> length h - r \<le> qcap q"
    using z by (simp add: word_less_nat_alt used qS_eq [OF whole] not_le flip: qS_def)
  then show ?thesis
    using mq_wf_ptrs [OF wf] mq_wf_sep [OF wf]
    by (auto simp: commitRead_def rdc_def wrc_def cell64.load_store_same cell64.load_store_sep)
qed

end
