(* ===== verification/QueueExamples.thy ===== *)
theory QueueExamples
  imports MessageQueueFifo MessageQueueUnsync
begin

text \<open>
  Concrete queues for the witnesses of the queue properties: three slots of two bytes each,
  laid out as the library does in one shared file (read counter, write counter, ring
  buffer), and a caller's buffer. Both counters have been around the ring before.
\<close>

definition ex_grantors :: "GrantorDescriptor list" where
  "ex_grantors = [\<lparr>flags = 0, fdIndex = 0, offset = 0, extent = 8\<rparr>,
     \<lparr>flags = 0, fdIndex = 0, offset = 8, extent = 8\<rparr>,
     \<lparr>flags = 0, fdIndex = 0, offset = 16, extent = 6\<rparr>]"

definition ex_desc :: MQDescriptor where
  "ex_desc = \<lparr>mGrantors = ex_grantors,
     mHandle = Some \<lparr>numFds = 1, numInts = 0, data = [5]\<rparr>, mQuantum = 2, mFlags = 1\<rparr>"

definition ex_q :: "MQFlavor \<Rightarrow> MessageQueue" where
  "ex_q fl = \<lparr>sizeofT = 2, flavor = fl, mDesc = Some ex_desc, mRing = Some (Ptr (Shm 0) 16),
     mReadPtr = Some (Ptr (Shm 0) 0), mWritePtr = Some (Ptr (Shm 0) 8), mEvFlagWord = None,
     mEventFlag = None\<rparr>"

definition ex_buf :: ptr where "ex_buf = Ptr (Heap 0) 0"

text \<open>The memory for given counters; the slots hold the messages 1 2, 3 4 and 5 6.\<close>

definition ex_mem :: "u8 \<Rightarrow> u8 \<Rightarrow> mem" where
  "ex_mem r w = wr_bytes (wr_bytes (\<lambda>_ _. 0) (Ptr (Shm 0) 0)
       ([r, 0, 0, 0, 0, 0, 0, 0] @ [w, 0, 0, 0, 0, 0, 0, 0] @ [1, 2, 3, 4, 5, 6]))
     ex_buf [7, 8, 9, 10, 11, 12]"

lemma ex_parts [simp]:
  "qdesc (ex_q fl) = ex_desc" "getSize ex_desc = 6" "getQuantum ex_desc = 2"
  "qring (ex_q fl) = Ptr (Shm 0) 16" "qrp (ex_q fl) = Ptr (Shm 0) 0" "qwp (ex_q fl) = Ptr (Shm 0) 8"
  "sizeofT (ex_q fl) = 2" "flavor (ex_q fl) = fl" "qz (ex_q fl) = 2" "qS (ex_q fl) = 6"
  "qcap (ex_q fl) = 3"
  by (simp_all add: ex_q_def ex_desc_def ex_grantors_def getSize_def getQuantum_def qdesc_def
      qring_def qrp_def qwp_def qz_def qS_def qcap_def)

lemma ex_wf: "mq_wf (ex_q fl)" "mq_whole (ex_q fl)"
  by (simp_all add: mq_wf_def mq_whole_def isValid_def sep_def) (simp_all add: ex_q_def)

lemma ex_counters:
  "rdc (ex_q fl) (ex_mem r w) = unat r" "wrc (ex_q fl) (ex_mem r w) = unat w"
proof -
  have "rd_bytes (ex_mem r w) (Ptr (Shm 0) 0) 8 = [r, 0, 0, 0, 0, 0, 0, 0]"
    "rd_bytes (ex_mem r w) (Ptr (Shm 0) 8) 8 = [w, 0, 0, 0, 0, 0, 0, 0]"
    by (simp_all add: rd_bytes_def ex_mem_def wr_bytes_def ex_buf_def upt_rec)
  moreover have "unat b < 2 ^ 64" for b :: u8
    using unsigned_less [of b] by (rule less_le_trans) simp
  ultimately show "rdc (ex_q fl) (ex_mem r w) = unat r" "wrc (ex_q fl) (ex_mem r w) = unat w"
    by (simp_all add: rdc_def wrc_def load64_def unsigned_ucast_eq take_bit_nat_eq_self)
qed

lemma ex_loads: "load64 (ex_mem 6 10) (Ptr (Shm 0) 8) = 10"
  "load64 (ex_mem 6 10) (Ptr (Shm 0) 0) = 6"
  using u64_eq_of_nat [of "load64 (ex_mem 6 10) (Ptr (Shm 0) 8)" 10]
    u64_eq_of_nat [of "load64 (ex_mem 6 10) (Ptr (Shm 0) 0)" 6]
    ex_counters [of kSynchronizedReadWrite 6 10]
  by (simp_all add: rdc_def wrc_def)

lemma ex_user_buf: "n \<le> 3 \<Longrightarrow> user_buf (ex_q fl) ex_buf n"
  by (simp add: user_buf_def sep_def ex_buf_def)

lemma ex_fifo:
  assumes "even (unat r)" "even (unat w)" "unat r \<le> unat w" "unat w - unat r \<le> 6"
  shows "fifo_inv (ex_q kSynchronizedReadWrite) (ex_mem r w)"
  using assms by (simp add: fifo_inv_def ring_inv_def ex_wf ex_counters)

lemma ex_ring: "rd_bytes (ex_mem r w) (Ptr (Shm 0) 16) 2 = [1, 2]"
  "rd_bytes (ex_mem r w) (Ptr (Shm 0) 18) 2 = [3, 4]"
  "rd_bytes (ex_mem r w) (Ptr (Shm 0) 20) 2 = [5, 6]"
  by (simp_all add: rd_bytes_def ex_mem_def wr_bytes_def ex_buf_def upt_rec)

lemma ex_buf_elems: "elems (ex_mem r w) ex_buf 2 2 = [[7, 8], [9, 10]]"
  "elems (ex_mem r w) ex_buf 2 (Suc 0) = [[7, 8]]"
  by (simp_all add: elems_def rd_bytes_def ex_mem_def wr_bytes_def ex_buf_def padd_def upt_rec)

text \<open>After five writes and three reads: messages 3 and 4 are unread, in slots 0 and 1.\<close>

abbreviation ex_sync :: MessageQueue where "ex_sync \<equiv> ex_q kSynchronizedReadWrite"
abbreviation ex_unsync :: MessageQueue where "ex_unsync \<equiv> ex_q kUnsynchronizedWrite"

lemma ex_contents: "contents ex_sync (ex_mem 6 10) = [[1, 2], [3, 4]]"
  by (simp add: contents_def ex_counters upt_rec ring_slot_def padd_def ex_ring)

lemma ex_fifo_6_10: "fifo_inv ex_sync (ex_mem 6 10)"
  by (rule ex_fifo) simp_all

section \<open>The synchronized queue\<close>

theorem write_refines_append_witness:
  "\<exists>m'. mq_write ex_sync (ex_mem 6 10) (Some ex_buf) 1 = Some (True, m') \<and>
    contents ex_sync m' = [[1, 2], [3, 4], [7, 8]] \<and> wrc ex_sync m' = 12"
  using write_refines_append [OF ex_fifo_6_10 ex_user_buf, of 1]
  by (auto simp: ex_contents ex_counters ex_buf_elems)

theorem write_full_fails_witness:
  "mq_write ex_sync (ex_mem 6 10) (Some ex_buf) 2 = Some (False, ex_mem 6 10)"
  by (rule write_full_fails [OF ex_fifo_6_10]) (simp add: ex_contents)

theorem read_refines_take_witness:
  "\<exists>m'. mq_read ex_sync (ex_mem 6 10) (Some ex_buf) 2 = Some (True, m') \<and>
    elems m' ex_buf 2 2 = [[1, 2], [3, 4]] \<and> contents ex_sync m' = []"
  using read_refines_take [OF ex_fifo_6_10 ex_user_buf, of 2] by (auto simp: ex_contents)

theorem read_short_fails_witness:
  "mq_read ex_sync (ex_mem 6 10) (Some ex_buf) 3 = Some (False, ex_mem 6 10)"
  by (rule read_short_fails [OF ex_fifo_6_10]) (simp_all add: ex_contents)

theorem refused_calls_change_nothing_witness:
  "mq_write ex_sync (ex_mem 6 10) None 2 = Some (False, ex_mem 6 10) \<and>
    mq_read ex_sync (ex_mem 6 10) None 3 = Some (False, ex_mem 6 10)"
  using refused_calls_change_nothing [OF ex_fifo_6_10, of 2 None]
    refused_calls_change_nothing [OF ex_fifo_6_10, of 3 None]
  by (simp add: ex_contents)

theorem available_counts_witness:
  "\<exists>a b. availableToRead ex_sync (ex_mem 6 10) = Some a \<and>
    availableToWrite ex_sync (ex_mem 6 10) = Some b \<and> unat a = 2 \<and> unat b = 1"
  using available_counts [OF ex_fifo_6_10] by (auto simp: ex_contents)

definition ex_client :: client where
  "ex_client = \<lparr>cq = ex_sync, cbuf = ex_buf, cmem = ex_mem 6 10\<rparr>"

theorem queue_run_in_order_witness:
  "\<exists>ins outs s'. fifo_run client_put client_get ex_client
      [Put [[20, 21]], Put [[22, 23]], Get 2, Put [[24, 25], [26, 27]], Get 3] = Some (ins, outs, s') \<and>
    [[1, 2], [3, 4]] @ ins = outs @ contents (cq s') (cmem s')"
  using queue_run_in_order [of ex_client
      "[Put [[20, 21]], Put [[22, 23]], Get 2, Put [[24, 25], [26, 27]], Get 3]"]
    ex_fifo_6_10 ex_user_buf [of 3]
  by (auto simp: ex_client_def client_inv_def client_valid_def client_budget_def ex_contents ex_counters)

theorem beginWrite_memory_safe_witness:
  "\<exists>tx. beginWrite ex_sync (ex_mem 6 10) 1 emptyMemTransaction = Some (True, tx) \<and>
    tx_inside ex_sync tx \<and> unat (len (first tx)) + unat (len (second tx)) = 1"
proof -
  have "beginWrite ex_sync (ex_mem 6 10) 1 emptyMemTransaction =
      Some (True, ring_tx ex_sync (load64 (ex_mem 6 10) (Ptr (Shm 0) 8)) 1)"
    by (simp add: beginWrite_eq ex_wf freeBytes_def usedBytes_def ex_counters)
  with beginWrite_memory_safe [OF ex_wf(1) this] show ?thesis by auto
qed

theorem beginRead_memory_safe_witness:
  "\<exists>tx. beginRead ex_sync (ex_mem 6 10) 2 = Some (True, tx, ex_mem 6 10) \<and>
    tx_inside ex_sync tx \<and> unat (len (first tx)) + unat (len (second tx)) = 2"
proof -
  have "beginRead ex_sync (ex_mem 6 10) 2 = Some (True, ring_tx ex_sync 6 2, ex_mem 6 10)"
    by (simp add: beginRead_eq ex_wf ex_counters ex_loads)
  with beginRead_memory_safe [OF ex_wf(1) _ this] show ?thesis by auto
qed

section \<open>Transactions\<close>

text \<open>A transaction that wraps around: the last slot, then the first.\<close>

definition ex_tx :: MemTransaction where
  "ex_tx = \<lparr>first = \<lparr>address = Some (Ptr (Shm 0) 20), len = 1\<rparr>,
     second = \<lparr>address = Some (Ptr (Shm 0) 16), len = 2\<rparr>\<rparr>"

lemma ex_tx_facts: "tx_fits 2 ex_tx 0 2" "tx_disjoint 2 ex_tx" "tx_buffer 2 ex_tx ex_buf 2"
  "tx_wf 2 ex_tx"
  by (simp_all add: tx_fits_def tx_wf_def region_wf_def tx_disjoint_def tx_buffer_def base_def
      sep_def ex_tx_def ex_buf_def)

lemma ex_tx_slots: "tx_slots 2 ex_tx 0 2 = [Ptr (Shm 0) 20, Ptr (Shm 0) 16]"
  by (simp add: tx_slots_def tx_ptrs_def region_ptrs_def base_def ex_tx_def upt_rec padd_def)

theorem getSlot_in_range_witness: "getSlot 2 ex_tx 1 = Some (Ptr (Shm 0) 16)"
  using getSlot_in_range [OF ex_tx_facts(4), of 1]
  by (simp add: ex_tx_def tx_ptrs_def region_ptrs_def base_def padd_def)

theorem copyTo_slots_witness:
  "\<exists>m'. copyTo 2 ex_tx (ex_mem 6 10) (Some ex_buf) 0 2 = Some (True, m') \<and>
    rd_bytes m' (Ptr (Shm 0) 20) 2 = [7, 8] \<and> rd_bytes m' (Ptr (Shm 0) 16) 2 = [9, 10]"
  using copyTo_slots [OF ex_tx_facts(1,2,3), of "ex_mem 6 10"]
  by (auto simp: ex_tx_slots ex_buf_elems)

theorem copyFrom_slots_witness:
  "\<exists>m'. copyFrom 2 ex_tx (ex_mem 6 10) (Some ex_buf) 0 2 = Some (True, m') \<and>
    elems m' ex_buf 2 2 = [[5, 6], [1, 2]]"
  using copyFrom_slots [OF ex_tx_facts(1,3), of "ex_mem 6 10"]
  by (auto simp: ex_tx_slots ex_ring)

section \<open>The unsynchronized queue\<close>

text \<open>Five messages were written, so the ring holds the last three: 5 6, 1 2 and 3 4.\<close>

definition ex_log :: "u8 list list" where
  "ex_log = [[100, 101], [102, 103], [5, 6], [1, 2], [3, 4]]"

lemma ex_log_inv: "log_inv ex_unsync (ex_mem r 10) ex_log"
proof -
  have "rd_bytes (ex_mem r 10) (ring_slot ex_unsync k) 2 = ex_log ! k" if "k < 5" "5 \<le> k + 3" for k
  proof -
    from that have "k = 2 \<or> k = 3 \<or> k = 4" by auto
    then show ?thesis by (auto simp: ring_slot_def padd_def ex_ring ex_log_def)
  qed
  then show ?thesis by (simp add: log_inv_def ex_wf ex_counters ex_log_def)
qed

theorem unsync_write_appends_witness:
  "\<exists>m'. mq_write ex_unsync (ex_mem 2 10) (Some ex_buf) 2 = Some (True, m') \<and>
    log_inv ex_unsync m' (ex_log @ [[7, 8], [9, 10]]) \<and> rdc ex_unsync m' = 2"
  using unsync_write_appends [OF ex_log_inv ex_user_buf, of 2 2]
  by (auto simp: ex_counters ex_buf_elems)

theorem unsync_read_from_log_witness:
  "\<exists>m'. mq_read ex_unsync (ex_mem 4 10) (Some ex_buf) 2 = Some (True, m') \<and>
    elems m' ex_buf 2 2 = [[5, 6], [1, 2]] \<and> rdc ex_unsync m' = 8"
  using unsync_read_from_log [OF ex_log_inv ex_user_buf, of 2 4 2]
  by (auto simp: ex_counters ex_log_def)

theorem unsync_overrun_detected_witness:
  "\<exists>m'. mq_read ex_unsync (ex_mem 2 10) (Some ex_buf) 1 = Some (False, m') \<and>
    rdc ex_unsync m' = wrc ex_unsync m'"
  using unsync_overrun_detected [OF ex_log_inv [of 2], of 1 "Some ex_buf" 1]
  by (auto simp: ex_counters ex_log_def)

theorem commitRead_detects_overrun_witness:
  "\<exists>m'. commitRead ex_unsync (ex_mem 2 10) 1 = Some (False, m') \<and>
    rdc ex_unsync m' = wrc ex_unsync m'"
  using commitRead_detects_overrun [OF ex_log_inv [of 2], of 1 1]
  by (auto simp: ex_counters ex_log_def)

end
