(* ===== verification/EventFlagProps.thy ===== *)
theory EventFlagProps
  imports EventFlag
begin

text \<open>
  What \<open>wake\<close> and \<open>wait\<close> of an event flag promise, for every behaviour of the kernel, the clocks
  and the other threads: a wait takes the bits it reports in one atomic step and no others, a
  wait that fails takes none, and a wait with \<open>retry\<close> and a time limit returns.
\<close>

section \<open>Bits\<close>

lemma and_not_id: "x AND b = 0 \<Longrightarrow> x AND NOT b = (x :: u32)"
  by (auto simp: bit_eq_iff bit_simps)

lemma store32_and_not: "load32 m p AND b = 0 \<Longrightarrow> store32 m p (load32 m p AND NOT b) = m"
  by (simp add: and_not_id store32_load32)

section \<open>Waiting\<close>

text \<open>\<open>errno\<close> is never 0 after a failed call.\<close>

definition errno_nonzero :: "os \<Rightarrow> bool" where
  "errno_nonzero os \<longleftrightarrow> (\<forall>h m p v t b. os_futexWait os h m p v t b \<noteq> Some 0)"

text \<open>
  The contract of a wait on \<open>bitmask\<close> from \<open>w\<close> to \<open>w'\<close> with the status \<open>st\<close> and the reported bits
  \<open>s\<close>: the other threads lead from \<open>w\<close> to some \<open>w0\<close>; there a successful wait finds the bits \<open>s\<close> and
  clears them in one step, and a failed wait changes nothing and reports nothing.
\<close>

definition took :: "os \<Rightarrow> ptr \<Rightarrow> u32 \<Rightarrow> world \<Rightarrow> status_t \<Rightarrow> u32 \<Rightarrow> world \<Rightarrow> bool" where
  "took os p bitmask w st s w' \<longleftrightarrow> (\<exists>w0. only_others os w w0 \<and> hist w' = hist w0 \<and>
     (if st = NO_ERROR
      then s \<noteq> 0 \<and> s = load32 (wmem w0) p AND bitmask \<and>
           wmem w' = store32 (wmem w0) p (load32 (wmem w0) p AND NOT bitmask)
      else s = 0 \<and> wmem w' = wmem w0))"

lemma took_fails: "only_others os w w' \<Longrightarrow> st \<noteq> 0 \<Longrightarrow> took os p b w st 0 w'"
  unfolding took_def by auto

lemma took_after: "only_others os w w1 \<Longrightarrow> took os p b w1 st s w' \<Longrightarrow> took os p b w st s w'"
  unfolding took_def by (blast intro: only_others_trans)

lemma took_only_others: "took os p b w st s w' \<Longrightarrow> st \<noteq> 0 \<Longrightarrow> only_others os w w'"
  unfolding took_def only_others_def by auto

lemma took_hist: "took os p b w st s w' \<Longrightarrow> \<exists>es. hist w' = es @ hist w"
  unfolding took_def by (auto dest: only_others_hist)

lemma futexWaitFor_others:
  assumes "futexWaitFor os p v b t w = (ret, w')"
  shows "only_others os w w' \<and> (\<exists>h m ts. ret = os_futexWait os h m p v ts b)"
  using assms
  by (auto simp: futexWaitFor_def addNanosecondsToCurrentTime_def sys_futexWait_def Let_def
      split: if_splits intro: only_others_trans [OF only_others_ran])

lemma waitHelper_took:
  assumes p: "mEfWordPtr ef = Some p" and b: "bitmask \<noteq> 0" and e: "errno_nonzero os"
  shows "\<exists>st s w'. waitHelper os ef bitmask (Some e0) t w = Some (st, Some s, w') \<and>
    took os p bitmask w st s w'"
proof (cases "load32 (wmem w) p AND bitmask = 0")
  case False
  then show ?thesis
    using p b unfolding waitHelper_def atomic_fetch_and_def took_def
    by (simp add: Let_def) (rule exI [of _ w], simp)
next
  case True
  obtain ret w3 where call:
    "futexWaitFor os p (load32 (wmem w) p AND NOT bitmask) bitmask t w = (ret, w3)" by fastforce
  have oth: "only_others os w w3" and nz: "ret \<noteq> Some 0"
    using futexWaitFor_others [OF call] e
    by (auto simp: errno_nonzero_def)
  have eq: "waitHelper os ef bitmask (Some e0) t w =
      (case ret of Some e \<Rightarrow> Some (- e, Some 0, w3)
       | None \<Rightarrow> (let s = load32 (wmem w3) p AND bitmask
                  in Some (if s = 0 then - EINTR else NO_ERROR, Some s,
                       w3\<lparr>wmem := store32 (wmem w3) p (load32 (wmem w3) p AND NOT bitmask)\<rparr>)))"
    using p b True call
    by (simp add: waitHelper_def atomic_fetch_and_def Let_def store32_and_not split: option.splits)
  show ?thesis
  proof (cases ret)
    case (Some e)
    with eq oth nz show ?thesis by (auto intro: took_fails)
  next
    case None
    show ?thesis
    proof (cases "load32 (wmem w3) p AND bitmask = 0")
      case True
      with None eq oth show ?thesis by (auto simp: store32_and_not intro: took_fails)
    next
      case False
      with None eq oth show ?thesis by (auto simp: took_def)
    qed
  qed
qed

text \<open>One iteration of the loop: read the clock, give up, or wait and go on or stop.\<close>

lemma wait_loop_step:
  assumes p: "mEfWordPtr ef = Some p" and b: "bitmask \<noteq> 0" and e: "errno_nonzero os"
  obtains lft cur w1 st s w2 where
    "only_others os w w1" "lft = (if sto then t - (cur - prev) else t)"
    "(cur, w1) = (if sto then elapsedRealtimeNano os w else (prev, w))"
    "took os p bitmask w1 st s w2"
    "wait_loop (Suc n) os ef bitmask (Some e0) sto t prev w =
      (if sto \<and> lft \<le> 0 then Some (Done (- ETIMEDOUT, Some 0, w1))
       else if st \<noteq> - EAGAIN \<and> st \<noteq> - EINTR then Some (Done (st, Some s, w2))
       else wait_loop n os ef bitmask (Some s) sto lft cur w2)"
proof -
  obtain cur w1 where c: "(if sto then elapsedRealtimeNano os w else (prev, w)) = (cur, w1)"
    by fastforce
  define lft where "lft = (if sto then t - (cur - prev) else t)"
  have oth: "only_others os w w1"
    using c by (auto simp: elapsedRealtimeNano_def Let_def split: if_splits)
  obtain st s w2 where h: "waitHelper os ef bitmask (Some e0) lft w1 = Some (st, Some s, w2)"
    and tk: "took os p bitmask w1 st s w2"
    using waitHelper_took [OF p b e] by blast
  show thesis
    by (rule that [OF oth lft_def c [symmetric] tk]) (simp add: c h Let_def flip: lft_def)
qed

lemma wait_loop_took:
  assumes p: "mEfWordPtr ef = Some p" and b: "bitmask \<noteq> 0" and e: "errno_nonzero os"
  shows "wait_loop n os ef bitmask (Some e0) sto t prev w = Some NoFuel \<or>
    (\<exists>st s w'. wait_loop n os ef bitmask (Some e0) sto t prev w = Some (Done (st, Some s, w')) \<and>
       took os p bitmask w st s w' \<and> st \<noteq> - EAGAIN \<and> st \<noteq> - EINTR)"
proof (induction n arbitrary: e0 t prev w)
  case 0
  then show ?case by simp
next
  case (Suc n)
  obtain lft cur w1 st s w2 where oth: "only_others os w w1"
    and tk: "took os p bitmask w1 st s w2"
    and step: "wait_loop (Suc n) os ef bitmask (Some e0) sto t prev w =
      (if sto \<and> lft \<le> 0 then Some (Done (- ETIMEDOUT, Some 0, w1))
       else if st \<noteq> - EAGAIN \<and> st \<noteq> - EINTR then Some (Done (st, Some s, w2))
       else wait_loop n os ef bitmask (Some s) sto lft cur w2)"
    by (rule wait_loop_step [OF p b e])
  consider "sto \<and> lft \<le> 0" | "\<not> (sto \<and> lft \<le> 0)" "st \<noteq> - EAGAIN \<and> st \<noteq> - EINTR"
    | "\<not> (sto \<and> lft \<le> 0)" "st = - EAGAIN \<or> st = - EINTR" by blast
  then show ?case
  proof cases
    case 1
    then show ?thesis using step took_fails [OF oth, of "- ETIMEDOUT"] by simp
  next
    case 2
    then show ?thesis using step took_after [OF oth tk] by auto
  next
    case 3
    then have oth2: "only_others os w w2"
      using took_only_others [OF tk] only_others_trans [OF oth] by auto
    have "wait_loop (Suc n) os ef bitmask (Some e0) sto t prev w =
        wait_loop n os ef bitmask (Some s) sto lft cur w2"
      using step 3 by auto
    then show ?thesis using Suc.IH [of s lft cur w2] took_after [OF oth2] by metis
  qed
qed

lemma ef_wait_retry_took:
  assumes "mEfWordPtr ef = Some p" and "bitmask \<noteq> 0" and "errno_nonzero os"
  shows "ef_wait n os ef bitmask (Some e0) t True w = Some NoFuel \<or>
    (\<exists>st s w'. ef_wait n os ef bitmask (Some e0) t True w = Some (Done (st, Some s, w')) \<and>
       took os p bitmask w st s w' \<and> st \<noteq> - EAGAIN \<and> st \<noteq> - EINTR)"
proof -
  obtain prev w1 where w1: "(if t \<noteq> 0 then elapsedRealtimeNano os w else (0, w)) = (prev, w1)"
    by fastforce
  have oth: "only_others os w w1"
    using w1 by (auto simp: elapsedRealtimeNano_def Let_def split: if_splits)
  have "ef_wait n os ef bitmask (Some e0) t True w =
      wait_loop n os ef bitmask (Some e0) (t \<noteq> 0) t prev w1"
    using w1 by (simp add: ef_wait_def Let_def)
  then show ?thesis
    using wait_loop_took [OF assms, of n e0 "t \<noteq> 0" t prev w1] took_after [OF oth] by metis
qed

section \<open>Waiting with a time limit ends\<close>

text \<open>Time passes between two readings of the clock.\<close>

definition clock_advances :: "os \<Rightarrow> bool" where
  "clock_advances os \<longleftrightarrow> (\<forall>h es t. t < os_clock os (es @ EvClock t # h))"

lemma wait_loop_ends:
  assumes p: "mEfWordPtr ef = Some p" and b: "bitmask \<noteq> 0" and e: "errno_nonzero os"
    and clk: "clock_advances os"
  shows "nat t < n \<Longrightarrow> hist w = es @ EvClock prev # h \<Longrightarrow>
    wait_loop n os ef bitmask (Some e0) True t prev w \<noteq> Some NoFuel"
proof (induction n arbitrary: e0 t prev w es h)
  case 0
  then show ?case by simp
next
  case (Suc n)
  obtain lft cur w1 st s w2 where lft: "lft = (if True then t - (cur - prev) else t)"
    and c: "(cur, w1) = (if True then elapsedRealtimeNano os w else (prev, w))"
    and tk: "took os p bitmask w1 st s w2"
    and step: "wait_loop (Suc n) os ef bitmask (Some e0) True t prev w =
      (if True \<and> lft \<le> 0 then Some (Done (- ETIMEDOUT, Some 0, w1))
       else if st \<noteq> - EAGAIN \<and> st \<noteq> - EINTR then Some (Done (st, Some s, w2))
       else wait_loop n os ef bitmask (Some s) True lft cur w2)"
    by (rule wait_loop_step [OF p b e])
  have cur: "cur = os_clock os (hist w)" and h1: "hist w1 = EvClock cur # hist w"
    using c by (auto simp: elapsedRealtimeNano_def Let_def)
  have "prev < cur" using clk Suc.prems(2) by (simp add: cur clock_advances_def)
  then have less: "lft < t" using lft by simp
  obtain es2 where h2: "hist w2 = es2 @ EvClock cur # hist w"
    using took_hist [OF tk] h1 by auto
  show ?case
  proof (cases "lft \<le> 0")
    case True
    then show ?thesis using step by simp
  next
    case False
    then have "nat lft < n" using less Suc.prems(1) by linarith
    then show ?thesis using step False Suc.IH [OF _ h2] by simp
  qed
qed

lemma ef_wait_retry_ends:
  assumes "mEfWordPtr ef = Some p" and "bitmask \<noteq> 0" and "errno_nonzero os"
    and "clock_advances os" and "t \<noteq> 0" and "nat t < n"
  shows "ef_wait n os ef bitmask (Some e0) t True w \<noteq> Some NoFuel"
  using wait_loop_ends [OF assms(1-4,6), of _ "[]"] assms(5)
  by (simp add: ef_wait_def Let_def elapsedRealtimeNano_def)

section \<open>The promises of the event flag\<close>

text \<open>
  C18. However the kernel, the clocks and the other threads behave, \<open>wait\<close> takes exactly the
  bits it reports: on success it reports at least one of the bits asked for, and found and
  cleared them in one atomic step; when it fails it reports none and has cleared none, so no
  notification is lost. With \<open>retry\<close> it never returns \<open>-EAGAIN\<close> or \<open>-EINTR\<close>.
\<close>

theorem wait_takes_what_it_reports:
  assumes "mEfWordPtr ef = Some p" and "bitmask \<noteq> 0" and "errno_nonzero os"
    and "ef_wait fuel os ef bitmask (Some e0) t retry w = Some (Done (st, efState, w'))"
  shows "\<exists>s. efState = Some s \<and> took os p bitmask w st s w' \<and>
    (retry \<longrightarrow> st \<noteq> - EAGAIN \<and> st \<noteq> - EINTR)"
proof (cases retry)
  case True
  then show ?thesis using ef_wait_retry_took [OF assms(1-3), of fuel e0 t w] assms(4) by auto
next
  case False
  then show ?thesis using waitHelper_took [OF assms(1-3), of e0 t w] assms(4)
    by (auto simp: ef_wait_def)
qed

text \<open>
  C19. A \<open>wait\<close> with \<open>retry\<close> and a time limit of \<open>t\<close> nanoseconds returns after at most \<open>t\<close> rounds
  when the clock advances, however often it is woken for nothing.
\<close>

theorem wait_with_limit_returns:
  assumes "mEfWordPtr ef = Some p" and "bitmask \<noteq> 0" and "errno_nonzero os"
    and "clock_advances os" and "t \<noteq> 0" and "nat t < fuel"
  shows "\<exists>st s w'. ef_wait fuel os ef bitmask (Some e0) t True w = Some (Done (st, Some s, w'))"
  using ef_wait_retry_took [OF assms(1-3)] ef_wait_retry_ends [OF assms] by metis

text \<open>
  \<open>wake\<close> sets the bits of \<open>bitmask\<close> and no others, and enters the kernel exactly when one
  of them was clear before; the status is the negated error of that call.
\<close>

theorem wake_sets_bits:
  assumes "mEfWordPtr ef = Some p"
  shows "\<exists>st w1. wake os ef bitmask w = Some (st, if load32 (wmem w) p AND bitmask = bitmask then w1
      else ran os (EvFutexWake p bitmask (os_futexWake os (hist w1) (wmem w1) p bitmask)) w1) \<and>
    w1 = w\<lparr>wmem := store32 (wmem w) p (load32 (wmem w) p OR bitmask)\<rparr> \<and>
    st = (if load32 (wmem w) p AND bitmask = bitmask then NO_ERROR
      else (case os_futexWake os (hist w1) (wmem w1) p bitmask of None \<Rightarrow> NO_ERROR | Some e \<Rightarrow> - e))"
proof -
  have "NOT x AND b = 0 \<longleftrightarrow> x AND b = b" for x b :: u32
    by (auto simp: bit_eq_iff bit_simps)
  moreover have "w = w\<lparr>wmem := store32 (wmem w) p (load32 (wmem w) p OR 0)\<rparr>"
    by (simp add: store32_load32)
  ultimately show ?thesis using assms
    by (cases "bitmask = 0")
      (simp_all add: wake_def atomic_fetch_or_def sys_futexWake_def Let_def split: option.splits)
qed

text \<open>
  A wake that comes before the wait is not lost: as long as the other threads leave the
  event flag word alone, a later \<open>wait\<close> without retry for one of the bits returns at once with it, without
  going to sleep.
\<close>

theorem wake_then_wait:
  assumes p: "mEfWordPtr ef = Some p" and w1: "wake os ef bitmask w = Some (st, w1)"
    and alone: "\<And>h m. load32 (os_run os h m) p = load32 m p" and m: "bitmask AND waitMask \<noteq> 0"
  shows "\<exists>s w2. ef_wait fuel os ef waitMask (Some e0) t False w1 = Some (Done (NO_ERROR, Some s, w2)) \<and>
    bitmask AND waitMask AND s = bitmask AND waitMask \<and> hist w2 = hist w1"
proof -
  have "bitmask \<noteq> 0" "waitMask \<noteq> 0" using m by auto
  then have word: "load32 (wmem w1) p = load32 (wmem w) p OR bitmask"
    using w1 p alone
    by (auto simp: wake_def atomic_fetch_or_def sys_futexWake_def Let_def
        cell32.load_store_same split: if_splits)
  then have "bitmask AND waitMask AND (load32 (wmem w1) p AND waitMask) = bitmask AND waitMask"
    by (auto simp: bit_eq_iff bit_simps)
  moreover from this have "load32 (wmem w1) p AND waitMask \<noteq> 0" using m by auto
  moreover have "ef_wait fuel os ef waitMask (Some e0) t False w1 = Some (Done (NO_ERROR,
      Some (load32 (wmem w1) p AND waitMask),
      w1\<lparr>wmem := store32 (wmem w1) p (load32 (wmem w1) p AND NOT waitMask)\<rparr>))"
    using p \<open>waitMask \<noteq> 0\<close> calculation(2)
    by (simp add: ef_wait_def waitHelper_def atomic_fetch_and_def Let_def)
  ultimately show ?thesis by auto
qed

text \<open>
  The absolute time for the kernel is exactly the current time plus the nanoseconds asked
  for, and is normalized when the current time is and the count is not negative.
\<close>

theorem addNanoseconds_exact:
  assumes "0 \<le> nanoSeconds" and "0 \<le> tv_nsec now" and "tv_nsec now < kNanosPerSecond"
  shows "tv_sec (addNanoseconds nanoSeconds now) * kNanosPerSecond +
      tv_nsec (addNanoseconds nanoSeconds now) =
      tv_sec now * kNanosPerSecond + tv_nsec now + nanoSeconds \<and>
    0 \<le> tv_nsec (addNanoseconds nanoSeconds now) \<and>
    tv_nsec (addNanoseconds nanoSeconds now) < kNanosPerSecond"
proof -
  let ?q = "nanoSeconds sdiv kNanosPerSecond" and ?r = "nanoSeconds smod kNanosPerSecond"
  have "0 \<le> ?r" "?r < kNanosPerSecond"
    using assms(1) by (simp_all add: smod_int_compares kNanosPerSecond_def)
  moreover have "nanoSeconds = ?q * kNanosPerSecond + ?r"
    by (simp only: sdiv_mult_smod_eq)
  ultimately show ?thesis
    using assms(2,3) by (simp add: addNanoseconds_def Let_def algebra_simps)
qed

text \<open>
  \<open>createEventFlag\<close> succeeds exactly when it is given a place for the result, a word and
  memory; otherwise it reports why and leaves no object. A created object refers to the word and
  never unmaps it: \<open>deleteEventFlag\<close> succeeds without a system call, and leaves null.
\<close>

theorem create_delete_event_flag:
  "\<exists>st r w'. createEventFlag os fwAddr flagGiven flag w = Some (st, r, w') \<and>
    wmem w' = (if flagGiven then os_run os (hist w') (wmem w) else wmem w) \<and>
    (st = NO_ERROR \<longleftrightarrow> flagGiven \<and> fwAddr \<noteq> None \<and> os_new os (hist w) \<noteq> None) \<and>
    (if st = NO_ERROR
     then (\<exists>ef. r = Some ef \<and> mEfWordPtr ef = fwAddr \<and>
       (\<forall>u. deleteEventFlag os (Some ef) u = Some (NO_ERROR, None, u)))
     else r = (if flagGiven then None else flag) \<and> st \<in> {BAD_VALUE, NO_MEMORY})"
  by (cases flagGiven; cases "os_new os (hist w)"; cases fwAddr)
    (simp_all add: createEventFlag_def EventFlag_init_def EventFlag_destroy_def
      unmapEventFlagWord_def deleteEventFlag_def sys_new_def Let_def)

end
