(* ===== verification/BlockingOps.thy ===== *)
theory BlockingOps
  imports MessageQueueBase EventFlagProps
begin

text \<open>
  Model of \<open>writeBlocking\<close> and \<open>readBlocking\<close> of include/fmq/MessageQueueBase.h. The two methods
  are the same code around an attempt (\<open>write\<close> or \<open>read\<close>) with the roles of the two notification
  masks exchanged, so they are two instances of \<open>blocking_op\<close>. The loops take fuel.
\<close>

section \<open>The operations\<close>

type_synonym attempt = "mem \<Rightarrow> (bool \<times> mem) option"

text \<open>
  The \<open>while\<close> loop: with a time limit the remaining time is computed first and, when it is used
  up, the attempt is made once more; otherwise wait for the notification and try again. The
  result is \<open>result\<close> at the end of the loop.
\<close>

fun blocking_loop ::
  "nat \<Rightarrow> os \<Rightarrow> attempt \<Rightarrow> EventFlag \<Rightarrow> u32 \<Rightarrow> bool \<Rightarrow> int \<Rightarrow> int \<Rightarrow> world \<Rightarrow>
   (bool \<times> world) fuelled option" where
  "blocking_loop 0 os attempt ef waitMask shouldTimeOut timeOutNanos prevTimeNanos w = Some NoFuel"
| "blocking_loop (Suc n) os attempt ef waitMask shouldTimeOut timeOutNanos prevTimeNanos w =
     (let (currentTimeNs, w1) =
        (if shouldTimeOut then elapsedRealtimeNano os w else (prevTimeNanos, w));
        left = (if shouldTimeOut then timeOutNanos - (currentTimeNs - prevTimeNanos)
                else timeOutNanos)
      in if shouldTimeOut \<and> left \<le> 0
         then do {
           (result, m) \<leftarrow> attempt (wmem w1);
           Some (Done (result, w1\<lparr>wmem := m\<rparr>))
         }
         else do {
           r \<leftarrow> ef_wait n os ef waitMask (Some 0) left True w1;
           case r of
             NoFuel \<Rightarrow> Some NoFuel
           | Done (status, efState, w2) \<Rightarrow>
               if status \<noteq> TIMED_OUT \<and> status \<noteq> NO_ERROR then Some (Done (False, w2))
               else if status = TIMED_OUT then Some (Done (False, w2))
               else do {
                 s \<leftarrow> efState;
                 if s AND waitMask \<noteq> 0 then do {
                   (ok, m) \<leftarrow> attempt (wmem w2);
                   let w3 = w2\<lparr>wmem := m\<rparr>;
                   if ok then Some (Done (True, w3))
                   else blocking_loop n os attempt ef waitMask shouldTimeOut left currentTimeNs w3
                 } else blocking_loop n os attempt ef waitMask shouldTimeOut left currentTimeNs w2
               }
         })"

text \<open>The notification of the other side after a success.\<close>

definition notify ::
  "os \<Rightarrow> EventFlag \<Rightarrow> u32 \<Rightarrow> bool \<Rightarrow> world \<Rightarrow> (bool \<times> world) fuelled option" where
  "notify os ef wakeMask result w =
     (if result \<and> wakeMask \<noteq> 0
      then do { (st, w') \<leftarrow> wake os ef wakeMask w; Some (Done (result, w')) }
      else Some (Done (result, w)))"

definition blocking_op ::
  "nat \<Rightarrow> os \<Rightarrow> attempt \<Rightarrow> EventFlag \<Rightarrow> u32 \<Rightarrow> u32 \<Rightarrow> int \<Rightarrow> world \<Rightarrow> (bool \<times> world) fuelled option"
where
  "blocking_op fuel os attempt ef waitMask wakeMask timeOutNanos w = do {
     (result, m) \<leftarrow> attempt (wmem w);
     let w1 = w\<lparr>wmem := m\<rparr>;
     if result then notify os ef wakeMask result w1 else do {
       let shouldTimeOut = (timeOutNanos \<noteq> 0);
       let (prevTimeNanos, w2) = (if shouldTimeOut then elapsedRealtimeNano os w1 else (0, w1));
       r \<leftarrow> blocking_loop fuel os attempt ef waitMask shouldTimeOut timeOutNanos prevTimeNanos w2;
       case r of NoFuel \<Rightarrow> Some NoFuel | Done (res, w3) \<Rightarrow> notify os ef wakeMask res w3
     }
   }"

text \<open>The early returns: no event flag, an empty wait mask, a count beyond the capacity.\<close>

definition blocking_checked ::
  "MessageQueue \<Rightarrow> u64 \<Rightarrow> u32 \<Rightarrow> EventFlag option \<Rightarrow>
   (EventFlag \<Rightarrow> (bool \<times> world) fuelled option) \<Rightarrow> world \<Rightarrow> (bool \<times> world) fuelled option" where
  "blocking_checked q cnt waitMask evFlag run w =
     (case (if evFlag = None then mEventFlag q else evFlag) of
        None \<Rightarrow> Some (Done (False, w))
      | Some ef \<Rightarrow>
          if waitMask = 0 then Some (Done (False, w)) else do {
            c \<leftarrow> getQuantumCount q;
            if cnt > c then Some (Done (False, w)) else run ef
          })"

definition writeBlocking ::
  "nat \<Rightarrow> os \<Rightarrow> MessageQueue \<Rightarrow> ptr option \<Rightarrow> u64 \<Rightarrow> u32 \<Rightarrow> u32 \<Rightarrow> int \<Rightarrow> EventFlag option \<Rightarrow>
   world \<Rightarrow> (bool \<times> world) fuelled option" where
  "writeBlocking fuel os q dat cnt readNotification writeNotification timeOutNanos evFlag w =
     blocking_checked q cnt readNotification evFlag
       (\<lambda>ef. blocking_op fuel os (\<lambda>m. mq_write q m dat cnt) ef readNotification
          writeNotification timeOutNanos w) w"

definition readBlocking ::
  "nat \<Rightarrow> os \<Rightarrow> MessageQueue \<Rightarrow> ptr option \<Rightarrow> u64 \<Rightarrow> u32 \<Rightarrow> u32 \<Rightarrow> int \<Rightarrow> EventFlag option \<Rightarrow>
   world \<Rightarrow> (bool \<times> world) fuelled option" where
  "readBlocking fuel os q dat cnt readNotification writeNotification timeOutNanos evFlag w =
     blocking_checked q cnt writeNotification evFlag
       (\<lambda>ef. blocking_op fuel os (\<lambda>m. mq_read q m dat cnt) ef writeNotification
          readNotification timeOutNanos w) w"

definition FMQ_NOT_FULL :: u32 where "FMQ_NOT_FULL = 0x01"
definition FMQ_NOT_EMPTY :: u32 where "FMQ_NOT_EMPTY = 0x02"

definition writeBlocking3 ::
  "nat \<Rightarrow> os \<Rightarrow> MessageQueue \<Rightarrow> ptr option \<Rightarrow> u64 \<Rightarrow> int \<Rightarrow> world \<Rightarrow> (bool \<times> world) fuelled option" where
  "writeBlocking3 fuel os q dat cnt timeOutNanos w =
     writeBlocking fuel os q dat cnt FMQ_NOT_FULL FMQ_NOT_EMPTY timeOutNanos None w"

definition readBlocking3 ::
  "nat \<Rightarrow> os \<Rightarrow> MessageQueue \<Rightarrow> ptr option \<Rightarrow> u64 \<Rightarrow> int \<Rightarrow> world \<Rightarrow> (bool \<times> world) fuelled option" where
  "readBlocking3 fuel os q dat cnt timeOutNanos w =
     readBlocking fuel os q dat cnt FMQ_NOT_FULL FMQ_NOT_EMPTY timeOutNanos None w"

section \<open>Waiting as a relation\<close>

text \<open>
  What happens while a thread only waits: the other threads run, and the thread clears bits of
  its wait mask in the event flag word.
\<close>

inductive waiting :: "os \<Rightarrow> ptr \<Rightarrow> u32 \<Rightarrow> world \<Rightarrow> world \<Rightarrow> bool" for os p b where
  refl: "waiting os p b w w"
| others: "waiting os p b w w1 \<Longrightarrow> waiting os p b w (ran os e w1)"
| clear: "waiting os p b w w1 \<Longrightarrow>
    waiting os p b w (w1\<lparr>wmem := store32 (wmem w1) p (load32 (wmem w1) p AND NOT b)\<rparr>)"

lemma waiting_trans:
  assumes "waiting os p b w1 w2" and "waiting os p b w w1"
  shows "waiting os p b w w2"
  using assms by (induction rule: waiting.induct) (auto intro: waiting.intros)

lemma waiting_replay:
  "waiting os p b w \<lparr>wmem = replay os es (hist w) (wmem w), hist = es @ hist w\<rparr>"
proof (induction es)
  case Nil
  show ?case using waiting.refl [of os p b w] by (cases w) simp
next
  case (Cons e es)
  show ?case using waiting.others [OF Cons, of e] by (simp add: ran_def)
qed

lemma waiting_only_others: "only_others os w w' \<Longrightarrow> waiting os p b w w'"
proof -
  assume "only_others os w w'"
  then obtain es where "w' = \<lparr>wmem = replay os es (hist w) (wmem w), hist = es @ hist w\<rparr>"
    by (cases w') (auto simp: only_others_def)
  then show ?thesis using waiting_replay by simp
qed

lemma waiting_took:
  assumes "took os p b w st s w'"
  shows "waiting os p b w w'"
proof -
  obtain w0 where w0: "only_others os w w0" and h: "hist w' = hist w0"
    and m: "wmem w' = wmem w0 \<or> wmem w' = store32 (wmem w0) p (load32 (wmem w0) p AND NOT b)"
    using assms by (auto simp: took_def split: if_splits)
  then have "w' = w0 \<or> w' = w0\<lparr>wmem := store32 (wmem w0) p (load32 (wmem w0) p AND NOT b)\<rparr>"
    by auto
  then show ?thesis using waiting_only_others [OF w0] waiting.clear by blast
qed

text \<open>An invariant of the memory that the other threads and the event flag respect.\<close>

definition stable :: "os \<Rightarrow> ptr \<Rightarrow> (mem \<Rightarrow> bool) \<Rightarrow> bool" where
  "stable os p I \<longleftrightarrow>
     (\<forall>h m. I m \<longrightarrow> I (os_run os h m)) \<and> (\<forall>m v. I m \<longrightarrow> I (store32 m p v))"

lemma waiting_stable: "waiting os p b w w' \<Longrightarrow> stable os p I \<Longrightarrow> I (wmem w) \<Longrightarrow> I (wmem w')"
  by (induction rule: waiting.induct) (auto simp: stable_def)

lemma waiting_hist: "waiting os p b w w' \<Longrightarrow> \<exists>es. hist w' = es @ hist w"
  by (induction rule: waiting.induct) auto

section \<open>Blocking around an attempt\<close>

declare blocking_loop.simps(2) [simp del]

text \<open>
  The outcome of a blocking call before the notification: after some waiting a success changes
  the memory as one attempt does, a failure leaves nothing but the waiting.
\<close>

definition blocked :: "os \<Rightarrow> attempt \<Rightarrow> ptr \<Rightarrow> u32 \<Rightarrow> world \<Rightarrow> bool \<Rightarrow> world \<Rightarrow> bool" where
  "blocked os attempt p waitMask w result w' \<longleftrightarrow>
     (if result
      then \<exists>w1 m. waiting os p waitMask w w1 \<and> attempt (wmem w1) = Some (True, m) \<and>
             w' = w1\<lparr>wmem := m\<rparr>
      else waiting os p waitMask w w')"

lemma blocked_after:
  "waiting os p b w w1 \<Longrightarrow> blocked os attempt p b w1 r w' \<Longrightarrow> blocked os attempt p b w r w'"
  unfolding blocked_def by (auto split: if_splits intro: waiting_trans)

text \<open>
  What \<open>write\<close> and \<open>read\<close> must promise to be blocked on: while \<open>I\<close> holds they do not crash, and a
  failed attempt leaves the memory as it was.
\<close>

locale blocking_attempt =
  fixes attempt :: "attempt"
    and I :: "mem \<Rightarrow> bool"
  assumes total: "I m \<Longrightarrow> \<exists>ok m'. attempt m = Some (ok, m')"
    and fails: "I m \<Longrightarrow> attempt m = Some (False, m') \<Longrightarrow> m' = m"
begin

lemma attempt_blocked:
  assumes "I (wmem w)"
  obtains ok m where "attempt (wmem w) = Some (ok, m)" "blocked os attempt p b w ok (w\<lparr>wmem := m\<rparr>)"
    "ok \<or> m = wmem w"
proof -
  obtain ok m where a: "attempt (wmem w) = Some (ok, m)" using total [OF assms] by blast
  have "blocked os attempt p b w ok (w\<lparr>wmem := m\<rparr>)" "ok \<or> m = wmem w"
    using a fails [OF assms, of m] by (cases ok; auto simp: blocked_def intro: waiting.refl)+
  with a that show thesis by blast
qed

text \<open>
  One round of the loop: it has no fuel for the wait, it is the last one, or the wait was for
  nothing and the loop goes on with less time.
\<close>

lemma blocking_loop_step:
  assumes p: "mEfWordPtr ef = Some p" and b: "waitMask \<noteq> 0" and e: "errno_nonzero os"
    and st: "stable os p I" and I: "I (wmem w)"
  obtains (cFuel) lft cur w1 where
      "blocking_loop (Suc n) os attempt ef waitMask sto t prev w = Some NoFuel"
      "ef_wait n os ef waitMask (Some 0) lft True w1 = Some NoFuel"
      "sto \<Longrightarrow> cur = os_clock os (hist w) \<and> lft = t - (cur - prev) \<and> 0 < lft"
  | (cDone) r w' where
      "blocking_loop (Suc n) os attempt ef waitMask sto t prev w = Some (Done (r, w'))"
      "blocked os attempt p waitMask w r w'"
  | (cAgain) lft cur w2 where
      "blocking_loop (Suc n) os attempt ef waitMask sto t prev w =
        blocking_loop n os attempt ef waitMask sto lft cur w2"
      "waiting os p waitMask w w2" "I (wmem w2)"
      "sto \<Longrightarrow> cur = os_clock os (hist w) \<and> lft = t - (cur - prev) \<and> 0 < lft \<and>
        (\<exists>es. hist w2 = es @ EvClock cur # hist w)"
proof -
  obtain cur w1 where c: "(if sto then elapsedRealtimeNano os w else (prev, w)) = (cur, w1)"
    by fastforce
  define lft where "lft = (if sto then t - (cur - prev) else t)"
  have "only_others os w w1"
    using c by (auto simp: elapsedRealtimeNano_def Let_def split: if_splits)
  then have w1: "waiting os p waitMask w w1" by (rule waiting_only_others)
  have I1: "I (wmem w1)" using waiting_stable [OF w1 st I] .
  have clk: "sto \<Longrightarrow> cur = os_clock os (hist w) \<and> lft = t - (cur - prev) \<and>
      hist w1 = EvClock cur # hist w"
    using c by (auto simp: lft_def elapsedRealtimeNano_def Let_def)
  show thesis
  proof (cases "sto \<and> lft \<le> 0")
    case True
    obtain ok m where att: "attempt (wmem w1) = Some (ok, m)"
      and bl: "blocked os attempt p waitMask w1 ok (w1\<lparr>wmem := m\<rparr>)"
      by (rule attempt_blocked [OF I1, where os = os and p = p and b = waitMask])
    have "sto" "t - (cur - prev) \<le> 0" using True by (auto simp: lft_def)
    then have "blocking_loop (Suc n) os attempt ef waitMask sto t prev w =
        Some (Done (ok, w1\<lparr>wmem := m\<rparr>))"
      using c att by (simp add: blocking_loop.simps(2) Let_def)
    then show thesis using cDone blocked_after [OF w1 bl] by blast
  next
    case run: False
    let ?wait = "ef_wait n os ef waitMask (Some 0) lft True w1"
    show thesis
    proof (cases "?wait = Some NoFuel")
      case True
      with run c have "blocking_loop (Suc n) os attempt ef waitMask sto t prev w = Some NoFuel"
        by (auto simp: blocking_loop.simps(2) Let_def simp flip: lft_def)
      then show thesis using cFuel True clk run by force
    next
      case False
      then obtain st s w2 where r: "?wait = Some (Done (st, Some s, w2))"
        and tk: "took os p waitMask w1 st s w2"
        using ef_wait_retry_took [OF p b e, of n 0 lft w1] by blast
      have w2: "waiting os p waitMask w w2"
        using waiting_trans [OF waiting_took [OF tk] w1] .
      have I2: "I (wmem w2)" using waiting_stable [OF w2 st I] .
      show thesis
      proof (cases "st = NO_ERROR")
        case False
        with run c r have "blocking_loop (Suc n) os attempt ef waitMask sto t prev w =
            Some (Done (False, w2))"
          by (auto simp: blocking_loop.simps(2) Let_def simp flip: lft_def)
        then show thesis using cDone [of False w2] w2 by (simp add: blocked_def)
      next
        case True
        then have s: "s AND waitMask \<noteq> 0" using tk by (auto simp: took_def ac_simps)
        obtain ok m where a: "attempt (wmem w2) = Some (ok, m)"
          and bl: "blocked os attempt p waitMask w2 ok (w2\<lparr>wmem := m\<rparr>)"
          and m: "ok \<or> m = wmem w2"
          by (rule attempt_blocked [OF I2, where os = os and p = p and b = waitMask])
        have eq: "blocking_loop (Suc n) os attempt ef waitMask sto t prev w =
            (if ok then Some (Done (True, w2\<lparr>wmem := m\<rparr>))
             else blocking_loop n os attempt ef waitMask sto lft cur (w2\<lparr>wmem := m\<rparr>))"
          using run c r True s a by (auto simp: blocking_loop.simps(2) Let_def simp flip: lft_def)
        show thesis
        proof (cases ok)
          case True
          then show thesis using eq cDone blocked_after [OF w2 bl] by simp
        next
          case False
          then have "blocking_loop (Suc n) os attempt ef waitMask sto t prev w =
              blocking_loop n os attempt ef waitMask sto lft cur w2"
            using eq m by simp
          then show thesis using cAgain w2 I2 clk run took_hist [OF tk] by force
        qed
      qed
    qed
  qed
qed

lemma blocking_loop_blocked:
  assumes "mEfWordPtr ef = Some p" and "waitMask \<noteq> 0" and "errno_nonzero os" and "stable os p I"
  shows "I (wmem w) \<Longrightarrow> blocking_loop n os attempt ef waitMask sto t prev w = Some NoFuel \<or>
    (\<exists>r w'. blocking_loop n os attempt ef waitMask sto t prev w = Some (Done (r, w')) \<and>
       blocked os attempt p waitMask w r w')"
proof (induction n arbitrary: t prev w)
  case 0
  then show ?case by simp
next
  case (Suc n)
  from assms Suc.prems show ?case
  proof (cases rule: blocking_loop_step [where n = n and sto = sto and t = t and prev = prev])
    case (cAgain lft cur w2)
    then show ?thesis using Suc.IH [of w2 lft cur] blocked_after [OF cAgain(2)] by metis
  qed auto
qed

lemma blocking_loop_ends:
  assumes "mEfWordPtr ef = Some p" and "waitMask \<noteq> 0" and "errno_nonzero os" and "stable os p I"
    and clk: "clock_advances os"
  shows "I (wmem w) \<Longrightarrow> nat t < n \<Longrightarrow> hist w = es @ EvClock prev # h \<Longrightarrow>
    blocking_loop n os attempt ef waitMask True t prev w \<noteq> Some NoFuel"
proof (induction n arbitrary: t prev w es h)
  case 0
  then show ?case by simp
next
  case (Suc n)
  have later: "prev < os_clock os (hist w)"
    using clk Suc.prems(3) by (simp add: clock_advances_def)
  from assms(1-4) Suc.prems(1) show ?case
  proof (cases rule: blocking_loop_step [where n = n and sto = True and t = t and prev = prev])
    case (cFuel lft cur w1)
    then have "lft \<noteq> 0" "nat lft < n" using later Suc.prems(2) by auto
    then show ?thesis using cFuel(2) ef_wait_retry_ends [OF assms(1-3) clk] by blast
  next
    case (cAgain lft cur w2)
    then obtain es2 where "hist w2 = es2 @ EvClock cur # hist w" by auto
    moreover have "nat lft < n" using cAgain(4) later Suc.prems(2) by auto
    ultimately show ?thesis using Suc.IH [OF cAgain(3)] cAgain(1) by simp
  qed auto
qed

text \<open>The whole call: a first attempt, the loop, and the notification after a success.\<close>

lemma notify_total:
  assumes "mEfWordPtr ef = Some p"
  shows "\<exists>w'. notify os ef wakeMask r w = Some (Done (r, w'))"
  using assms by (auto simp: notify_def wake_def atomic_fetch_or_def Let_def split: prod.splits)

lemma blocking_op_outcome:
  assumes p: "mEfWordPtr ef = Some p" and "waitMask \<noteq> 0" and "errno_nonzero os"
    and "stable os p I" and I: "I (wmem w)"
  shows "blocking_op n os attempt ef waitMask wakeMask t w = Some NoFuel \<or>
    (\<exists>r w1 w'. blocking_op n os attempt ef waitMask wakeMask t w = Some (Done (r, w')) \<and>
       blocked os attempt p waitMask w r w1 \<and> notify os ef wakeMask r w1 = Some (Done (r, w')))"
proof -
  obtain ok m where a: "attempt (wmem w) = Some (ok, m)" "ok \<or> m = wmem w"
    "blocked os attempt p waitMask w ok (w\<lparr>wmem := m\<rparr>)"
    by (rule attempt_blocked [OF I])
  show ?thesis
  proof (cases ok)
    case True
    then show ?thesis
      using a notify_total [OF p, of os wakeMask True "w\<lparr>wmem := m\<rparr>"]
      by (auto simp: blocking_op_def)
  next
    case False
    then have m: "m = wmem w" using a by simp
    obtain prev w2 where c: "(if t \<noteq> 0 then elapsedRealtimeNano os w else (0, w)) = (prev, w2)"
      by fastforce
    have "only_others os w w2"
      using c by (auto simp: elapsedRealtimeNano_def Let_def split: if_splits)
    then have w2: "waiting os p waitMask w w2" by (rule waiting_only_others)
    let ?loop = "blocking_loop n os attempt ef waitMask (t \<noteq> 0) t prev w2"
    have eq: "blocking_op n os attempt ef waitMask wakeMask t w = do { r \<leftarrow> ?loop;
        case r of NoFuel \<Rightarrow> Some NoFuel | Done (res, w3) \<Rightarrow> notify os ef wakeMask res w3 }"
      using a(1) False m c by (auto simp: blocking_op_def Let_def)
    show ?thesis
      using blocking_loop_blocked [OF assms(1-4) waiting_stable [OF w2 assms(4) I],
          of n "t \<noteq> 0" t prev]
    proof (elim disjE exE conjE)
      assume "?loop = Some NoFuel"
      then show ?thesis using eq by simp
    next
      fix r w' assume "?loop = Some (Done (r, w'))" and bl: "blocked os attempt p waitMask w2 r w'"
      then show ?thesis
        using eq notify_total [OF p, of os wakeMask r w'] blocked_after [OF w2 bl] by auto
    qed
  qed
qed

lemma blocking_op_ends:
  assumes p: "mEfWordPtr ef = Some p" and "waitMask \<noteq> 0" and "errno_nonzero os"
    and "stable os p I" and I: "I (wmem w)"
    and "clock_advances os" and t: "t \<noteq> 0" "nat t < n"
  shows "blocking_op n os attempt ef waitMask wakeMask t w \<noteq> Some NoFuel"
proof -
  obtain ok m where a: "attempt (wmem w) = Some (ok, m)" "ok \<or> m = wmem w"
    "blocked os attempt p waitMask w ok (w\<lparr>wmem := m\<rparr>)"
    by (rule attempt_blocked [OF I])
  have not_fuel: "notify os ef wakeMask r u \<noteq> Some NoFuel" for r u
    using notify_total [OF p, of os wakeMask r u] by auto
  let ?w2 = "ran os (EvClock (os_clock os (hist w))) w"
  have "waiting os p waitMask w ?w2" by (intro waiting.intros)
  then have "I (wmem ?w2)" using waiting_stable assms(4) I by blast
  then have "blocking_loop n os attempt ef waitMask True t (os_clock os (hist w)) ?w2 \<noteq> Some NoFuel"
    using blocking_loop_ends [OF assms(1-4,6), of ?w2 t n "[]"] t(2) by simp
  then show ?thesis
    using a t(1) not_fuel
    by (cases ok)
      (auto simp: blocking_op_def elapsedRealtimeNano_def Let_def split: bind_splits fuelled.splits)
qed

end

end
