(* ===== verification/BlockingQueue.thy ===== *)
theory BlockingQueue
  imports BlockingOps MessageQueueFifo
begin

text \<open>
  \<open>writeBlocking\<close> and \<open>readBlocking\<close> on a synchronized queue, while the other end of the queue is
  at work: a call that succeeds is exactly one \<open>write\<close> or \<open>read\<close> at some moment, followed by the
  notification; a call that fails leaves the queue to the other end; with a time limit the call
  returns.
\<close>

section \<open>The other end\<close>

text \<open>The event flag word lies apart from the ring and the counters.\<close>

definition flag_apart :: "MessageQueue \<Rightarrow> ptr \<Rightarrow> bool" where
  "flag_apart q p \<longleftrightarrow> sep p 4 (qring q) (qS q) \<and> sep p 4 (qrp q) 8 \<and> sep p 4 (qwp q) 8"

text \<open>
  What the other threads may do while this one writes: they keep the queue consistent and leave
  the write counter alone. The writer's buffer is its own.
\<close>

definition readers_only :: "os \<Rightarrow> MessageQueue \<Rightarrow> bool" where
  "readers_only os q \<longleftrightarrow> (\<forall>h m. fifo_inv q m \<longrightarrow>
     fifo_inv q (os_run os h m) \<and> wrc q (os_run os h m) = wrc q m)"

text \<open>While this one reads, they keep the queue consistent.\<close>

definition writers_only :: "os \<Rightarrow> MessageQueue \<Rightarrow> bool" where
  "writers_only os q \<longleftrightarrow> (\<forall>h m. fifo_inv q m \<longrightarrow> fifo_inv q (os_run os h m))"

lemma flag_store_counters:
  assumes "flag_apart q p"
  shows "wrc q (store32 m p v) = wrc q m" "rdc q (store32 m p v) = rdc q m"
proof -
  have "load64 (store32 m p v) (qwp q) = load64 m (qwp q)"
    "load64 (store32 m p v) (qrp q) = load64 m (qrp q)"
    using assms
    by (auto simp: flag_apart_def intro!: cell64.load_unchanged cell32.store_out dest: in_range_sep)
  then show "wrc q (store32 m p v) = wrc q m" "rdc q (store32 m p v) = rdc q m"
    by (simp_all add: wrc_def rdc_def)
qed

lemma flag_store_inv: "flag_apart q p \<Longrightarrow> fifo_inv q (store32 m p v) = fifo_inv q m"
  by (simp add: fifo_inv_def ring_inv_def flag_store_counters)

definition write_ready :: "MessageQueue \<Rightarrow> ptr \<Rightarrow> u64 \<Rightarrow> mem \<Rightarrow> bool" where
  "write_ready q d n m \<longleftrightarrow> fifo_inv q m \<and> user_buf q d (unat n) \<and> wrc q m + unat n * qz q < 2 ^ 64"

definition read_ready :: "MessageQueue \<Rightarrow> ptr \<Rightarrow> u64 \<Rightarrow> mem \<Rightarrow> bool" where
  "read_ready q d n m \<longleftrightarrow> fifo_inv q m \<and> user_buf q d (unat n) \<and> unat n * qz q < 2 ^ 64"

lemma stable_write_ready:
  "readers_only os q \<Longrightarrow> flag_apart q p \<Longrightarrow> stable os p (write_ready q d n)"
  by (simp add: stable_def write_ready_def readers_only_def flag_store_inv flag_store_counters)

lemma stable_read_ready:
  "writers_only os q \<Longrightarrow> flag_apart q p \<Longrightarrow> stable os p (read_ready q d n)"
  by (simp add: stable_def read_ready_def writers_only_def flag_store_inv)

section \<open>The attempts\<close>

lemma write_attempt:
  assumes "write_ready q d n m"
  shows "(\<exists>m'. mq_write q m (Some d) n = Some (True, m') \<and> fifo_inv q m' \<and>
      contents q m' = contents q m @ elems m d (qz q) (unat n)) \<or>
    mq_write q m (Some d) n = Some (False, m)"
proof (cases "length (contents q m) + unat n \<le> qcap q")
  case True
  then show ?thesis
    using assms mq_write_append [of q m d n] by (auto simp: write_ready_def)
next
  case False
  then show ?thesis
    using assms write_full_fails [of q m n "Some d"] by (auto simp: write_ready_def)
qed

lemma read_attempt:
  assumes "read_ready q d n m"
  shows "(\<exists>m'. mq_read q m (Some d) n = Some (True, m') \<and> fifo_inv q m' \<and>
      elems m' d (qz q) (unat n) = take (unat n) (contents q m) \<and>
      contents q m' = drop (unat n) (contents q m) \<and> unat n \<le> length (contents q m)) \<or>
    mq_read q m (Some d) n = Some (False, m)"
proof (cases "unat n \<le> length (contents q m)")
  case True
  then show ?thesis
    using assms mq_read_take [of q m d n] by (auto simp: read_ready_def)
next
  case False
  then show ?thesis
    using assms read_short_fails [of q m n "Some d"] by (auto simp: read_ready_def)
qed

interpretation wr: blocking_attempt "\<lambda>m. mq_write q m (Some d) n" "write_ready q d n" for q d n
  by unfold_locales (use write_attempt in \<open>blast, force\<close>)

interpretation rd: blocking_attempt "\<lambda>m. mq_read q m (Some d) n" "read_ready q d n" for q d n
  by unfold_locales (use read_attempt in \<open>blast, force\<close>)

text \<open>A call that gets past the early returns.\<close>

definition blocking_call ::
  "MessageQueue \<Rightarrow> u64 \<Rightarrow> u32 \<Rightarrow> EventFlag option \<Rightarrow> EventFlag \<Rightarrow> ptr \<Rightarrow> bool" where
  "blocking_call q cnt waitMask evFlag ef p \<longleftrightarrow>
     (if evFlag = None then mEventFlag q else evFlag) = Some ef \<and> mEfWordPtr ef = Some p \<and>
     flag_apart q p \<and> waitMask \<noteq> 0 \<and> unat cnt \<le> qcap q"

lemma blocking_call_runs:
  assumes "blocking_call q cnt waitMask evFlag ef p" and "fifo_inv q m"
  shows "blocking_checked q cnt waitMask evFlag run w = run ef"
  using assms getQuantumCount_eq [OF fifo_invD(1) [OF assms(2)]]
  by (auto simp: blocking_call_def blocking_checked_def word_less_nat_alt)

section \<open>The promises of the blocking calls\<close>

text \<open>
  C24. A \<open>writeBlocking\<close> that returns true is one \<open>write\<close>: at some moment after some waiting the
  messages were appended to the unread ones in one step, and then the reader was notified. One
  that returns false has written nothing. The other threads may run at every system call.
\<close>

theorem writeBlocking_is_one_write:
  assumes call: "blocking_call q cnt readNotification evFlag ef p"
    and ready: "write_ready q d cnt (wmem w)"
    and os: "errno_nonzero os" "readers_only os q"
    and ret: "writeBlocking fuel os q (Some d) cnt readNotification writeNotification t evFlag w =
      Some (Done (r, w'))"
  shows "\<exists>w1 w2. waiting os p readNotification w w1 \<and>
    (if r then mq_write q (wmem w1) (Some d) cnt = Some (True, wmem w2) \<and> hist w2 = hist w1 \<and>
        contents q (wmem w2) = contents q (wmem w1) @ elems (wmem w1) d (qz q) (unat cnt)
     else w2 = w1) \<and>
    notify os ef writeNotification r w2 = Some (Done (r, w'))"
proof -
  from call have p: "mEfWordPtr ef = Some p" and m: "readNotification \<noteq> 0" and fl: "flag_apart q p"
    by (simp_all add: blocking_call_def)
  note st = stable_write_ready [OF os(2) fl, of d cnt]
  obtain w2 where bl: "blocked os (\<lambda>m. mq_write q m (Some d) cnt) p readNotification w r w2"
    and nt: "notify os ef writeNotification r w2 = Some (Done (r, w'))"
    using wr.blocking_op_outcome [OF p m os(1) st ready, of fuel writeNotification t] ret
      blocking_call_runs [OF call] ready
    by (auto simp: writeBlocking_def write_ready_def)
  show ?thesis
  proof (cases r)
    case False
    with bl nt show ?thesis by (auto simp: blocked_def)
  next
    case True
    then obtain w1 m2 where w1: "waiting os p readNotification w w1"
      and wr: "mq_write q (wmem w1) (Some d) cnt = Some (True, m2)" and w2: "w2 = w1\<lparr>wmem := m2\<rparr>"
      using bl by (auto simp: blocked_def)
    have "write_ready q d cnt (wmem w1)" using waiting_stable [OF w1 st ready] .
    then have "contents q m2 = contents q (wmem w1) @ elems (wmem w1) d (qz q) (unat cnt)"
      using write_attempt [of q d cnt "wmem w1"] wr by auto
    with True w1 wr w2 nt show ?thesis by (intro exI [of _ w1] exI [of _ w2]) simp
  qed
qed

text \<open>
  C25. A \<open>readBlocking\<close> that returns true is one \<open>read\<close>: at some moment after some waiting the
  oldest messages were moved to the caller's buffer in one step, and then the writer was
  notified. One that returns false has taken nothing.
\<close>

theorem readBlocking_is_one_read:
  assumes call: "blocking_call q cnt writeNotification evFlag ef p"
    and ready: "read_ready q d cnt (wmem w)"
    and os: "errno_nonzero os" "writers_only os q"
    and ret: "readBlocking fuel os q (Some d) cnt readNotification writeNotification t evFlag w =
      Some (Done (r, w'))"
  shows "\<exists>w1 w2. waiting os p writeNotification w w1 \<and>
    (if r then mq_read q (wmem w1) (Some d) cnt = Some (True, wmem w2) \<and> hist w2 = hist w1 \<and>
        contents q (wmem w1) = elems (wmem w2) d (qz q) (unat cnt) @ contents q (wmem w2)
     else w2 = w1) \<and>
    notify os ef readNotification r w2 = Some (Done (r, w'))"
proof -
  from call have p: "mEfWordPtr ef = Some p" and m: "writeNotification \<noteq> 0" and fl: "flag_apart q p"
    by (simp_all add: blocking_call_def)
  note st = stable_read_ready [OF os(2) fl, of d cnt]
  obtain w2 where bl: "blocked os (\<lambda>m. mq_read q m (Some d) cnt) p writeNotification w r w2"
    and nt: "notify os ef readNotification r w2 = Some (Done (r, w'))"
    using rd.blocking_op_outcome [OF p m os(1) st ready, of fuel readNotification t] ret
      blocking_call_runs [OF call] ready
    by (auto simp: readBlocking_def read_ready_def)
  show ?thesis
  proof (cases r)
    case False
    with bl nt show ?thesis by (auto simp: blocked_def)
  next
    case True
    then obtain w1 m2 where w1: "waiting os p writeNotification w w1"
      and rd: "mq_read q (wmem w1) (Some d) cnt = Some (True, m2)" and w2: "w2 = w1\<lparr>wmem := m2\<rparr>"
      using bl by (auto simp: blocked_def)
    have "read_ready q d cnt (wmem w1)" using waiting_stable [OF w1 st ready] .
    then have "contents q (wmem w1) = elems m2 d (qz q) (unat cnt) @ contents q m2"
      using read_attempt [of q d cnt "wmem w1"] rd by auto
    with True w1 rd w2 nt show ?thesis by (intro exI [of _ w1] exI [of _ w2]) simp
  qed
qed

text \<open>
  C26. With a time limit of \<open>t\<close> nanoseconds both calls return after at most \<open>t\<close> rounds when the
  clock advances, whatever the other end does to the queue and however often it notifies.
\<close>

theorem blocking_with_limit_returns:
  assumes os: "errno_nonzero os" "clock_advances os" and t: "t \<noteq> 0" "nat t < fuel"
  shows "(blocking_call q cnt readNotification evFlag ef p \<and> write_ready q d cnt (wmem w) \<and>
      readers_only os q \<longrightarrow>
      (\<exists>r w'. writeBlocking fuel os q (Some d) cnt readNotification writeNotification t evFlag w =
        Some (Done (r, w')))) \<and>
    (blocking_call q cnt writeNotification evFlag ef p \<and> read_ready q d cnt (wmem w) \<and>
      writers_only os q \<longrightarrow>
      (\<exists>r w'. readBlocking fuel os q (Some d) cnt readNotification writeNotification t evFlag w =
        Some (Done (r, w'))))"
proof (intro conjI impI)
  assume a: "blocking_call q cnt readNotification evFlag ef p \<and> write_ready q d cnt (wmem w) \<and>
    readers_only os q"
  then have p: "mEfWordPtr ef = Some p" and m: "readNotification \<noteq> 0"
    and st: "stable os p (write_ready q d cnt)" and ready: "write_ready q d cnt (wmem w)"
    and i: "fifo_inv q (wmem w)"
    by (auto simp: blocking_call_def write_ready_def intro: stable_write_ready)
  show "\<exists>r w'. writeBlocking fuel os q (Some d) cnt readNotification writeNotification t evFlag w =
      Some (Done (r, w'))"
    using wr.blocking_op_outcome [OF p m os(1) st ready, of fuel writeNotification t]
      wr.blocking_op_ends [OF p m os(1) st ready os(2) t, of writeNotification]
      blocking_call_runs [OF conjunct1 [OF a] i]
    by (auto simp: writeBlocking_def)
next
  assume a: "blocking_call q cnt writeNotification evFlag ef p \<and> read_ready q d cnt (wmem w) \<and>
    writers_only os q"
  then have p: "mEfWordPtr ef = Some p" and m: "writeNotification \<noteq> 0"
    and st: "stable os p (read_ready q d cnt)" and ready: "read_ready q d cnt (wmem w)"
    and i: "fifo_inv q (wmem w)"
    by (auto simp: blocking_call_def read_ready_def intro: stable_read_ready)
  show "\<exists>r w'. readBlocking fuel os q (Some d) cnt readNotification writeNotification t evFlag w =
      Some (Done (r, w'))"
    using rd.blocking_op_outcome [OF p m os(1) st ready, of fuel readNotification t]
      rd.blocking_op_ends [OF p m os(1) st ready os(2) t, of readNotification]
      blocking_call_runs [OF conjunct1 [OF a] i]
    by (auto simp: readBlocking_def)
qed

text \<open>
  Without an event flag, with an empty wait mask or for more messages than the queue can
  hold, the blocking calls return false at once and change nothing.
\<close>

theorem blocking_refuses:
  assumes "mq_wf q"
    and "(evFlag = None \<and> mEventFlag q = None) \<or> waitMask = 0 \<or> qcap q < unat cnt"
  shows "writeBlocking fuel os q dat cnt waitMask other t evFlag w = Some (Done (False, w)) \<and>
    readBlocking fuel os q dat cnt other waitMask t evFlag w = Some (Done (False, w))"
  using assms getQuantumCount_eq [OF assms(1)]
  by (auto simp: writeBlocking_def readBlocking_def blocking_checked_def word_less_nat_alt
      split: option.splits)

end
