(* ===== verification/MessageQueueInit.thy ===== *)
theory MessageQueueInit
  imports MessageQueueBase
begin

text \<open>
  Model of the construction and destruction of a queue object in
  include/fmq/MessageQueueBase.h: mapping and unmapping of grantors, \<open>initMemory\<close>, the two
  constructors and the destructor. \<open>int\<close> variables of the code are 32-bit words, read with
  \<open>sint\<close> where they are handed to the system.
\<close>

section \<open>Mapping\<close>

definition sys_mmap :: "os \<Rightarrow> int \<Rightarrow> bool \<Rightarrow> int \<Rightarrow> int \<Rightarrow> world \<Rightarrow> (errno + nat) \<times> world" where
  "sys_mmap os mapLen writable fd off w =
     (let r = os_mmap os (hist w) mapLen writable fd off
      in (r, ran os (EvMmap mapLen writable fd off r) w))"

definition INT_MAX :: u64 where "INT_MAX = 2147483647"

text \<open>The minimal extents the loop over all grantors asks for.\<close>

definition extents_ok :: "GrantorDescriptor list \<Rightarrow> bool" where
  "extents_ok gs \<longleftrightarrow>
     (READPTRPOS < length gs \<longrightarrow> 8 \<le> extent (gs ! READPTRPOS)) \<and>
     (WRITEPTRPOS < length gs \<longrightarrow> 8 \<le> extent (gs ! WRITEPTRPOS)) \<and>
     (EVFLAGWORDPOS < length gs \<longrightarrow> 4 \<le> extent (gs ! EVFLAGWORDPOS))"

definition mapOffset :: "os \<Rightarrow> GrantorDescriptor \<Rightarrow> i32" where
  "mapOffset os g = ucast ((ucast (offset g) :: u64) div os_pagesize os * os_pagesize os)"

definition mapLength :: "os \<Rightarrow> GrantorDescriptor \<Rightarrow> i32" where
  "mapLength os g = ucast ((ucast (offset g - mapOffset os g) :: u64) + extent g)"

text \<open>
  \<open>mmap\<close>, tried again read-only for the unsynchronized flavor when it fails with EPERM. Which mappings are
  read-only is not part of the state: a later store to one of them, which the processor would refuse, is a store
  like any other here.
\<close>

definition mmap_shared :: "os \<Rightarrow> MQFlavor \<Rightarrow> int \<Rightarrow> int \<Rightarrow> int \<Rightarrow> world \<Rightarrow> (errno + nat) \<times> world" where
  "mmap_shared os fl mapLen fd off w =
     (case sys_mmap os mapLen True fd off w of
        (r, w1) \<Rightarrow> if r = Inl EPERM \<and> fl = kUnsynchronizedWrite
          then sys_mmap os mapLen False fd off w1 else (r, w1))"

definition mapGrantorDescr ::
  "os \<Rightarrow> MQFlavor \<Rightarrow> MQDescriptor \<Rightarrow> nat \<Rightarrow> world \<Rightarrow> ptr option \<times> world" where
  "mapGrantorDescr os fl d grantorIdx w =
     (case mHandle d of
        None \<Rightarrow> (None, w)
      | Some h \<Rightarrow>
          if length (mGrantors d) \<le> grantorIdx then (None, w)
          else
            (let g = mGrantors d ! grantorIdx; fdI = sint (fdIndex g)
             in if fdI < 0 \<or> numFds h \<le> fdI then (None, w)
                else if \<not> isAlignedToWordBoundary (ucast (offset g)) then (None, w)
                else if \<not> extents_ok (mGrantors d) then (None, w)
                else if extent g > INT_MAX - os_pagesize os then (None, w)
                else
                  (case mmap_shared os fl (sint (mapLength os g)) (data h ! nat fdI)
                          (sint (mapOffset os g)) w of
                     (Inl e, w1) \<Rightarrow> (None, w1)
                   | (Inr k, w1) \<Rightarrow>
                       (Some (padd (Ptr (Shm k) (nat (sint (mapOffset os g))))
                          (unat (offset g - mapOffset os g))), w1))))"

definition unmapGrantorDescr :: "os \<Rightarrow> MQDescriptor \<Rightarrow> ptr option \<Rightarrow> nat \<Rightarrow> world \<Rightarrow> world" where
  "unmapGrantorDescr os d addr grantorIdx w =
     (case addr of
        None \<Rightarrow> w
      | Some p \<Rightarrow>
          if length (mGrantors d) \<le> grantorIdx then w
          else let g = mGrantors d ! grantorIdx
               in snd (sys_munmap os (pobj p) (int (poff p) - int (unat (offset g - mapOffset os g)))
                    (sint (mapLength os g)) w))"

section \<open>Initialization\<close>

text \<open>\<open>new std::atomic<uint64_t>\<close> and \<open>delete\<close>.\<close>

definition new_counter :: "os \<Rightarrow> world \<Rightarrow> ptr option \<times> world" where
  "new_counter os w = (case sys_new os w of (a, w1) \<Rightarrow> (map_option (\<lambda>k. Ptr (Heap k) 0) a, w1))"

definition delete_counter :: "os \<Rightarrow> ptr option \<Rightarrow> world \<Rightarrow> world" where
  "delete_counter os p w = (case p of None \<Rightarrow> w | Some q \<Rightarrow> ran os (EvDelete q) w)"

text \<open>The code at the label \<open>error\<close>: the ring is unmapped with the index of the event flag word.\<close>

definition release_read :: "os \<Rightarrow> MQDescriptor \<Rightarrow> MessageQueue \<Rightarrow> world \<Rightarrow> world" where
  "release_read os d q w =
     (if flavor q = kSynchronizedReadWrite then unmapGrantorDescr os d (mReadPtr q) READPTRPOS w
      else delete_counter os (mReadPtr q) w)"

definition init_error :: "os \<Rightarrow> MQDescriptor \<Rightarrow> MessageQueue \<Rightarrow> world \<Rightarrow> MessageQueue \<times> world" where
  "init_error os d q w =
     (let w1 = release_read os d q w;
          w2 = unmapGrantorDescr os d (mWritePtr q) WRITEPTRPOS w1;
          w3 = unmapGrantorDescr os d (mRing q) EVFLAGWORDPOS w2
      in (q\<lparr>mReadPtr := None, mWritePtr := None, mRing := None\<rparr>, w3))"

definition init_event_flag ::
  "os \<Rightarrow> MQDescriptor \<Rightarrow> MessageQueue \<Rightarrow> world \<Rightarrow> (MessageQueue \<times> world) option" where
  "init_event_flag os d q w =
     (if EVFLAGWORDPOS < countGrantors d
      then (case mapGrantorDescr os (flavor q) d EVFLAGWORDPOS w of
              (None, w1) \<Rightarrow> Some (init_error os d (q\<lparr>mEvFlagWord := None\<rparr>) w1)
            | (Some p, w1) \<Rightarrow> do {
                (st, ef, w2) \<leftarrow> createEventFlag os (Some p) True (mEventFlag q) w1;
                Some (q\<lparr>mEvFlagWord := Some p, mEventFlag := ef\<rparr>, w2)
              })
      else Some (q, w))"

definition reset_counters :: "MessageQueue \<Rightarrow> bool \<Rightarrow> ptr \<Rightarrow> ptr \<Rightarrow> mem \<Rightarrow> mem" where
  "reset_counters q resetPointers rp wp m =
     (if resetPointers then store64 (store64 m rp 0) wp 0
      else if flavor q \<noteq> kSynchronizedReadWrite then store64 m rp 0 else m)"

definition initMemory :: "os \<Rightarrow> bool \<Rightarrow> MessageQueue \<Rightarrow> world \<Rightarrow> (MessageQueue \<times> world) option" where
  "initMemory os resetPointers q w =
     (case mDesc q of
        None \<Rightarrow> Some (q, w)
      | Some d \<Rightarrow>
          if \<not> isHandleValid d \<or> countGrantors d < kMinGrantorCount then Some (q, w)
          else if getQuantum d \<noteq> sizeofT q then Some (q, w)
          else
            (case (if flavor q = kSynchronizedReadWrite
                   then mapGrantorDescr os (flavor q) d READPTRPOS w
                   else new_counter os w) of
               (None, w1) \<Rightarrow> Some (init_error os d (q\<lparr>mReadPtr := None\<rparr>) w1)
             | (Some rp, w1) \<Rightarrow>
                 let q1 = q\<lparr>mReadPtr := Some rp\<rparr>
                 in (case mapGrantorDescr os (flavor q) d WRITEPTRPOS w1 of
                       (None, w2) \<Rightarrow> Some (init_error os d (q1\<lparr>mWritePtr := None\<rparr>) w2)
                     | (Some wp, w2) \<Rightarrow>
                         let q2 = q1\<lparr>mWritePtr := Some wp\<rparr>;
                             w3 = w2\<lparr>wmem := reset_counters q resetPointers rp wp (wmem w2)\<rparr>
                         in (case mapGrantorDescr os (flavor q) d DATAPTRPOS w3 of
                               (None, w4) \<Rightarrow> Some (init_error os d (q2\<lparr>mRing := None\<rparr>) w4)
                             | (Some ring, w4) \<Rightarrow>
                                 init_event_flag os d (q2\<lparr>mRing := Some ring\<rparr>) w4))))"

section \<open>The descriptor type\<close>

text \<open>
  The template argument \<open>MQDescriptorType\<close>: what \<open>MessageQueueBase\<close> calls of its descriptor besides the
  accessors. For the AIDL queue it is the shim; for the HIDL queue it is a type of another
  repository, a parameter.
\<close>

record descriptor_type =
  desc_copy :: "os \<Rightarrow> MQFlavor \<Rightarrow> MQDescriptor \<Rightarrow> world \<Rightarrow> (MQDescriptor \<times> world) option"
  desc_of_grantors :: "MQFlavor \<Rightarrow> GrantorDescriptor list \<Rightarrow> native_handle option \<Rightarrow> u64 \<Rightarrow> MQDescriptor"
  desc_of_size :: "MQFlavor \<Rightarrow> u64 \<Rightarrow> native_handle option \<Rightarrow> u64 \<Rightarrow> bool \<Rightarrow> MQDescriptor option"
  desc_destroy :: "os \<Rightarrow> MQDescriptor \<Rightarrow> world \<Rightarrow> world"

definition Shim :: descriptor_type where
  "Shim = \<lparr>desc_copy = shim_copy, desc_of_grantors = shim_of_grantors, desc_of_size = shim_of_size,
     desc_destroy = shim_destroy\<rparr>"

lemma Shim_simps [simp]:
  "desc_copy Shim = shim_copy" "desc_of_grantors Shim = shim_of_grantors"
  "desc_of_size Shim = shim_of_size" "desc_destroy Shim = shim_destroy"
  by (simp_all add: Shim_def)

section \<open>Constructors and destructor\<close>

definition blank_queue :: "MQFlavor \<Rightarrow> u64 \<Rightarrow> MessageQueue" where
  "blank_queue fl sz = \<lparr>sizeofT = sz, flavor = fl, mDesc = None, mRing = None, mReadPtr = None,
     mWritePtr = None, mEvFlagWord = None, mEventFlag = None\<rparr>"

text \<open>\<open>new (std::nothrow) Descriptor(...)\<close>: null when the allocation fails.\<close>

definition new_descriptor ::
  "os \<Rightarrow> (world \<Rightarrow> (MQDescriptor \<times> world) option) \<Rightarrow> world \<Rightarrow> (MQDescriptor option \<times> world) option" where
  "new_descriptor os construct w =
     (case sys_new os w of
        (None, w1) \<Rightarrow> Some (None, w1)
      | (Some k, w1) \<Rightarrow> do { (d, w2) \<leftarrow> construct w1; Some (Some d, w2) })"

definition MessageQueueBase_of_desc ::
  "descriptor_type \<Rightarrow> os \<Rightarrow> MQFlavor \<Rightarrow> u64 \<Rightarrow> MQDescriptor \<Rightarrow> bool \<Rightarrow> world \<Rightarrow> (MessageQueue \<times> world) option" where
  "MessageQueueBase_of_desc D os fl sz Desc resetPointers w = do {
     (md, w1) \<leftarrow> new_descriptor os (desc_copy D os fl Desc) w;
     let q = (blank_queue fl sz)\<lparr>mDesc := md\<rparr>;
     (case md of
        None \<Rightarrow> Some (q, w1)
      | Some d \<Rightarrow> if getSize d = 0 then Some (q, w1) else initMemory os resetPointers q w1)
   }"

text \<open>The grantors for a ring buffer in the caller's file: the data grantor is alone in file 1.\<close>

fun layout_user_file :: "nat \<Rightarrow> u64 list \<Rightarrow> u64 \<Rightarrow> GrantorDescriptor list option" where
  "layout_user_file grantorPos [] off = Some []"
| "layout_user_file grantorPos (sz # szs) off = do {
     let isData = (grantorPos = DATAPTRPOS);
     a \<leftarrow> alignToWordBoundary (if isData then 0 else off);
     gs \<leftarrow> layout_user_file (Suc grantorPos) szs (if isData then off else off + sz);
     Some (\<lparr>flags = 0, fdIndex = (if isData then 1 else 0), offset = ucast a, extent = sz\<rparr> # gs)
   }"

definition pageAlign :: "os \<Rightarrow> u64 \<Rightarrow> u64" where
  "pageAlign os n = (n + os_pagesize os - 1) AND NOT (os_pagesize os - 1)"

definition ashmemSize :: "os \<Rightarrow> u64 \<Rightarrow> bool \<Rightarrow> bool \<Rightarrow> u64 option" where
  "ashmemSize os kQueueSizeBytes configureEventFlagWord userFile = do {
     let kMetaDataSize = 2 * sizeofRingBufferPosition +
           (if configureEventFlagWord then sizeofEvFlagWord else 0);
     if userFile then Some (pageAlign os kMetaDataSize) else do {
       a \<leftarrow> alignToWordBoundary kQueueSizeBytes;
       Some (pageAlign os (a + kMetaDataSize))
     }
   }"

definition sys_ashmem :: "os \<Rightarrow> u64 \<Rightarrow> world \<Rightarrow> int \<times> world" where
  "sys_ashmem os sz w = (let fd = os_ashmem os (hist w) sz in (fd, ran os (EvAshmem sz fd) w))"

text \<open>The three tests at the beginning of the constructor.\<close>

definition size_refused :: "u64 \<Rightarrow> u64 \<Rightarrow> int \<Rightarrow> u64 \<Rightarrow> bool option" where
  "size_refused sz numElementsInQueue bufferFd bufferSize = do {
     limit \<leftarrow> checked_div SIZE_MAX sz;
     Some (numElementsInQueue > limit \<or> numElementsInQueue = 0 \<or>
       (bufferFd \<noteq> - 1 \<and> numElementsInQueue * sz > bufferSize))
   }"

text \<open>The descriptor for the caller's file, or for the library's own.\<close>

definition queue_descriptor ::
  "descriptor_type \<Rightarrow> MQFlavor \<Rightarrow> u64 \<Rightarrow> u64 \<Rightarrow> bool \<Rightarrow> bool \<Rightarrow> native_handle \<Rightarrow> MQDescriptor option"
where
  "queue_descriptor D fl sz kQueueSizeBytes configureEventFlagWord userFile h =
     (if userFile
      then map_option (\<lambda>gs. desc_of_grantors D fl gs (Some h) sz)
        (layout_user_file 0
          (take (if configureEventFlagWord then kMinGrantorCountForEvFlagSupport else kMinGrantorCount)
            [sizeofRingBufferPosition, sizeofRingBufferPosition, kQueueSizeBytes, sizeofEvFlagWord]) 0)
      else desc_of_size D fl kQueueSizeBytes (Some h) sz configureEventFlagWord)"

text \<open>The native handle with the new file and, when there is one, the caller's.\<close>

definition queue_handle :: "os \<Rightarrow> u64 \<Rightarrow> int \<Rightarrow> world \<Rightarrow> native_handle option \<times> world" where
  "queue_handle os ashSize bufferFd w =
     (case native_handle_create os (if bufferFd \<noteq> - 1 then 2 else 1) 0 w of
        (None, w1) \<Rightarrow> (None, w1)
      | (Some h, w1) \<Rightarrow>
          (case sys_ashmem os ashSize w1 of (ashmemFd, w2) \<Rightarrow>
             (Some (h\<lparr>data := ashmemFd # (if bufferFd \<noteq> - 1 then [bufferFd] else [])\<rparr>), w2)))"

text \<open>
  The file of the caller is released to the handle (\<open>bufferFd.release()\<close>); a return before that closes it.
\<close>

definition MessageQueueBase_of_size ::
  "descriptor_type \<Rightarrow> os \<Rightarrow> MQFlavor \<Rightarrow> u64 \<Rightarrow> u64 \<Rightarrow> bool \<Rightarrow> int \<Rightarrow> u64 \<Rightarrow> world \<Rightarrow> (MessageQueue \<times> world) option" where
  "MessageQueueBase_of_size D os fl sz numElementsInQueue configureEventFlagWord bufferFd bufferSize w = do {
     let q = blank_queue fl sz;
     refused \<leftarrow> size_refused sz numElementsInQueue bufferFd bufferSize;
     if refused then Some (q, sys_close os bufferFd w) else do {
       let kQueueSizeBytes = numElementsInQueue * sz;
       ashSize \<leftarrow> ashmemSize os kQueueSizeBytes configureEventFlagWord (bufferFd \<noteq> - 1);
       (case queue_handle os ashSize bufferFd w of
          (None, w1) \<Rightarrow> Some (q, sys_close os bufferFd w1)
        | (Some h, w1) \<Rightarrow> do {
            (md, w2) \<leftarrow> new_descriptor os (\<lambda>u. map_option (\<lambda>d. (d, u))
              (queue_descriptor D fl sz kQueueSizeBytes configureEventFlagWord (bufferFd \<noteq> - 1) h)) w1;
            (case md of
               None \<Rightarrow> Some (q, native_handle_close os h w2)
             | Some d \<Rightarrow> initMemory os True (q\<lparr>mDesc := Some d\<rparr>) w2)
          })
     }
   }"

definition MessageQueueBase_destroy ::
  "descriptor_type \<Rightarrow> os \<Rightarrow> MessageQueue \<Rightarrow> world \<Rightarrow> world option" where
  "MessageQueueBase_destroy D os q w =
     (case mDesc q of
        None \<Rightarrow>
          if (flavor q = kSynchronizedReadWrite \<and> mReadPtr q \<noteq> None) \<or> mWritePtr q \<noteq> None \<or>
            mRing q \<noteq> None \<or> mEvFlagWord q \<noteq> None then None
          else Some (delete_counter os (mReadPtr q) w)
      | Some d \<Rightarrow> do {
          let w1 = release_read os d q w;
          let w2 = unmapGrantorDescr os d (mWritePtr q) WRITEPTRPOS w1;
          let w3 = unmapGrantorDescr os d (mRing q) DATAPTRPOS w2;
          w5 \<leftarrow> (if mEvFlagWord q = None then Some w3 else do {
                  let w4 = unmapGrantorDescr os d (mEvFlagWord q) EVFLAGWORDPOS w3;
                  (st, ef, u) \<leftarrow> deleteEventFlag os (mEventFlag q) w4;
                  Some u
                });
          Some (desc_destroy D os d w5)
        })"

end
