(* ===== verification/AidlMessageQueue.thy ===== *)
theory AidlMessageQueue
  imports MessageQueueInit
begin

text \<open>
  Model of include/fmq/AidlMessageQueue.h and include/fmq/ConvertMQDescriptors.h: the constructors,
  the AIDL descriptor of a queue for another process, and the conversion of a HIDL descriptor. A HIDL
  descriptor is read only through the accessors it shares with the shim, so it is an
  \<open>MQDescriptor\<close> here.
\<close>

section \<open>Construction\<close>

text \<open>The flavor types of AIDL and their value; the constructors pass their arguments on.\<close>

datatype AidlFlavor = SynchronizedReadWrite | UnsynchronizedWrite

fun FlavorTypeToValue :: "AidlFlavor \<Rightarrow> MQFlavor" where
  "FlavorTypeToValue SynchronizedReadWrite = kSynchronizedReadWrite"
| "FlavorTypeToValue UnsynchronizedWrite = kUnsynchronizedWrite"

text \<open>The shim made from the AIDL descriptor is a temporary: it is destroyed after the call.\<close>

definition AidlMessageQueue_of_desc ::
  "os \<Rightarrow> AidlFlavor \<Rightarrow> u64 \<Rightarrow> AidlMQDescriptor \<Rightarrow> bool \<Rightarrow> world \<Rightarrow> (MessageQueue \<times> world) option" where
  "AidlMessageQueue_of_desc os U sz desc resetPointers w = do {
     let (shim, w1) = shim_of_desc os desc w;
     (q, w2) \<leftarrow> MessageQueueBase_of_desc Shim os (FlavorTypeToValue U) sz shim resetPointers w1;
     Some (q, shim_destroy os shim w2)
   }"

definition AidlMessageQueue_of_size ::
  "os \<Rightarrow> AidlFlavor \<Rightarrow> u64 \<Rightarrow> u64 \<Rightarrow> bool \<Rightarrow> int \<Rightarrow> u64 \<Rightarrow> world \<Rightarrow> (MessageQueue \<times> world) option"
where
  "AidlMessageQueue_of_size os U sz numElementsInQueue configureEventFlagWord bufferFd bufferSize w =
     MessageQueueBase_of_size Shim os (FlavorTypeToValue U) sz numElementsInQueue configureEventFlagWord
       bufferFd bufferSize w"

section \<open>The descriptor for another process\<close>

definition dupe_grantor :: "GrantorDescriptor \<Rightarrow> AidlGrantorDescriptor" where
  "dupe_grantor g = \<lparr>a_fdIndex = fdIndex g, a_offset = offset g, a_extent = extent g\<rparr>"

definition dupeDesc :: "os \<Rightarrow> MQDescriptor option \<Rightarrow> world \<Rightarrow> (AidlMQDescriptor \<times> world) option" where
  "dupeDesc os desc w =
     (case desc of
        None \<Rightarrow> Some (\<lparr>a_grantors = [], a_fds = [], a_ints = [], a_quantum = 0, a_flags = 0\<rparr>, w)
      | Some shim \<Rightarrow> do {
          h \<leftarrow> mHandle shim;
          let (fds, w1) = dup_all os (handle_fds h) w;
          Some (\<lparr>a_grantors = map dupe_grantor (mGrantors shim), a_fds = fds,
                 a_ints = handle_ints h, a_quantum = ucast (getQuantum shim),
                 a_flags = getFlags shim\<rparr>, w1)
        })"

section \<open>HIDL to AIDL\<close>

text \<open>
  The loop over the grantors appends to the destination and stops at the first bad one. The
  test of \<open>fdIndex\<close> widens the unsigned value to 64 bits first.
\<close>

fun convert_grantors ::
  "GrantorDescriptor list \<Rightarrow> AidlGrantorDescriptor list \<Rightarrow> bool \<times> AidlGrantorDescriptor list" where
  "convert_grantors [] out = (True, out)"
| "convert_grantors (g # gs) out =
     (if sint (offset g) < 0 \<or> sint (extent g) < 0 \<or> sint (ucast (fdIndex g) :: i64) < 0
      then (False, out)
      else convert_grantors gs (out @ [dupe_grantor g]))"

definition unsafeHidlToAidlMQDescriptor ::
  "MQFlavor \<Rightarrow> os \<Rightarrow> MQDescriptor \<Rightarrow> AidlMQDescriptor \<Rightarrow> world \<Rightarrow>
   (bool \<times> AidlMQDescriptor \<times> world) option" where
  "unsafeHidlToAidlMQDescriptor fl os hidlDesc aidlDesc w =
     (if a_grantors aidlDesc \<noteq> [] then Some (False, aidlDesc, w) else
        (case convert_grantors (mGrantors hidlDesc) (a_grantors aidlDesc) of (ok, gs) \<Rightarrow>
           let d1 = aidlDesc\<lparr>a_grantors := gs\<rparr>
           in if \<not> ok then Some (False, d1, w) else do {
             h \<leftarrow> mHandle hidlDesc;
             let (fds, w1) = dup_all os (handle_fds h) w;
             let d2 = d1\<lparr>a_fds := fds, a_ints := handle_ints h\<rparr>;
             if sint (ucast (getQuantum hidlDesc) :: i32) < 0 \<or> sint (getFlags hidlDesc) < 0
             then Some (False, d2, w1)
             else if getFlags hidlDesc \<noteq> flavor_value fl then Some (False, d2, w1)
             else Some (True, d2\<lparr>a_quantum := ucast (getQuantum hidlDesc),
                                a_flags := getFlags hidlDesc\<rparr>, w1)
           }))"

end
