(* ===== verification/AidlDescriptorProps.thy ===== *)
theory AidlDescriptorProps
  imports AidlMessageQueue
begin

text \<open>
  What the descriptors promise: the layout computed for one file consists of aligned grantors
  that do not overlap, a descriptor survives the trip to another process, and every copy owns
  descriptors of its own that are closed exactly once.
\<close>

section \<open>The layout in one file\<close>

lemma ucast_ucast_up [simp]: "(ucast (ucast (x :: u32) :: u64) :: u32) = x"
  by (simp add: unsigned_ucast_eq bit_eq_iff bit_simps)

lemma ucast32_unat: "unat (x :: u64) < 2 ^ 32 \<Longrightarrow> unat (ucast x :: u32) = unat x"
  by (simp add: unsigned_ucast_eq take_bit_nat_eq_self)

lemma ucast64_unat: "unat (ucast (x :: u32) :: u64) = unat x"
proof -
  have "unat x < 2 ^ 64" using unsigned_less [of x] by (rule less_le_trans) simp
  then show ?thesis by (simp add: unsigned_ucast_eq take_bit_nat_eq_self)
qed

lemma ucast_small: "unat (z :: u64) \<le> 2147483647 \<Longrightarrow> ucast (ucast z :: u32) = z"
  using u64_eq_of_nat [of "ucast (ucast z :: u32)" "unat z"] u64_eq_of_nat [of z "unat z"]
  by (simp add: ucast64_unat ucast32_unat)

lemma round_up_16: "(x + 23) div 8 * 8 = 16 + (x + 7) div 8 * (8 :: nat)"
  by presburger

definition size_layout :: "u64 \<Rightarrow> bool \<Rightarrow> GrantorDescriptor list" where
  "size_layout bufferSize configureEventFlag =
     [\<lparr>flags = 0, fdIndex = 0, offset = 0, extent = 8\<rparr>,
      \<lparr>flags = 0, fdIndex = 0, offset = 8, extent = 8\<rparr>,
      \<lparr>flags = 0, fdIndex = 0, offset = 16, extent = bufferSize\<rparr>] @
     (if configureEventFlag
      then [\<lparr>flags = 0, fdIndex = 0, offset = of_nat ((unat bufferSize + 23) div 8 * 8), extent = 4\<rparr>]
      else [])"

lemma sum16: "unat S \<le> 2 ^ 64 - 17 \<Longrightarrow> unat (16 + S :: u64) = unat S + 16"
  by (simp add: unat_add_no_wrap)

lemma sum16_wraps:
  assumes "2 ^ 64 - 17 < unat (S :: u64)"
  shows "unat (16 + S) < 16"
proof -
  have "unat S < 2 ^ 64" by (rule unat64_less)
  moreover have "2 ^ 64 \<le> 16 + unat S" using assms by simp
  ultimately show ?thesis by (simp add: unat_word_ariths le_mod_geq)
qed

lemma round_up_bounds: "x \<le> (x + 7) div 8 * 8" "(x + 7) div 8 * 8 < x + (8::nat)"
  by simp_all

lemma align_small: "alignToWordBoundary 0 = Some 0" "alignToWordBoundary 8 = Some 8"
  "alignToWordBoundary 16 = Some 16"
  by (simp_all add: alignToWordBoundary_def check_def kAlignmentSize_def SIZE_MAX_def)

lemma ucast_of_nat_32: "(ucast (of_nat n :: u64) :: u32) = of_nat n"
  by (simp add: bit_eq_iff bit_simps)

lemma layout_size:
  assumes "(unat S + 23) div 8 * 8 \<le> 2147483647"
  shows "layout_grantors (take (if ev then kMinGrantorCountForEvFlagSupport else kMinGrantorCount)
     [sizeofRingBufferPosition, sizeofRingBufferPosition, S, sizeofEvFlagWord]) 0 =
    Some (size_layout S ev)"
proof -
  have "unat S + 16 \<le> 2 ^ 64 - 8" using assms round_up_bounds(1) [of "unat S + 16"] by simp
  then have "alignToWordBoundary (16 + S) = Some (of_nat ((unat S + 23) div 8 * 8))"
    by (simp add: alignToWordBoundary_eq sum16 add.commute [of "23::nat"])
  then show ?thesis
    by (simp add: size_layout_def align_small kMinGrantorCount_def
        kMinGrantorCountForEvFlagSupport_def ucast_of_nat_32 del: of_nat_mult)
qed

lemma shim_of_size_eq:
  "shim_of_size fl S h z ev =
     (if 2 ^ 64 - 24 < unat S \<and> unat S \<le> 2 ^ 64 - 17 then None
      else Some \<lparr>mGrantors =
          (if (unat S + 23) div 8 * 8 \<le> 2147483647 \<and> unat z \<le> 2147483647
           then size_layout S ev else []),
        mHandle = h, mQuantum = ucast z, mFlags = flavor_value fl\<rparr>)"
proof -
  have ov: "S > SIZE_MAX - 16 \<longleftrightarrow> 2 ^ 64 - 17 < unat S"
    by (simp add: SIZE_MAX_def word_less_nat_alt)
  have lim: "x > INT32_MAX \<longleftrightarrow> 2147483647 < unat x" for x
    by (simp add: INT32_MAX_def word_less_nat_alt)
  consider (wrap) "2 ^ 64 - 17 < unat S" | (abort) "2 ^ 64 - 24 < unat S" "unat S \<le> 2 ^ 64 - 17"
    | (fine) "unat S \<le> 2 ^ 64 - 24" by linarith
  then show ?thesis
  proof cases
    case wrap
    then have "unat (16 + S) \<le> 2 ^ 64 - 8" using sum16_wraps by fastforce
    then have "alignToWordBoundary (16 + S) \<noteq> None" by (simp add: alignToWordBoundary_eq)
    moreover have "\<not> (unat S + 23) div 8 * 8 \<le> 2147483647"
      using wrap round_up_bounds(1) [of "unat S + 16"] by simp
    ultimately show ?thesis
      using wrap by (auto simp: shim_of_size_def ov Let_def)
  next
    case abort
    then have "alignToWordBoundary (16 + S) = None" by (simp add: alignToWordBoundary_eq sum16)
    then show ?thesis using abort by (simp add: shim_of_size_def)
  next
    case fine
    then obtain a where a: "alignToWordBoundary (16 + S) = Some a"
      by (simp add: alignToWordBoundary_eq sum16)
    then have "unat a = (unat S + 23) div 8 * 8"
      using alignToWordBoundary_unat [OF a] fine by (simp add: sum16 add.assoc)
    then show ?thesis
      using fine a layout_size [of S ev] by (auto simp: shim_of_size_def ov lim not_less Let_def)
  qed
qed

lemma flag_offset_unat:
  assumes "(unat S + 23) div 8 * 8 \<le> 2147483647"
  shows "unat (of_nat ((unat (S :: u64) + 23) div 8 * 8) :: u32) = (unat S + 23) div 8 * 8"
proof -
  have "(unat S + 23) div 8 * 8 < 2 ^ LENGTH(32)" using assms by simp
  then show ?thesis by (simp only: unat_of_nat mod_less)
qed

text \<open>
  C27. The layout the library computes for one file: three grantors, or four with an event flag,
  whose offsets are word aligned and were not truncated, which follow each other without an
  overlap and end within what is allocated for them; size, quantum and flags are the ones
  asked for.
\<close>

theorem single_file_layout:
  assumes "shim_of_size fl S h z ev = Some d" and "mGrantors d \<noteq> []"
  shows "length (mGrantors d) = (if ev then 4 else 3) \<and> getSize d = S \<and> getQuantum d = z \<and>
    getFlags d = flavor_value fl \<and>
    (\<forall>g \<in> set (mGrantors d). fdIndex g = 0 \<and> isAlignedToWordBoundary (ucast (offset g)) \<and>
      unat (offset g) + unat (extent g) \<le> 16 + (unat S + 7) div 8 * 8 + (if ev then 4 else 0)) \<and>
    sorted_wrt (\<lambda>g g'. unat (offset g) + unat (extent g) \<le> unat (offset g')) (mGrantors d)"
proof -
  from assms have le: "(unat S + 23) div 8 * 8 \<le> 2147483647" and z: "unat z \<le> 2147483647"
    and d: "d = \<lparr>mGrantors = size_layout S ev, mHandle = h, mQuantum = ucast z,
      mFlags = flavor_value fl\<rparr>"
    by (auto simp: shim_of_size_eq split: if_splits)
  let ?o = "of_nat ((unat S + 23) div 8 * 8) :: u32"
  have o: "unat ?o = (unat S + 23) div 8 * 8" by (rule flag_offset_unat [OF le])
  have al: "isAlignedToWordBoundary (ucast ?o)"
    by (simp only: isAligned_iff ucast64_unat o) simp
  have "(ucast (ucast z :: u32) :: u64) = z"
    by (rule ucast_small [OF z])
  moreover have ov: "unat ?o = 16 + (unat S + 7) div 8 * 8" using o by (rule trans) (rule round_up_16)
  moreover have "unat S + 16 \<le> unat ?o"
    using round_up_bounds(1) [of "unat S"] unfolding ov by linarith
  ultimately show ?thesis
    using al
    by (auto simp: d size_layout_def getSize_def getQuantum_def getFlags_def isAligned_iff
        simp del: of_nat_mult)
qed

text \<open>
  C28. A size is refused, with an empty grantor list, exactly when the event flag word would lie
  beyond the largest 32-bit signed offset or the message size is not such a number; there are
  seven sizes just below the overflow limit for which the process is aborted instead.
\<close>

theorem single_file_limits:
  "case shim_of_size fl S h z ev of
     None \<Rightarrow> unat S \<in> {2 ^ 64 - 23 .. 2 ^ 64 - 17}
   | Some d \<Rightarrow> unat S \<notin> {2 ^ 64 - 23 .. 2 ^ 64 - 17} \<and>
      (mGrantors d \<noteq> [] \<longleftrightarrow> 16 + (unat S + 7) div 8 * 8 \<le> 2147483647 \<and> unat z \<le> 2147483647)"
  by (auto simp: shim_of_size_eq size_layout_def round_up_16)

section \<open>Handles\<close>

text \<open>A handle holds as many descriptors and integers as it says.\<close>

definition handle_wf :: "native_handle \<Rightarrow> bool" where
  "handle_wf h \<longleftrightarrow> 0 \<le> numFds h \<and> 0 \<le> numInts h \<and> length (data h) = nat (numFds h) + nat (numInts h)"

text \<open>\<open>dup\<close> gives a descriptor of the same open file.\<close>

definition dup_same_file :: "os \<Rightarrow> (int \<Rightarrow> 'f) \<Rightarrow> bool" where
  "dup_same_file os file \<longleftrightarrow> (\<forall>h fd. file (os_dup os h fd) = file fd)"

text \<open>The descriptors a history has opened and closed.\<close>

fun opened :: "history \<Rightarrow> int multiset" where
  "opened [] = {#}"
| "opened (EvDup fd r # h) = add_mset r (opened h)"
| "opened (e # h) = opened h"

fun closed :: "history \<Rightarrow> int multiset" where
  "closed [] = {#}"
| "closed (EvHandleClose fds # h) = mset fds + closed h"
| "closed (EvClose fd # h) = add_mset fd (closed h)"
| "closed (e # h) = closed h"

lemma dup_all_result:
  assumes "dup_all os fds w = (rs, w')"
  shows "length rs = length fds" "opened (hist w') = mset rs + opened (hist w)"
    "closed (hist w') = closed (hist w)" "dup_same_file os file \<Longrightarrow> map file rs = map file fds"
  using assms
  by (induction fds arbitrary: w rs)
    (auto simp: Let_def dup_same_file_def split: prod.splits)

definition handles_available :: "os \<Rightarrow> bool" where
  "handles_available os \<longleftrightarrow> (\<forall>h nf ni. os_handleCreate os h nf ni)"

text \<open>A new handle filled with duplicates of the descriptors and the integers of another.\<close>

definition same_handle :: "(int \<Rightarrow> 'f) \<Rightarrow> native_handle \<Rightarrow> native_handle \<Rightarrow> bool" where
  "same_handle file h h' \<longleftrightarrow> handle_wf h' \<and> numFds h' = numFds h \<and> numInts h' = numInts h \<and>
     map file (handle_fds h') = map file (handle_fds h) \<and> handle_ints h' = handle_ints h"

lemma handle_lengths:
  assumes "handle_wf h"
  shows "length (handle_fds h) = nat (numFds h)" "length (handle_ints h) = nat (numInts h)"
    "0 \<le> numFds h" "0 \<le> numInts h"
  using assms by (auto simp: handle_wf_def handle_fds_def handle_ints_def)

lemma filled_handle:
  assumes "handle_wf h" and "dup_same_file os file"
    and "dup_all os (handle_fds h) w = (fds, w')"
    and "nh = \<lparr>numFds = numFds h, numInts = numInts h, data = fds @ handle_ints h\<rparr>"
  shows "same_handle file h nh" "handle_fds nh = fds"
  using dup_all_result [OF assms(3)] assms(2) handle_lengths [OF assms(1)]
  by (auto simp: assms(4) same_handle_def handle_wf_def handle_fds_def handle_ints_def)

section \<open>Copies\<close>

text \<open>
  Assignment makes an independent copy: grantors, quantum, flags and integers are those of the
  other descriptor, the file descriptors are fresh duplicates of the same files; the old ones
  are closed, and destroying the copy closes exactly the ones that were opened for it.
\<close>

theorem assignment_copies:
  assumes oh: "mHandle other = Some oh" "handle_wf oh" and os: "handles_available os"
    "dup_same_file os file"
  shows "\<exists>d nh w'. shim_assign os this other w = Some (d, w') \<and>
    mGrantors d = mGrantors other \<and> mQuantum d = mQuantum other \<and> mFlags d = mFlags other \<and>
    mHandle d = Some nh \<and> same_handle file oh nh \<and>
    opened (hist w') = mset (handle_fds nh) + opened (hist w) \<and>
    closed (hist w') =
      (case mHandle this of None \<Rightarrow> {#} | Some h \<Rightarrow> mset (handle_fds h)) + closed (hist w) \<and>
    closed (hist (shim_destroy os d w')) = mset (handle_fds nh) + closed (hist w')"
proof -
  define w1 where "w1 = (case mHandle this of None \<Rightarrow> w | Some h \<Rightarrow> native_handle_close os h w)"
  let ?w2 = "ran os (EvHandleCreate (numFds oh) (numInts oh) True) w1"
  obtain fds w3 where dup: "dup_all os (handle_fds oh) ?w2 = (fds, w3)" by fastforce
  let ?nh = "\<lparr>numFds = numFds oh, numInts = numInts oh, data = fds @ handle_ints oh\<rparr>"
  let ?d = "\<lparr>mGrantors = mGrantors other, mHandle = Some ?nh, mQuantum = mQuantum other,
    mFlags = mFlags other\<rparr>"
  have same: "same_handle file oh ?nh" "handle_fds ?nh = fds"
    using filled_handle [OF oh(2) os(2) dup] by blast+
  have eq: "shim_assign os this other w = Some (?d, w3)"
    using oh(1) os(1) dup
    by (simp add: shim_assign_def Let_def native_handle_create_def handles_available_def flip: w1_def)
  have "opened (hist w1) = opened (hist w)"
    "closed (hist w1) = (case mHandle this of None \<Rightarrow> {#} | Some h \<Rightarrow> mset (handle_fds h)) + closed (hist w)"
    by (auto simp: w1_def native_handle_close_def split: option.splits)
  then show ?thesis
    using same dup_all_result [OF dup]
    by (intro exI [of _ ?d] exI [of _ ?nh] exI [of _ w3])
      (simp add: eq shim_destroy_def native_handle_close_def)
qed

section \<open>The trip to another process\<close>

text \<open>A descriptor AIDL can express: every value fits into its signed integers.\<close>

definition aidl_range :: "MQDescriptor \<Rightarrow> bool" where
  "aidl_range d \<longleftrightarrow> 0 \<le> sint (mQuantum d) \<and> 0 \<le> sint (mFlags d) \<and>
     (\<forall>g \<in> set (mGrantors d). flags g = 0 \<and> 0 \<le> sint (fdIndex g) \<and> 0 \<le> sint (offset g) \<and>
        0 \<le> sint (extent g))"

lemma fill_dupe:
  assumes "\<forall>g \<in> set gs. flags g = 0 \<and> 0 \<le> sint (fdIndex g) \<and> 0 \<le> sint (offset g) \<and> 0 \<le> sint (extent g)"
  shows "fill_grantors (map dupe_grantor gs) = (gs, True)"
  using assms by (induction gs) (auto simp: dupe_grantor_def not_less)

text \<open>
  C30. A queue's descriptor survives the trip to another process: \<open>dupeDesc\<close> followed by the
  construction of a shim from the AIDL descriptor gives the same grantors, quantum, flags and
  integers, and file descriptors of the same files.
\<close>

theorem dupeDesc_round_trip:
  assumes h: "mHandle d = Some h" "handle_wf h" and rng: "aidl_range d"
    and os: "handles_available os" "dup_same_file os file"
  shows "\<exists>a w1 d' w2 h'. dupeDesc os (Some d) w = Some (a, w1) \<and> shim_of_desc os a w1 = (d', w2) \<and>
    mGrantors d' = mGrantors d \<and> mQuantum d' = mQuantum d \<and> mFlags d' = mFlags d \<and>
    mHandle d' = Some h' \<and> same_handle file h h'"
proof -
  obtain fds w1 where d1: "dup_all os (handle_fds h) w = (fds, w1)" by fastforce
  let ?a = "\<lparr>a_grantors = map dupe_grantor (mGrantors d), a_fds = fds, a_ints = handle_ints h,
    a_quantum = mQuantum d, a_flags = mFlags d\<rparr>"
  let ?w2 = "ran os (EvHandleCreate (int (length fds)) (int (length (handle_ints h))) True) w1"
  obtain fds2 w2 where d2: "dup_all os fds ?w2 = (fds2, w2)" by fastforce
  let ?h = "\<lparr>numFds = numFds h, numInts = numInts h, data = fds2 @ handle_ints h\<rparr>"
  let ?d = "\<lparr>mGrantors = mGrantors d, mHandle = Some ?h, mQuantum = mQuantum d, mFlags = mFlags d\<rparr>"
  note l = handle_lengths [OF h(2)]
  note r1 = dup_all_result(1,4) [OF d1] and r2 = dup_all_result(1,4) [OF d2]
  have "dupeDesc os (Some d) w = Some (?a, w1)"
    using h(1) d1 by (simp add: dupeDesc_def getQuantum_def getFlags_def)
  moreover have "shim_of_desc os ?a w1 = (?d, w2)"
    using rng os(1) d2 l r1(1) fill_dupe [of "mGrantors d"]
    by (simp add: shim_of_desc_def native_handle_create_def handles_available_def aidl_range_def
        not_less)
  moreover have "same_handle file h ?h"
    using l r1(1) r2(1) trans [OF r2(2) [OF os(2)] r1(2) [OF os(2)]]
    by (simp add: same_handle_def handle_wf_def handle_fds_def handle_ints_def)
  ultimately show ?thesis by (auto intro!: exI)
qed

lemma fill_grantors_ok:
  assumes "fill_grantors as = (gs, True)"
  shows "as = map dupe_grantor gs \<and> (\<forall>g \<in> set gs. flags g = 0 \<and> 0 \<le> sint (fdIndex g) \<and>
    0 \<le> sint (offset g) \<and> 0 \<le> sint (extent g))"
  using assms
  by (induction as arbitrary: gs) (auto simp: dupe_grantor_def split: if_splits prod.splits)

lemma shim_of_desc_result:
  assumes "shim_of_desc os a w = (d, w')"
  shows "mQuantum d = a_quantum a \<and> mFlags d = a_flags a \<and>
    (if isHandleValid d
     then aidl_range d \<and> a_grantors a = map dupe_grantor (mGrantors d) \<and>
       (\<exists>h. mHandle d = Some h \<and> handle_wf h \<and> handle_ints h = a_ints a \<and>
         (dup_same_file os file \<longrightarrow> map file (handle_fds h) = map file (a_fds a)) \<and>
         opened (hist w') = mset (handle_fds h) + opened (hist w))
     else opened (hist w') = opened (hist w))"
proof -
  obtain gs ok where fill: "fill_grantors (a_grantors a) = (gs, ok)" by fastforce
  let ?n = "int (length (a_fds a))" and ?k = "int (length (a_ints a))"
  obtain fds w2 where dup: "dup_all os (a_fds a) (ran os (EvHandleCreate ?n ?k True) w) = (fds, w2)"
    by fastforce
  show ?thesis
  proof (cases "0 \<le> sint (a_quantum a) \<and> 0 \<le> sint (a_flags a) \<and> ok \<and> os_handleCreate os (hist w) ?n ?k")
    case True
    then show ?thesis
      using assms fill dup dup_all_result(1,2,4) [OF dup] fill_grantors_ok [of "a_grantors a" gs]
      by (auto simp: shim_of_desc_def native_handle_create_def isHandleValid_def aidl_range_def
          handle_wf_def handle_ints_def handle_fds_def not_less)
  next
    case False
    then show ?thesis
      using assms fill
      by (cases "ok"; cases "os_handleCreate os (hist w) ?n ?k")
        (auto simp: shim_of_desc_def native_handle_create_def isHandleValid_def Let_def
          split: if_splits)
  qed
qed

text \<open>
  C31. The constructor from an AIDL descriptor yields a valid handle only for a descriptor
  without negative values, and then takes every value over unchanged, with duplicates of the same files; a negative value or a
  failed allocation leaves the handle null, and no descriptor is duplicated.
\<close>

theorem shim_of_desc_checks:
  assumes "shim_of_desc os a w = (d, w')"
  shows "mQuantum d = a_quantum a \<and> mFlags d = a_flags a \<and>
    (if isHandleValid d
     then aidl_range d \<and> a_grantors a = map dupe_grantor (mGrantors d) \<and>
       (\<exists>h. mHandle d = Some h \<and> handle_wf h \<and> handle_ints h = a_ints a \<and>
         (dup_same_file os file \<longrightarrow> map file (handle_fds h) = map file (a_fds a)) \<and>
         opened (hist w') = mset (handle_fds h) + opened (hist w))
     else opened (hist w') = opened (hist w))"
  using assms by (rule shim_of_desc_result)

lemma convert_grantors_ok:
  assumes "convert_grantors gs out = (True, as)"
  shows "as = out @ map dupe_grantor gs \<and> (\<forall>g \<in> set gs. 0 \<le> sint (offset g) \<and> 0 \<le> sint (extent g))"
  using assms by (induction gs arbitrary: out) (simp, force split: if_splits)

text \<open>
  C32. A conversion from HIDL that succeeds has checked flags and ranges and copied every value:
  the destination, which was empty, describes the same queue. It has one file descriptor for each in the handle,
  in the same order: duplicates opened by the conversion, for the same files. One that fails reports it, and
  never touches quantum and flags.
\<close>

theorem hidl_conversion:
  assumes h: "mHandle hidl = Some h"
  shows "\<exists>ok a' w'. unsafeHidlToAidlMQDescriptor fl os hidl a w = Some (ok, a', w') \<and>
    (if ok
     then a_grantors a = [] \<and> a_grantors a' = map dupe_grantor (mGrantors hidl) \<and>
       (\<forall>g \<in> set (mGrantors hidl). 0 \<le> sint (offset g) \<and> 0 \<le> sint (extent g)) \<and>
       a_quantum a' = mQuantum hidl \<and> 0 \<le> sint (mQuantum hidl) \<and>
       a_flags a' = flavor_value fl \<and> mFlags hidl = flavor_value fl \<and> a_ints a' = handle_ints h \<and>
       opened (hist w') = mset (a_fds a') + opened (hist w) \<and>
       length (a_fds a') = length (handle_fds h) \<and>
       (\<forall>file :: int \<Rightarrow> nat. dup_same_file os file \<longrightarrow> map file (a_fds a') = map file (handle_fds h))
     else a_quantum a' = a_quantum a \<and> a_flags a' = a_flags a)"
proof -
  obtain ok gs where c: "convert_grantors (mGrantors hidl) (a_grantors a) = (ok, gs)" by fastforce
  obtain fds w1 where dup: "dup_all os (handle_fds h) w = (fds, w1)" by fastforce
  show ?thesis
  proof (cases "a_grantors a = [] \<and> ok")
    case True
    then show ?thesis
      using h c dup dup_all_result(1,2,4) [OF dup] convert_grantors_ok [of "mGrantors hidl" "[]" gs]
      by (auto simp: unsafeHidlToAidlMQDescriptor_def Let_def getQuantum_def getFlags_def not_less)
  next
    case False
    then show ?thesis using c by (auto simp: unsafeHidlToAidlMQDescriptor_def Let_def)
  qed
qed

end
