(* ===== verification/MessageQueueMapping.thy ===== *)
theory MessageQueueMapping
  imports MessageQueueInit AidlDescriptorProps
begin

text \<open>
  Mapping and unmapping of grantors: the address that \<open>mapGrantorDescr\<close> returns is the grantor's
  place in the mapped file, the mapping covers exactly the grantor, and \<open>unmapGrantorDescr\<close> with
  the same index undoes it. A ledger of the history counts the mappings made and undone.
\<close>

section \<open>The system\<close>

text \<open>
  What the code relies on of the system: pages are a power of two of at least eight bytes, and
  \<open>mmap\<close> refuses a negative offset.
\<close>

definition page :: "os \<Rightarrow> nat" where "page os = unat (os_pagesize os)"

definition system_ok :: "os \<Rightarrow> bool" where
  "system_ok os \<longleftrightarrow> (\<exists>k. 3 \<le> k \<and> k < 31 \<and> page os = 2 ^ k) \<and>
     (\<forall>h n rw fd off k. os_mmap os h n rw fd off = Inr k \<longrightarrow> 0 \<le> off)"

lemma system_okD:
  assumes "system_ok os"
  shows "0 < page os" "page os < 2 ^ 31" "os_mmap os h n rw fd off = Inr j \<Longrightarrow> 0 \<le> off" "8 dvd page os"
proof -
  from assms obtain k where k: "3 \<le> k" "k < 31" "page os = 2 ^ k" by (auto simp: system_ok_def)
  then show "0 < page os" by simp
  have "(2::nat) ^ k < 2 ^ 31" using k(2) by (rule power_strict_increasing) simp
  then show "page os < 2 ^ 31" using k(3) by simp
  have "(2::nat) ^ 3 dvd 2 ^ k" using k(1) by (rule le_imp_power_dvd)
  then show "8 dvd page os" using k(3) by simp
  show "os_mmap os h n rw fd off = Inr j \<Longrightarrow> 0 \<le> off"
    using assms unfolding system_ok_def by blast
qed

section \<open>Offsets and lengths as numbers\<close>

lemma mod_shift:
  assumes "0 \<le> u" and "u < 4294967296"
  shows "(u + 2147483648) mod 4294967296 = (if u < 2147483648 then u + 2147483648 else u - (2147483648 :: int))"
proof (cases "u < 2147483648")
  case True
  then show ?thesis using assms by (simp add: mod_pos_pos_trivial)
next
  case False
  have "(u + 2147483648) mod 4294967296 = (u - 2147483648 + 4294967296) mod 4294967296"
    by (simp add: algebra_simps)
  also have "\<dots> = (u - 2147483648) mod 4294967296" by (rule mod_add_self2)
  also have "\<dots> = u - 2147483648" using False assms by (intro mod_pos_pos_trivial) simp_all
  finally show ?thesis using False by simp
qed

lemma sint32: "sint (x :: i32) = (if unat x < 2 ^ 31 then int (unat x) else int (unat x) - 2 ^ 32)"
proof -
  define u where "u = int (unat x)"
  have lt: "0 \<le> u" "u < 4294967296" using uint_lt2p [of x] by (simp_all add: u_def)
  have "sint x = (u + 2147483648) mod 4294967296 - 2147483648"
    by (simp add: sint_uint signed_take_bit_eq_take_bit_shift take_bit_eq_mod u_def)
  moreover have "unat x < 2147483648 \<longleftrightarrow> u < 2147483648"
    unfolding u_def by (simp only: of_nat_less_numeral_iff)
  ultimately show ?thesis using mod_shift [OF lt] by (simp add: u_def)
qed

lemma mapOffset_unat:
  assumes "0 < page os"
  shows "unat (mapOffset os g) = unat (offset g) div page os * page os"
proof -
  let ?o = "unat (offset g)"
  have o: "?o < 2 ^ 32" using unsigned_less [of "offset g"] by simp
  have "?o div page os * page os \<le> ?o" by simp
  then have lt: "?o div page os * page os < 2 ^ 32" using o by linarith
  then have "unat ((ucast (offset g) :: u64) div os_pagesize os * os_pagesize os) =
      ?o div page os * page os"
    by (subst unat_mult_no_wrap) (simp_all add: unat_div ucast64_unat flip: page_def)
  then show ?thesis using lt by (simp add: mapOffset_def ucast32_unat)
qed

lemma offset_in_page:
  assumes "0 < page os"
  shows "unat (offset g - mapOffset os g) = unat (offset g) mod page os"
proof -
  have "mapOffset os g \<le> offset g"
    using mapOffset_unat [OF assms, of g] by (simp add: word_le_nat_alt)
  then show ?thesis by (simp add: unat_sub mapOffset_unat [OF assms] minus_div_mult_eq_mod)
qed

lemma extent_small:
  assumes "\<not> extent g > INT_MAX - os_pagesize os" and "page os < 2 ^ 31"
  shows "unat (extent g) + page os < 2 ^ 31"
proof -
  have "os_pagesize os \<le> INT_MAX" using assms(2) by (simp add: INT_MAX_def word_le_nat_alt page_def)
  then have "unat (INT_MAX - os_pagesize os) = 2147483647 - page os"
    by (simp add: unat_sub page_def INT_MAX_def)
  then show ?thesis using assms by (simp add: word_less_nat_alt)
qed

lemma mapLength_sint:
  assumes "0 < page os" and "unat (extent g) + page os < 2 ^ 31"
  shows "sint (mapLength os g) = int (unat (offset g) mod page os + unat (extent g))"
proof -
  have "unat (offset g) mod page os < page os" using assms(1) by simp
  then have lt: "unat (offset g) mod page os + unat (extent g) < 2 ^ 31" using assms(2) by linarith
  have "unat ((ucast (offset g - mapOffset os g) :: u64) + extent g) =
      unat (offset g) mod page os + unat (extent g)"
    using lt by (subst unat_add_no_wrap) (simp_all add: ucast64_unat offset_in_page [OF assms(1)])
  then have "unat (mapLength os g) = unat (offset g) mod page os + unat (extent g)"
    using lt by (simp add: mapLength_def ucast32_unat)
  then show ?thesis using lt by (simp add: sint32)
qed

section \<open>The ledger of mappings\<close>

type_synonym piece = "obj \<times> int \<times> int"

fun mapped :: "history \<Rightarrow> piece multiset" where
  "mapped [] = {#}"
| "mapped (EvMmap n rw fd off (Inr k) # h) = add_mset (Shm k, off, n) (mapped h)"
| "mapped (e # h) = mapped h"

fun unmapped :: "history \<Rightarrow> piece multiset" where
  "unmapped [] = {#}"
| "unmapped (EvMunmap ob start n r # h) = add_mset (ob, start, n) (unmapped h)"
| "unmapped (e # h) = unmapped h"

text \<open>The piece of a file that unmapping the grantor \<open>i\<close> at the address \<open>p\<close> releases.\<close>

definition piece :: "os \<Rightarrow> MQDescriptor \<Rightarrow> ptr \<Rightarrow> nat \<Rightarrow> piece" where
  "piece os d p i = (let g = mGrantors d ! i
     in (pobj p, int (poff p) - int (unat (offset g - mapOffset os g)), sint (mapLength os g)))"

lemma unmapGrantorDescr_ledger:
  assumes "i < length (mGrantors d)"
  shows "unmapped (hist (unmapGrantorDescr os d p i w)) =
      (case p of None \<Rightarrow> {#} | Some q \<Rightarrow> {#piece os d q i#}) + unmapped (hist w)"
    "mapped (hist (unmapGrantorDescr os d p i w)) = mapped (hist w)"
  using assms
  by (auto simp: unmapGrantorDescr_def sys_munmap_def piece_def Let_def split: option.splits)

text \<open>What a successful mapping says of the descriptor and the address.\<close>

definition grantor_mapped :: "os \<Rightarrow> MQDescriptor \<Rightarrow> nat \<Rightarrow> ptr \<Rightarrow> bool" where
  "grantor_mapped os d i p \<longleftrightarrow> (\<exists>h. mHandle d = Some h \<and> i < length (mGrantors d) \<and>
     extents_ok (mGrantors d) \<and>
     (let g = mGrantors d ! i; start = unat (offset g) div page os * page os;
          n = unat (offset g) mod page os + unat (extent g)
      in 0 \<le> sint (fdIndex g) \<and> sint (fdIndex g) < numFds h \<and> 8 dvd unat (offset g) \<and>
         unat (extent g) + page os < 2 ^ 31 \<and>
         (\<exists>k hs rw. os_mmap os hs (int n) rw (data h ! nat (sint (fdIndex g))) (int start) = Inr k \<and>
            p = Ptr (Shm k) (unat (offset g)) \<and> piece os d p i = (Shm k, int start, int n))))"

lemma mmap_shared_ledger:
  "mmap_shared os fl n fd off w = (Inr k, w') \<Longrightarrow> (\<exists>hs rw. os_mmap os hs n rw fd off = Inr k) \<and>
    mapped (hist w') = add_mset (Shm k, off, n) (mapped (hist w)) \<and>
    unmapped (hist w') = unmapped (hist w)"
  "mmap_shared os fl n fd off w = (Inl e, w') \<Longrightarrow>
    mapped (hist w') = mapped (hist w) \<and> unmapped (hist w') = unmapped (hist w)"
  by (auto simp: mmap_shared_def sys_mmap_def Let_def split: if_splits)

lemma mapGrantorDescr_ok:
  assumes sys: "system_ok os" and m: "mapGrantorDescr os fl d i w = (Some p, w')"
  shows "grantor_mapped os d i p"
    "mapped (hist w') = add_mset (piece os d p i) (mapped (hist w))"
    "unmapped (hist w') = unmapped (hist w)"
proof -
  let ?g = "mGrantors d ! i"
  let ?off = "sint (mapOffset os ?g)" and ?n = "sint (mapLength os ?g)"
  note P = system_okD [OF sys]
  obtain r w1 where r: "mmap_shared os fl ?n (data (the (mHandle d)) ! nat (sint (fdIndex ?g))) ?off w =
      (r, w1)" by fastforce
  from m r obtain h k where h: "mHandle d = Some h" and i: "i < length (mGrantors d)"
    and fd: "0 \<le> sint (fdIndex ?g)" "sint (fdIndex ?g) < numFds h"
    and al: "8 dvd unat (offset ?g)" and ex: "extents_ok (mGrantors d)"
    and small: "\<not> extent ?g > INT_MAX - os_pagesize os"
    and rk: "r = Inr k" "w1 = w'"
    and p: "p = padd (Ptr (Shm k) (nat ?off)) (unat (offset ?g - mapOffset os ?g))"
    by (auto simp: mapGrantorDescr_def isAligned_iff ucast64_unat not_le Let_def
        split: option.splits if_splits sum.splits)
  have sm: "unat (extent ?g) + page os < 2 ^ 31" by (rule extent_small [OF small P(2)])
  have n: "?n = int (unat (offset ?g) mod page os + unat (extent ?g))"
    by (rule mapLength_sint [OF P(1) sm])
  obtain hs rw where mm: "os_mmap os hs ?n rw (data h ! nat (sint (fdIndex ?g))) ?off = Inr k"
    and led: "mapped (hist w') = add_mset (Shm k, ?off, ?n) (mapped (hist w))"
      "unmapped (hist w') = unmapped (hist w)"
    using mmap_shared_ledger(1) r h unfolding rk by fastforce
  have "uint (mapOffset os ?g) < 2 ^ 32" using uint_lt2p [of "mapOffset os ?g"] by simp
  then have "?off = int (unat (mapOffset os ?g))"
    using P(3) [OF mm] by (simp add: sint32 split: if_splits)
  then have off: "?off = int (unat (offset ?g) div page os * page os)"
    by (simp only: mapOffset_unat [OF P(1)])
  have p': "p = Ptr (Shm k) (unat (offset ?g))"
    unfolding p off by (simp add: padd_def offset_in_page [OF P(1)] del: of_nat_mult)
  have "int (unat (offset ?g)) - int (unat (offset ?g) mod page os) =
      int (unat (offset ?g) div page os * page os)"
    by (metis minus_mod_eq_div_mult mod_less_eq_dividend of_nat_diff)
  then have pc: "piece os d p i = (Shm k, ?off, ?n)"
    by (simp add: piece_def Let_def p' offset_in_page [OF P(1)] off)
  show "mapped (hist w') = add_mset (piece os d p i) (mapped (hist w))"
    "unmapped (hist w') = unmapped (hist w)"
    using led pc by simp_all
  show "grantor_mapped os d i p"
    using h i ex fd al sm mm p' pc unfolding grantor_mapped_def Let_def n off by blast
qed

lemma mapGrantorDescr_fails:
  assumes "mapGrantorDescr os fl d i w = (None, w')"
  shows "mapped (hist w') = mapped (hist w)" "unmapped (hist w') = unmapped (hist w)"
  using assms
  by (auto simp: mapGrantorDescr_def Let_def dest!: mmap_shared_ledger
      split: option.splits if_splits sum.splits prod.splits)

text \<open>
  C33. A grantor is mapped where the file has it: the mapping starts at a page boundary at or
  before its offset and ends exactly at its end, without an overflow of the 32-bit variables,
  and the returned address is the grantor's first byte. Unmapping the address with the same
  index releases exactly that mapping.
\<close>

theorem map_covers_grantor:
  assumes "system_ok os" and "mapGrantorDescr os fl d i w = (Some p, w')"
  shows "\<exists>k start n. let g = mGrantors d ! i; w'' = unmapGrantorDescr os d (Some p) i w'
     in p = Ptr (Shm k) (unat (offset g)) \<and> page os dvd start \<and>
        start \<le> unat (offset g) \<and> unat (offset g) < start + page os \<and>
        start + n = unat (offset g) + unat (extent g) \<and> n < 2 ^ 31 \<and>
        mapped (hist w') = add_mset (Shm k, int start, int n) (mapped (hist w)) \<and>
        unmapped (hist w'') = add_mset (Shm k, int start, int n) (unmapped (hist w))"
proof -
  let ?g = "mGrantors d ! i"
  note ok = mapGrantorDescr_ok [OF assms]
  let ?start = "unat (offset ?g) div page os * page os"
  let ?n = "unat (offset ?g) mod page os + unat (extent ?g)"
  from ok(1) obtain k where i: "i < length (mGrantors d)" and p: "p = Ptr (Shm k) (unat (offset ?g))"
    and pc: "piece os d p i = (Shm k, int ?start, int ?n)" and sm: "unat (extent ?g) + page os < 2 ^ 31"
    by (auto simp: grantor_mapped_def Let_def)
  have "?start + unat (offset ?g) mod page os = unat (offset ?g)" by simp
  moreover have "unat (offset ?g) mod page os < page os" using system_okD(1) [OF assms(1)] by simp
  ultimately have "?start \<le> unat (offset ?g)" "unat (offset ?g) < ?start + page os"
    "?start + ?n = unat (offset ?g) + unat (extent ?g)" "?n < 2 ^ 31"
    using sm by linarith+
  then show ?thesis
    using p pc ok(2,3) unmapGrantorDescr_ledger(1) [OF i, of os "Some p" w']
    unfolding Let_def by (intro exI [of _ k] exI [of _ ?start] exI [of _ ?n]) simp
qed

end
