(* ===== verification/DescriptorType.thy ===== *)
theory DescriptorType
  imports MessageQueueMapping
begin

text \<open>
  The contract of the template argument \<open>MQDescriptorType\<close>: what \<open>MessageQueueBase\<close> relies on in the
  descriptor it is built from. The shim of the AIDL queue keeps it; of the descriptor of the HIDL
  queue, which is in another repository, it is an assumption.
\<close>

section \<open>Steps that map nothing\<close>

text \<open>No other thread touches the memory of a queue that is being made.\<close>

definition alone :: "os \<Rightarrow> bool" where
  "alone os \<longleftrightarrow> (\<forall>h m. os_run os h m = m)"

text \<open>Steps that map and unmap nothing, and leave the memory to the other threads.\<close>

definition plain :: "os \<Rightarrow> world \<Rightarrow> world \<Rightarrow> bool" where
  "plain os w w' \<longleftrightarrow> mapped (hist w') = mapped (hist w) \<and> unmapped (hist w') = unmapped (hist w) \<and>
     (alone os \<longrightarrow> wmem w' = wmem w)"

lemma plain_refl [simp, intro]: "plain os w w"
  by (simp add: plain_def)

lemma plain_trans [trans]: "plain os w w1 \<Longrightarrow> plain os w1 w2 \<Longrightarrow> plain os w w2"
  by (simp add: plain_def)

lemma plain_ran [simp, intro]:
  "plain os w (ran os (EvDup fd r) w)" "plain os w (ran os (EvNew a) w)"
  "plain os w (ran os (EvHandleCreate nf ni ok) w)" "plain os w (ran os (EvHandleClose fds) w)"
  "plain os w (ran os (EvAshmem sz fd) w)" "plain os w (ran os (EvClose fd) w)"
  by (simp_all add: plain_def alone_def)

lemma dup_all_plain: "dup_all os fds w = (rs, w') \<Longrightarrow> plain os w w'"
proof (induction fds arbitrary: w rs)
  case Nil
  then show ?case by simp
next
  case (Cons fd fds)
  then obtain rs' where
    "dup_all os fds (ran os (EvDup fd (os_dup os (hist w) fd)) w) = (rs', w')"
    by (auto simp: Let_def split: prod.splits)
  from Cons.IH [OF this] show ?case by (rule plain_trans [OF plain_ran(1)])
qed

lemma handle_create_plain: "native_handle_create os nf ni w = (h, w') \<Longrightarrow> plain os w w'"
  by (auto simp: native_handle_create_def Let_def)

lemma shim_assign_plain:
  assumes "shim_assign os this other w = Some (d, w')"
  shows "plain os w w'"
proof -
  define w1 where "w1 = (case mHandle this of None \<Rightarrow> w | Some h \<Rightarrow> native_handle_close os h w)"
  have w1: "plain os w w1" by (auto simp: w1_def native_handle_close_def split: option.splits)
  have "plain os w1 w'"
    using assms
    by (auto simp: shim_assign_def Let_def native_handle_create_def
        split: option.splits prod.splits if_splits simp flip: w1_def
        dest!: dup_all_plain intro: plain_trans)
  with w1 show ?thesis by (rule plain_trans)
qed

lemma shim_copy_plain: "shim_copy os fl other w = Some (d, w') \<Longrightarrow> plain os w w'"
  by (auto simp: shim_copy_def split: bind_splits dest: shim_assign_plain)

lemma shim_destroy_plain: "plain os w (shim_destroy os d w)"
  by (auto simp: shim_destroy_def native_handle_close_def split: option.splits)

section \<open>The contract\<close>

text \<open>A copy of the shim holds duplicates of the file descriptors in a handle of its own.\<close>

lemma shim_copy_dup:
  assumes c: "shim_copy os fl desc u = Some (d, u')" and h: "mHandle desc = Some h" "handle_wf h"
  obtains h' w w' where "mHandle d = Some h'" "handle_wf h'"
    "h' = \<lparr>numFds = numFds h, numInts = numInts h, data = handle_fds h' @ handle_ints h\<rparr>"
    "dup_all os (handle_fds h) w = (handle_fds h', w')" "mGrantors d = mGrantors desc"
    "mQuantum d = mQuantum desc" "mFlags d = mFlags desc"
proof -
  obtain this where a: "shim_assign os this desc u = Some (d, u')"
    using c by (auto simp: shim_copy_def split: bind_splits)
  define w1 where "w1 = (case mHandle this of None \<Rightarrow> u | Some h \<Rightarrow> native_handle_close os h u)"
  let ?w2 = "ran os (EvHandleCreate (numFds h) (numInts h) True) w1"
  obtain fds w3 where dup: "dup_all os (handle_fds h) ?w2 = (fds, w3)" by fastforce
  let ?h = "\<lparr>numFds = numFds h, numInts = numInts h, data = fds @ handle_ints h\<rparr>"
  have d: "d = \<lparr>mGrantors = mGrantors desc, mHandle = Some ?h, mQuantum = mQuantum desc, mFlags = mFlags desc\<rparr>"
    using a h(1) dup
    by (auto simp: shim_assign_def Let_def native_handle_create_def split: if_splits simp flip: w1_def)
  have "dup_same_file os (\<lambda>_. ())" by (simp add: dup_same_file_def)
  note f = filled_handle [OF h(2) this dup refl]
  show thesis by (rule that [of ?h]) (use f dup in \<open>simp_all add: d same_handle_def\<close>)
qed

lemma shim_copy_same:
  assumes c: "shim_copy os fl desc u = Some (d, u')" and h: "mHandle desc = Some h" "handle_wf h"
    and os: "dup_same_file os file"
  shows "\<exists>h'. mHandle d = Some h' \<and> same_handle file h h' \<and> mGrantors d = mGrantors desc \<and>
    mQuantum d = mQuantum desc \<and> mFlags d = mFlags desc"
  by (rule shim_copy_dup [OF c h]) (metis filled_handle(1) [OF h(2) os])

text \<open>
  Copying and destroying a descriptor map and unmap nothing; a copy has the grantors and the quantum, and
  its handle refers to the same files; a descriptor made from a size is for the handle it is given and has no
  grantors (the size is refused) or those of one file with counters, ring and flag word.
\<close>

locale queue_descriptor_type =
  fixes D :: descriptor_type
  assumes copy_plain: "desc_copy D os fl desc w = Some (d, w') \<Longrightarrow> plain os w w'"
    and destroy_plain: "plain os w (desc_destroy D os d w)"
    and copy_same: "desc_copy D os fl desc w = Some (d, w') \<Longrightarrow> mHandle desc = Some h \<Longrightarrow>
      handle_wf h \<Longrightarrow> dup_same_file os (file :: int \<Rightarrow> nat) \<Longrightarrow>
      \<exists>h'. mHandle d = Some h' \<and> same_handle file h h' \<and> mGrantors d = mGrantors desc \<and>
        mQuantum d = mQuantum desc \<and> mFlags d = mFlags desc"
    and size_layout: "desc_of_size D fl S nh sz ev = Some d \<Longrightarrow>
      mHandle d = nh \<and> (mGrantors d = [] \<or> mGrantors d = size_layout S ev)"

interpretation shim: queue_descriptor_type Shim
  by unfold_locales
    (auto simp: shim_copy_plain shim_destroy_plain shim_copy_same shim_of_size_eq split: if_splits)

end
