(* ===== verification/MessageQueueLifecycle.thy ===== *)
theory MessageQueueLifecycle
  imports DescriptorType MessageQueueFifo MessageQueueUnsync
begin

text \<open>
  The life of a queue object: what the constructors establish, that the destructor releases
  exactly what they mapped, and that a new queue is an empty one in the sense of the
  specifications of the two flavors.
\<close>

section \<open>Mappings still in use\<close>

text \<open>Between \<open>w\<close> and \<open>w'\<close> the pieces \<open>X\<close> were mapped and not unmapped again.\<close>

definition net :: "world \<Rightarrow> world \<Rightarrow> piece multiset \<Rightarrow> bool" where
  "net w w' X \<longleftrightarrow> (\<exists>Y. mapped (hist w') = X + Y + mapped (hist w) \<and>
     unmapped (hist w') = Y + unmapped (hist w))"

lemma net_same: "mapped (hist w') = mapped (hist w) \<Longrightarrow> unmapped (hist w') = unmapped (hist w) \<Longrightarrow> net w w' {#}"
  by (simp add: net_def)

lemma net_map:
  assumes "net w w1 X" and "mapped (hist w2) = add_mset x (mapped (hist w1))"
    and "unmapped (hist w2) = unmapped (hist w1)"
  shows "net w w2 (add_mset x X)"
  using assms by (auto simp: net_def)

lemma net_unmap:
  assumes "net w w1 (X + Z)" and "mapped (hist w2) = mapped (hist w1)"
    and "unmapped (hist w2) = Z + unmapped (hist w1)"
  shows "net w w2 X"
proof -
  from assms(1) obtain Y where "mapped (hist w1) = X + Z + Y + mapped (hist w)"
    "unmapped (hist w1) = Y + unmapped (hist w)"
    by (auto simp: net_def)
  with assms(2,3) show ?thesis unfolding net_def by (intro exI [of _ "Z + Y"]) (simp add: ac_simps)
qed

lemma net_trans:
  assumes "net w w1 {#}" and "net w1 w2 X"
  shows "net w w2 X"
proof -
  from assms obtain Y Z where "mapped (hist w1) = Y + mapped (hist w)"
    "unmapped (hist w1) = Y + unmapped (hist w)" "mapped (hist w2) = X + Z + mapped (hist w1)"
    "unmapped (hist w2) = Z + unmapped (hist w1)"
    by (auto simp: net_def)
  then show ?thesis unfolding net_def by (intro exI [of _ "Z + Y"]) (simp add: ac_simps)
qed

definition opt_piece :: "os \<Rightarrow> MQDescriptor \<Rightarrow> ptr option \<Rightarrow> nat \<Rightarrow> piece multiset" where
  "opt_piece os d p i = (case p of None \<Rightarrow> {#} | Some a \<Rightarrow> {#piece os d a i#})"

lemma opt_piece_simps [simp]:
  "opt_piece os d None i = {#}" "opt_piece os d (Some a) i = {#piece os d a i#}"
  by (simp_all add: opt_piece_def)

text \<open>The mappings an object holds.\<close>

definition pieces :: "os \<Rightarrow> MessageQueue \<Rightarrow> piece multiset" where
  "pieces os q = (case mDesc q of None \<Rightarrow> {#} | Some d \<Rightarrow>
     (if flavor q = kSynchronizedReadWrite then opt_piece os d (mReadPtr q) READPTRPOS else {#}) +
     opt_piece os d (mWritePtr q) WRITEPTRPOS + opt_piece os d (mRing q) DATAPTRPOS +
     opt_piece os d (mEvFlagWord q) EVFLAGWORDPOS)"

lemma unmap_ledger:
  assumes "i < length (mGrantors d)"
  shows "unmapped (hist (unmapGrantorDescr os d p i w)) = opt_piece os d p i + unmapped (hist w)"
    "mapped (hist (unmapGrantorDescr os d p i w)) = mapped (hist w)"
  using unmapGrantorDescr_ledger [OF assms, of os p w] by (auto split: option.splits)

lemma release_read_ledger:
  assumes "0 < length (mGrantors d)"
  shows "unmapped (hist (release_read os d q w)) =
      (if flavor q = kSynchronizedReadWrite then opt_piece os d (mReadPtr q) READPTRPOS else {#}) +
      unmapped (hist w)"
    "mapped (hist (release_read os d q w)) = mapped (hist w)"
  using assms
  by (auto simp: release_read_def unmap_ledger delete_counter_def split: option.splits)

lemma init_error_ledger:
  assumes e: "init_error os d q w = (q', w')" and "mRing q = None" and "mEvFlagWord q = None"
    and "mDesc q = Some d" and len: "2 < length (mGrantors d)"
  shows "net w0 w (pieces os q) \<Longrightarrow> net w0 w' (pieces os q')" "\<not> isValid q'"
    "mEventFlag q' = mEventFlag q"
proof -
  have l: "0 < length (mGrantors d)" "Suc 0 < length (mGrantors d)" using len by linarith+
  have w': "w' = unmapGrantorDescr os d (mWritePtr q) 1 (release_read os d q w)"
    and q': "q' = q\<lparr>mReadPtr := None, mWritePtr := None, mRing := None\<rparr>"
    using e assms(2) by (auto simp: init_error_def Let_def unmapGrantorDescr_def [of _ _ None])
  show "net w0 w' (pieces os q')" if "net w0 w (pieces os q)"
  proof (rule net_unmap)
    have "pieces os q' = {#}" using assms(3,4) by (simp add: pieces_def q')
    with that show "net w0 w (pieces os q' + pieces os q)" by simp
    show "unmapped (hist w') = pieces os q + unmapped (hist w)"
      using assms(2-4) by (simp add: w' unmap_ledger [OF l(2)] release_read_ledger [OF l(1)] pieces_def)
    show "mapped (hist w') = mapped (hist w)"
      by (simp add: w' unmap_ledger [OF l(2)] release_read_ledger [OF l(1)])
  qed
  show "\<not> isValid q'" "mEventFlag q' = mEventFlag q" by (simp_all add: q' isValid_def)
qed

section \<open>Initialization\<close>

lemma map_alone: "alone os \<Longrightarrow> mapGrantorDescr os fl d i w = (p, w') \<Longrightarrow> wmem w' = wmem w"
  by (auto simp: mapGrantorDescr_def mmap_shared_def sys_mmap_def alone_def Let_def
      split: option.splits if_splits sum.splits prod.splits)

lemma new_counter_result:
  assumes "new_counter os w = (p, w')"
  shows "mapped (hist w') = mapped (hist w)" "unmapped (hist w') = unmapped (hist w)"
    "p = None \<or> (\<exists>k. p = Some (Ptr (Heap k) 0))" "alone os \<Longrightarrow> wmem w' = wmem w"
  using assms by (auto simp: new_counter_def sys_new_def alone_def Let_def)

lemma createEventFlag_result:
  "\<exists>st ef w'. createEventFlag os (Some p) True f w = Some (st, ef, w') \<and>
    mapped (hist w') = mapped (hist w) \<and> unmapped (hist w') = unmapped (hist w) \<and>
    (alone os \<longrightarrow> wmem w' = wmem w) \<and>
    (ef = None \<or> ef = Some \<lparr>mEfWordNeedsUnmapping = False, mEfWordPtr = Some p\<rparr>)"
  by (cases "os_new os (hist w)")
    (simp_all add: createEventFlag_def sys_new_def EventFlag_init_def alone_def Let_def)

text \<open>A queue object before its initialization.\<close>

definition fresh_object :: "MessageQueue \<Rightarrow> bool" where
  "fresh_object q \<longleftrightarrow> mReadPtr q = None \<and> mWritePtr q = None \<and> mRing q = None \<and>
     mEvFlagWord q = None \<and> mEventFlag q = None"

text \<open>What \<open>initMemory\<close> establishes of an object that is valid afterwards.\<close>

definition initialized :: "os \<Rightarrow> MQDescriptor \<Rightarrow> MessageQueue \<Rightarrow> bool" where
  "initialized os d q \<longleftrightarrow> mDesc q = Some d \<and> getQuantum d = sizeofT q \<and>
     kMinGrantorCount \<le> countGrantors d \<and>
     (\<exists>rp. mReadPtr q = Some rp \<and>
       (if flavor q = kSynchronizedReadWrite then grantor_mapped os d READPTRPOS rp
        else \<exists>k. rp = Ptr (Heap k) 0)) \<and>
     (\<exists>wp. mWritePtr q = Some wp \<and> grantor_mapped os d WRITEPTRPOS wp) \<and>
     (\<exists>r. mRing q = Some r \<and> grantor_mapped os d DATAPTRPOS r) \<and>
     (if EVFLAGWORDPOS < countGrantors d
      then \<exists>p. mEvFlagWord q = Some p \<and> grantor_mapped os d EVFLAGWORDPOS p \<and>
        (mEventFlag q = None \<or>
         mEventFlag q = Some \<lparr>mEfWordNeedsUnmapping = False, mEfWordPtr = Some p\<rparr>)
      else mEvFlagWord q = None \<and> mEventFlag q = None)"

lemma init_event_flag_result:
  assumes sys: "system_ok os" and d: "mDesc q = Some d" and n: "net w0 w (pieces os q)"
    and f: "mEvFlagWord q = None" "mEventFlag q = None" and v: "isValid q"
  obtains q' w' where "init_event_flag os d q w = Some (q', w')"
    "isValid q' \<Longrightarrow> net w0 w' (pieces os q') \<and> (alone os \<longrightarrow> wmem w' = wmem w) \<and>
      q' = q\<lparr>mEvFlagWord := mEvFlagWord q', mEventFlag := mEventFlag q'\<rparr> \<and>
      (if EVFLAGWORDPOS < countGrantors d
       then \<exists>p. mEvFlagWord q' = Some p \<and> grantor_mapped os d EVFLAGWORDPOS p \<and>
        (mEventFlag q' = None \<or>
         mEventFlag q' = Some \<lparr>mEfWordNeedsUnmapping = False, mEfWordPtr = Some p\<rparr>)
       else mEvFlagWord q' = None \<and> mEventFlag q' = None)"
    "EVFLAGWORDPOS < countGrantors d \<or> isValid q'"
proof (cases "EVFLAGWORDPOS < countGrantors d")
  case False
  then have "init_event_flag os d q w = Some (q, w)" by (simp add: init_event_flag_def)
  then show thesis using False f n v by (intro that [of q w]) auto
next
  case True
  obtain p w1 where m: "mapGrantorDescr os (flavor q) d EVFLAGWORDPOS w = (p, w1)" by fastforce
  show thesis
  proof (cases p)
    case None
    obtain q' w' where e: "init_error os d (q\<lparr>mEvFlagWord := None\<rparr>) w1 = (q', w')" by fastforce
    then have "\<not> isValid q'" by (auto simp: init_error_def Let_def isValid_def)
    with e True m None show thesis by (intro that [of q' w']) (auto simp: init_event_flag_def)
  next
    case (Some a)
    obtain st ef w2 where c: "createEventFlag os (Some a) True (mEventFlag q) w1 = Some (st, ef, w2)"
      and led: "mapped (hist w2) = mapped (hist w1)" "unmapped (hist w2) = unmapped (hist w1)"
      and al: "alone os \<longrightarrow> wmem w2 = wmem w1"
      and ef: "ef = None \<or> ef = Some \<lparr>mEfWordNeedsUnmapping = False, mEfWordPtr = Some a\<rparr>"
      using createEventFlag_result [of os a "mEventFlag q" w1] by blast
    let ?q = "q\<lparr>mEvFlagWord := Some a, mEventFlag := ef\<rparr>"
    note ok = mapGrantorDescr_ok [OF sys m [unfolded Some]]
    have "net w0 w2 (add_mset (piece os d a EVFLAGWORDPOS) (pieces os q))"
      by (rule net_map [OF n]) (simp_all only: led ok)
    moreover have "pieces os ?q = add_mset (piece os d a EVFLAGWORDPOS) (pieces os q)"
      using d f by (simp add: pieces_def)
    ultimately have "net w0 w2 (pieces os ?q)" by simp
    moreover have "init_event_flag os d q w = Some (?q, w2)"
      using True m Some c by (simp add: init_event_flag_def)
    ultimately show thesis
      using True ef al ok(1) map_alone [OF _ m] by (intro that [of ?q w2]) auto
  qed
qed

lemma fresh_pieces: "fresh_object q \<Longrightarrow> pieces os q = {#}"
  by (simp add: pieces_def fresh_object_def split: option.splits)

text \<open>The counter for the reader: mapped, or allocated for the unsynchronized flavor.\<close>

definition read_counter :: "os \<Rightarrow> MessageQueue \<Rightarrow> MQDescriptor \<Rightarrow> world \<Rightarrow> ptr option \<times> world" where
  "read_counter os q d w = (if flavor q = kSynchronizedReadWrite
     then mapGrantorDescr os (flavor q) d READPTRPOS w else new_counter os w)"

lemma read_counter_result:
  assumes sys: "system_ok os" and d: "mDesc q = Some d" and f: "fresh_object q"
    and c: "read_counter os q d w = (p, w1)"
  shows "net w w1 (pieces os (q\<lparr>mReadPtr := p\<rparr>))" "alone os \<Longrightarrow> wmem w1 = wmem w"
    "\<And>a. p = Some a \<Longrightarrow> if flavor q = kSynchronizedReadWrite then grantor_mapped os d READPTRPOS a
      else \<exists>k. a = Ptr (Heap k) 0"
proof -
  have pc: "pieces os (q\<lparr>mReadPtr := p\<rparr>) =
      (if flavor q = kSynchronizedReadWrite then opt_piece os d p READPTRPOS else {#})"
    using d f by (simp add: pieces_def fresh_object_def)
  have "net w w1 (pieces os (q\<lparr>mReadPtr := p\<rparr>)) \<and> (alone os \<longrightarrow> wmem w1 = wmem w) \<and>
    (\<forall>a. p = Some a \<longrightarrow> (if flavor q = kSynchronizedReadWrite then grantor_mapped os d READPTRPOS a
      else \<exists>k. a = Ptr (Heap k) 0))"
  proof (cases "flavor q = kSynchronizedReadWrite")
    case True
    then have m: "mapGrantorDescr os (flavor q) d READPTRPOS w = (p, w1)"
      using c by (simp add: read_counter_def)
    show ?thesis
    proof (cases p)
      case None
      then show ?thesis
        using True pc mapGrantorDescr_fails [OF m [unfolded None]] map_alone [OF _ m]
        by (simp add: net_same)
    next
      case (Some a)
      note ok = mapGrantorDescr_ok [OF sys m [unfolded Some]]
      have "net w w1 (add_mset (piece os d a READPTRPOS) {#})"
        by (rule net_map [OF net_same [OF refl refl]]) (rule ok)+
      then show ?thesis using True Some pc ok(1) map_alone [OF _ m] by simp
    qed
  next
    case False
    then have m: "new_counter os w = (p, w1)" using c by (simp add: read_counter_def)
    show ?thesis using False pc new_counter_result [OF m] by (auto intro: net_same)
  qed
  then show "net w w1 (pieces os (q\<lparr>mReadPtr := p\<rparr>))" "alone os \<Longrightarrow> wmem w1 = wmem w"
    "\<And>a. p = Some a \<Longrightarrow> if flavor q = kSynchronizedReadWrite then grantor_mapped os d READPTRPOS a
      else \<exists>k. a = Ptr (Heap k) 0"
    by blast+
qed

text \<open>One more grantor of an object is mapped, or not.\<close>

lemma map_step:
  assumes sys: "system_ok os" and m: "mapGrantorDescr os fl d i w = (p, w1)"
    and n: "net w0 w X"
  shows "net w0 w1 (opt_piece os d p i + X)" "\<And>a. p = Some a \<Longrightarrow> grantor_mapped os d i a"
    "alone os \<Longrightarrow> wmem w1 = wmem w"
proof -
  show "net w0 w1 (opt_piece os d p i + X)"
  proof (cases p)
    case None
    then show ?thesis using n mapGrantorDescr_fails [OF m [unfolded None]] by (simp add: net_def)
  next
    case (Some a)
    then show ?thesis
      using net_map [OF n] mapGrantorDescr_ok(2,3) [OF sys m [unfolded Some]] by simp
  qed
  show "\<And>a. p = Some a \<Longrightarrow> grantor_mapped os d i a" using mapGrantorDescr_ok(1) [OF sys] m by blast
  show "alone os \<Longrightarrow> wmem w1 = wmem w" by (rule map_alone [OF _ m])
qed

lemma initMemory_result:
  assumes sys: "system_ok os" and d: "mDesc q = Some d" and f: "fresh_object q"
  obtains q' w' where "initMemory os r q w = Some (q', w')"
    "EVFLAGWORDPOS < countGrantors d \<or> net w w' (pieces os q')"
    "isValid q' \<Longrightarrow> net w w' (pieces os q') \<and> initialized os d q' \<and> flavor q' = flavor q \<and>
      sizeofT q' = sizeofT q \<and> (alone os \<longrightarrow>
        wmem w' = reset_counters q r (the (mReadPtr q')) (the (mWritePtr q')) (wmem w))"
proof -
  note found = that
  show thesis
  proof (cases "isHandleValid d \<and> kMinGrantorCount \<le> countGrantors d \<and> getQuantum d = sizeofT q")
  case False
  then have "initMemory os r q w = Some (q, w)" using d by (auto simp: initMemory_def)
  moreover have "\<not> isValid q" using f by (simp add: fresh_object_def isValid_def)
  ultimately show thesis
    using fresh_pieces [OF f] net_same [of w w] by (intro found [of q w]) auto
next
  case True
  then have len: "2 < length (mGrantors d)" by (auto simp: kMinGrantorCount_def countGrantors_def)
  obtain p1 w1 where c1: "read_counter os q d w = (p1, w1)" by fastforce
  note r1 = read_counter_result [OF sys d f c1]
  have init1: "initMemory os r q w = (case p1 of
       None \<Rightarrow> Some (init_error os d (q\<lparr>mReadPtr := None\<rparr>) w1)
     | Some rp \<Rightarrow>
         let q1 = q\<lparr>mReadPtr := Some rp\<rparr>
         in (case mapGrantorDescr os (flavor q) d WRITEPTRPOS w1 of
               (None, w2) \<Rightarrow> Some (init_error os d (q1\<lparr>mWritePtr := None\<rparr>) w2)
             | (Some wp, w2) \<Rightarrow>
                 let q2 = q1\<lparr>mWritePtr := Some wp\<rparr>;
                     w3 = w2\<lparr>wmem := reset_counters q r rp wp (wmem w2)\<rparr>
                 in (case mapGrantorDescr os (flavor q) d DATAPTRPOS w3 of
                       (None, w4) \<Rightarrow> Some (init_error os d (q2\<lparr>mRing := None\<rparr>) w4)
                     | (Some ring, w4) \<Rightarrow> init_event_flag os d (q2\<lparr>mRing := Some ring\<rparr>) w4)))"
    using True d c1 by (simp add: initMemory_def read_counter_def)
  have error: thesis
    if "initMemory os r q w = Some (init_error os d qe wx)" "net w wx (pieces os qe)"
      "mRing qe = None" "mEvFlagWord qe = None" "mDesc qe = Some d" for qe wx
  proof -
    obtain q' w' where e: "init_error os d qe wx = (q', w')" by fastforce
    note le = init_error_ledger [OF e that(3,4,5) len]
    show thesis using that(1,2) e le by (intro found [of q' w']) auto
  qed
  have fq: "mWritePtr q = None" "mRing q = None" "mEvFlagWord q = None" "mEventFlag q = None"
    using f by (simp_all add: fresh_object_def)
  show thesis
  proof (cases p1)
    case None
    show thesis
      by (rule error [of "q\<lparr>mReadPtr := None\<rparr>" w1])
        (use init1 None r1(1) d fq in simp_all)
  next
    case (Some rp)
    let ?q1 = "q\<lparr>mReadPtr := Some rp\<rparr>"
    obtain p2 w2 where m2: "mapGrantorDescr os (flavor q) d WRITEPTRPOS w1 = (p2, w2)" by fastforce
    note r2 = map_step [OF sys m2 r1(1)]
    have n2: "net w w2 (pieces os (?q1\<lparr>mWritePtr := p2\<rparr>))"
    proof -
      have "pieces os (?q1\<lparr>mWritePtr := p2\<rparr>) =
          opt_piece os d p2 WRITEPTRPOS + pieces os (q\<lparr>mReadPtr := p1\<rparr>)"
        using d fq Some by (simp add: pieces_def ac_simps)
      then show ?thesis using r2(1) by simp
    qed
    show thesis
    proof (cases p2)
      case None
      show thesis
        by (rule error [of "?q1\<lparr>mWritePtr := None\<rparr>" w2])
          (use init1 Some m2 None n2 d fq in simp_all)
    next
      case wp: (Some wp)
      let ?q2 = "?q1\<lparr>mWritePtr := Some wp\<rparr>"
      let ?w3 = "w2\<lparr>wmem := reset_counters q r rp wp (wmem w2)\<rparr>"
      obtain p3 w4 where m3: "mapGrantorDescr os (flavor q) d DATAPTRPOS ?w3 = (p3, w4)" by fastforce
      have "net w ?w3 (pieces os ?q2)" using n2 wp by (simp add: net_def)
      note r3 = map_step [OF sys m3 this]
      have n3: "net w w4 (pieces os (?q2\<lparr>mRing := p3\<rparr>))"
      proof -
        have "pieces os (?q2\<lparr>mRing := p3\<rparr>) = opt_piece os d p3 DATAPTRPOS + pieces os ?q2"
          using d fq by (simp add: pieces_def ac_simps)
        then show ?thesis using r3(1) by simp
      qed
      show thesis
      proof (cases p3)
        case None
        show thesis
          by (rule error [of "?q2\<lparr>mRing := None\<rparr>" w4])
            (use init1 Some m2 wp m3 None n3 d fq in \<open>simp_all add: Let_def\<close>)
      next
        case ring: (Some ring)
        let ?q3 = "?q2\<lparr>mRing := Some ring\<rparr>"
        obtain q' w' where ev: "init_event_flag os d ?q3 w4 = Some (q', w')"
          and val: "isValid q' \<Longrightarrow> net w w' (pieces os q') \<and> (alone os \<longrightarrow> wmem w' = wmem w4) \<and>
            q' = ?q3\<lparr>mEvFlagWord := mEvFlagWord q', mEventFlag := mEventFlag q'\<rparr> \<and>
            (if EVFLAGWORDPOS < countGrantors d
             then \<exists>p. mEvFlagWord q' = Some p \<and> grantor_mapped os d EVFLAGWORDPOS p \<and>
              (mEventFlag q' = None \<or>
               mEventFlag q' = Some \<lparr>mEfWordNeedsUnmapping = False, mEfWordPtr = Some p\<rparr>)
             else mEvFlagWord q' = None \<and> mEventFlag q' = None)"
          and alt: "EVFLAGWORDPOS < countGrantors d \<or> isValid q'"
          using init_event_flag_result [OF sys, of ?q3 d w w4] n3 ring d fq
          by (auto simp: isValid_def)
        have "initMemory os r q w = Some (q', w')"
          using init1 Some m2 wp m3 ring ev by (simp add: Let_def)
        then show thesis
        proof (rule found)
          show "EVFLAGWORDPOS < countGrantors d \<or> net w w' (pieces os q')" using alt val by blast
          assume "isValid q'"
          note v = val [OF this]
          then have q3: "q' = ?q3\<lparr>mEvFlagWord := mEvFlagWord q', mEventFlag := mEventFlag q'\<rparr>"
            by blast
          have ptrs: "mReadPtr q' = Some rp" "mWritePtr q' = Some wp" "mRing q' = Some ring"
            "mDesc q' = Some d" "flavor q' = flavor q" "sizeofT q' = sizeofT q"
            using arg_cong [OF q3, of mReadPtr] arg_cong [OF q3, of mWritePtr]
              arg_cong [OF q3, of mRing] arg_cong [OF q3, of mDesc] arg_cong [OF q3, of flavor]
              arg_cong [OF q3, of sizeofT] d
            by simp_all
          have "initialized os d q'"
            using v True r1(3) [OF Some] r2(2) [OF wp] r3(2) [OF ring]
            unfolding initialized_def ptrs by (auto simp del: EVFLAGWORDPOS_def)
          moreover have "alone os \<Longrightarrow> wmem w' = reset_counters q r rp wp (wmem w)"
            using v r1(2) r2(3) r3(3) by simp
          ultimately show "net w w' (pieces os q') \<and> initialized os d q' \<and> flavor q' = flavor q \<and>
              sizeofT q' = sizeofT q \<and> (alone os \<longrightarrow>
                wmem w' = reset_counters q r (the (mReadPtr q')) (the (mWritePtr q')) (wmem w))"
            using v ptrs by simp
        qed
      qed
    qed
  qed
  qed
qed

section \<open>Destruction\<close>

context queue_descriptor_type begin

lemma destroy_result:
  assumes i: "initialized os d q"
  shows "\<exists>w'. MessageQueueBase_destroy D os q w = Some w' \<and> mapped (hist w') = mapped (hist w) \<and>
    unmapped (hist w') = pieces os q + unmapped (hist w)"
proof -
  have d: "mDesc q = Some d" and len: "0 < length (mGrantors d)" "Suc 0 < length (mGrantors d)"
    "2 < length (mGrantors d)"
    using i unfolding initialized_def countGrantors_def kMinGrantorCount_def DATAPTRPOS_def
    by linarith+
  define w3 where "w3 = unmapGrantorDescr os d (mRing q) DATAPTRPOS (unmapGrantorDescr os d
    (mWritePtr q) WRITEPTRPOS (release_read os d q w))"
  have w3: "mapped (hist w3) = mapped (hist w)"
    "unmapped (hist w3) + opt_piece os d (mEvFlagWord q) EVFLAGWORDPOS =
      pieces os q + unmapped (hist w)"
    using d by (simp_all add: w3_def unmap_ledger len release_read_ledger [OF len(1)] pieces_def ac_simps)
  define w5 where "w5 = (if mEvFlagWord q = None then w3
    else unmapGrantorDescr os d (mEvFlagWord q) EVFLAGWORDPOS w3)"
  have ev: "(if mEvFlagWord q = None then Some w3 else do {
      let w4 = unmapGrantorDescr os d (mEvFlagWord q) EVFLAGWORDPOS w3;
      (st, ef, u) \<leftarrow> deleteEventFlag os (mEventFlag q) w4;
      Some u }) = Some w5"
    using i by (auto simp: w5_def initialized_def deleteEventFlag_def unmapEventFlagWord_def
        EventFlag_destroy_def Let_def split: if_splits)
  have len3: "mEvFlagWord q \<noteq> None \<Longrightarrow> 3 < length (mGrantors d)"
    using i by (auto simp: initialized_def countGrantors_def split: if_splits)
  have "mapped (hist w5) = mapped (hist w)" "unmapped (hist w5) = pieces os q + unmapped (hist w)"
    using w3 len3 by (cases "mEvFlagWord q"; simp add: w5_def unmap_ledger ac_simps)+
  moreover have "MessageQueueBase_destroy D os q w = Some (desc_destroy D os d w5)"
    using ev [unfolded Let_def]
    by (simp only: MessageQueueBase_destroy_def d option.case Let_def w3_def [symmetric]) simp
  ultimately show ?thesis using destroy_plain [of os w5 d] by (simp add: plain_def)
qed

end

section \<open>Construction\<close>

lemma plain_net: "plain os w w1 \<Longrightarrow> net w1 w2 X \<Longrightarrow> net w w2 X"
  by (simp add: plain_def net_def)

lemma new_descriptor_plain:
  assumes n: "new_descriptor os c w = Some (md, w')"
    and c: "\<And>u d u'. c u = Some (d, u') \<Longrightarrow> plain os u u'"
  shows "plain os w w'" "\<And>d. md = Some d \<Longrightarrow> \<exists>u u'. c u = Some (d, u')"
proof -
  show "plain os w w'"
    using n by (auto simp: new_descriptor_def sys_new_def Let_def
      split: option.splits prod.splits bind_splits dest!: c intro: plain_trans [OF plain_ran(2)])
  show "\<And>d. md = Some d \<Longrightarrow> \<exists>u u'. c u = Some (d, u')"
    using n by (auto simp: new_descriptor_def split: option.splits prod.splits bind_splits)
qed

lemma blank_facts [simp]:
  "\<not> isValid (blank_queue fl sz)" "fresh_object (blank_queue fl sz)"
  "flavor (blank_queue fl sz) = fl" "sizeofT (blank_queue fl sz) = sz"
  "fresh_object ((blank_queue fl sz)\<lparr>mDesc := md\<rparr>)" "\<not> isValid ((blank_queue fl sz)\<lparr>mDesc := md\<rparr>)"
  by (simp_all add: isValid_def fresh_object_def blank_queue_def)

lemma SIZE_MAX_unat: "unat SIZE_MAX = 2 ^ 64 - 1"
  by (simp add: SIZE_MAX_def unsigned_minus_1_eq_mask mask_eq_exp_minus_1)

text \<open>The sizes the constructor lets through do not overflow.\<close>

lemma size_accepted:
  assumes "size_refused sz n fd bs = Some False"
  shows "sz \<noteq> 0" "n \<noteq> 0" "unat n * unat sz < 2 ^ 64" "fd = - 1 \<or> n * sz \<le> bs"
proof -
  show sz: "sz \<noteq> 0" and "n \<noteq> 0" and "fd = - 1 \<or> n * sz \<le> bs"
    using assms by (auto simp: size_refused_def checked_div_def split: if_splits)
  have "unat n \<le> (2 ^ 64 - 1) div unat sz"
    using assms sz SIZE_MAX_unat
    by (auto simp: size_refused_def word_less_nat_alt unat_div not_less)
  then have "unat n * unat sz \<le> (2 ^ 64 - 1) div unat sz * unat sz" by (rule mult_le_mono1)
  also have "\<dots> \<le> 2 ^ 64 - 1" by (rule div_times_less_eq_dividend)
  finally show "unat n * unat sz < 2 ^ 64" by simp
qed

lemma queue_handle_plain:
  "queue_handle os ash fd w = (h, w') \<Longrightarrow> plain os w w'"
  by (auto simp: queue_handle_def native_handle_create_def sys_ashmem_def Let_def
      split: option.splits prod.splits if_splits intro: plain_trans [OF plain_ran(3)])

lemma queue_handle_wf: "queue_handle os ash fd w = (Some h, w') \<Longrightarrow> handle_wf h"
  by (auto simp: queue_handle_def native_handle_create_def sys_ashmem_def handle_wf_def Let_def
      split: option.splits prod.splits if_splits)

context queue_descriptor_type begin

lemma of_size_valid:
  assumes sys: "system_ok os" and c: "MessageQueueBase_of_size D os fl sz n ev fd bs w = Some (q, w')"
    and v: "isValid q"
  obtains d h where "initialized os d q" "net w w' (pieces os q)" "flavor q = fl" "sizeofT q = sz"
    "alone os \<Longrightarrow> wmem w' = store64 (store64 (wmem w) (the (mReadPtr q)) 0) (the (mWritePtr q)) 0"
    "size_refused sz n fd bs = Some False" "queue_descriptor D fl sz (n * sz) ev (fd \<noteq> - 1) h = Some d"
    "handle_wf h" "\<exists>ash u k. queue_handle os ash fd w = (Some h, u) \<and>
      initMemory os True ((blank_queue fl sz)\<lparr>mDesc := Some d\<rparr>) (ran os (EvNew (Some k)) u) = Some (q, w')"
proof -
  let ?q = "blank_queue fl sz"
  from c v obtain ash where ref: "size_refused sz n fd bs = Some False"
    and ash: "ashmemSize os (n * sz) ev (fd \<noteq> - 1) = Some ash"
    by (auto simp: MessageQueueBase_of_size_def Let_def split: bind_splits if_splits)
  obtain ho w1 where qh: "queue_handle os ash fd w = (ho, w1)" by fastforce
  from c v ref ash qh obtain h md w2 where h: "ho = Some h"
    and nd: "new_descriptor os (\<lambda>u. map_option (\<lambda>d. (d, u))
      (queue_descriptor D fl sz (n * sz) ev (fd \<noteq> - 1) h)) w1 = Some (md, w2)"
    and rest: "(case md of None \<Rightarrow> Some (?q, native_handle_close os h w2)
       | Some d \<Rightarrow> initMemory os True (?q\<lparr>mDesc := Some d\<rparr>) w2) = Some (q, w')"
    by (auto simp: MessageQueueBase_of_size_def Let_def split: bind_splits option.splits)
  from rest v obtain d where md: "md = Some d"
    and im: "initMemory os True (?q\<lparr>mDesc := Some d\<rparr>) w2 = Some (q, w')"
    by (auto split: option.splits)
  have w12: "plain os w1 w2" and qd: "queue_descriptor D fl sz (n * sz) ev (fd \<noteq> - 1) h = Some d"
    using new_descriptor_plain [OF nd] md by auto
  have pl: "plain os w w2" using queue_handle_plain [OF qh] w12 by (rule plain_trans)
  have r: "net w2 w' (pieces os q) \<and> initialized os d q \<and> flavor q = fl \<and> sizeofT q = sz \<and>
      (alone os \<longrightarrow> wmem w' = reset_counters (?q\<lparr>mDesc := Some d\<rparr>) True
        (the (mReadPtr q)) (the (mWritePtr q)) (wmem w2))"
    using initMemory_result [OF sys, of "?q\<lparr>mDesc := Some d\<rparr>" d True w2] im v by fastforce
  obtain k where "w2 = ran os (EvNew (Some k)) w1"
    using nd md by (auto simp: new_descriptor_def sys_new_def Let_def split: option.splits bind_splits)
  then have "\<exists>ash u k. queue_handle os ash fd w = (Some h, u) \<and>
      initMemory os True (?q\<lparr>mDesc := Some d\<rparr>) (ran os (EvNew (Some k)) u) = Some (q, w')"
    using qh h im by blast
  then show thesis
    using r pl plain_net [OF pl] ref qd queue_handle_wf [OF qh [unfolded h]]
    by (intro that [of d h]) (simp_all add: reset_counters_def plain_def)
qed

lemma of_desc_valid:
  assumes sys: "system_ok os" and c: "MessageQueueBase_of_desc D os fl sz desc r w = Some (q, w')"
    and v: "isValid q"
  obtains d where "initialized os d q" "net w w' (pieces os q)" "flavor q = fl" "sizeofT q = sz"
    "alone os \<Longrightarrow> wmem w' = reset_counters q r (the (mReadPtr q)) (the (mWritePtr q)) (wmem w)"
    "getSize d \<noteq> 0" "\<exists>u u'. desc_copy D os fl desc u = Some (d, u')"
proof -
  let ?q = "blank_queue fl sz"
  obtain md w1 where nd: "new_descriptor os (desc_copy D os fl desc) w = Some (md, w1)"
    using c by (auto simp: MessageQueueBase_of_desc_def split: bind_splits)
  then obtain d where md: "md = Some d" and size: "getSize d \<noteq> 0"
    and im: "initMemory os r (?q\<lparr>mDesc := Some d\<rparr>) w1 = Some (q, w')"
    using c v by (auto simp: MessageQueueBase_of_desc_def Let_def split: option.splits if_splits)
  have pl: "plain os w w1" and cp: "\<exists>u u'. desc_copy D os fl desc u = Some (d, u')"
    using new_descriptor_plain [OF nd copy_plain] md by auto
  have x: "net w1 w' (pieces os q) \<and> initialized os d q \<and> flavor q = fl \<and> sizeofT q = sz \<and>
      (alone os \<longrightarrow> wmem w' = reset_counters (?q\<lparr>mDesc := Some d\<rparr>) r
        (the (mReadPtr q)) (the (mWritePtr q)) (wmem w1))"
    using initMemory_result [OF sys, of "?q\<lparr>mDesc := Some d\<rparr>" d r w1] im v by fastforce
  show thesis
    using x pl plain_net [OF pl] size cp
    by (intro that [of d]) (simp_all add: reset_counters_def plain_def)
qed

end

text \<open>
  C34. The destructor undoes the constructor: whichever of the two made the object, destroying
  a valid object does not crash and unmaps exactly the pieces that are still mapped for it,
  each with the start and length it was mapped with.
\<close>

theorem destructor_releases_all:
  assumes D: "queue_descriptor_type D" and sys: "system_ok os" and v: "isValid q"
    and c: "MessageQueueBase_of_size D os fl sz n ev fd bs w = Some (q, w1) \<or>
      MessageQueueBase_of_desc D os fl sz desc r w = Some (q, w1)"
  shows "\<exists>w2 Y. MessageQueueBase_destroy D os q w1 = Some w2 \<and>
    mapped (hist w2) = Y + mapped (hist w) \<and> unmapped (hist w2) = Y + unmapped (hist w)"
proof -
  obtain d where i: "initialized os d q" and n: "net w w1 (pieces os q)"
    using c
  proof
    assume "MessageQueueBase_of_size D os fl sz n ev fd bs w = Some (q, w1)"
    then show thesis by (rule queue_descriptor_type.of_size_valid [OF D sys _ v]) (rule that)
  next
    assume "MessageQueueBase_of_desc D os fl sz desc r w = Some (q, w1)"
    then show thesis by (rule queue_descriptor_type.of_desc_valid [OF D sys _ v]) (rule that)
  qed
  obtain w2 where w2: "MessageQueueBase_destroy D os q w1 = Some w2" "mapped (hist w2) = mapped (hist w1)"
    "unmapped (hist w2) = pieces os q + unmapped (hist w1)"
    using queue_descriptor_type.destroy_result [OF D i] by blast
  have "net w w2 {#}" using n w2 by (intro net_unmap [of w w1 "{#}" "pieces os q"]) simp_all
  then show ?thesis using w2(1) by (auto simp: net_def)
qed

section \<open>A new queue\<close>

lemma initialized_wf:
  assumes i: "initialized os d q" and "sizeofT q \<noteq> 0" and "getSize d \<noteq> 0"
    and "sep (the (mRing q)) (unat (getSize d)) (the (mReadPtr q)) 8"
    and "sep (the (mRing q)) (unat (getSize d)) (the (mWritePtr q)) 8"
    and "sep (the (mReadPtr q)) 8 (the (mWritePtr q)) 8"
  shows "mq_wf q"
  using assms
  by (auto simp: initialized_def mq_wf_def isValid_def qdesc_def qring_def qrp_def qwp_def qS_def)

context queue_descriptor_type begin

lemma single_file_pointers:
  assumes i: "initialized os d q" and d: "queue_descriptor D fl sz S ev False h = Some d"
  obtains k1 k2 where "the (mWritePtr q) = Ptr (Shm k1) 8" "the (mRing q) = Ptr (Shm k2) 16"
    "(\<exists>k. the (mReadPtr q) = Ptr (Shm k) 0) \<or> (\<exists>k. the (mReadPtr q) = Ptr (Heap k) 0)"
    "getSize d = S" "getQuantum d = sizeofT q"
proof -
  have "mGrantors d \<noteq> []" using i by (auto simp: initialized_def countGrantors_def kMinGrantorCount_def)
  then have g: "mGrantors d = size_layout S ev"
    using d size_layout by (fastforce simp: queue_descriptor_def)
  then have "getSize d = S" by (simp add: getSize_def size_layout_def)
  moreover obtain k1 where "the (mWritePtr q) = Ptr (Shm k1) 8"
    using i g by (auto simp: initialized_def grantor_mapped_def Let_def size_layout_def)
  moreover obtain k2 where "the (mRing q) = Ptr (Shm k2) 16"
    using i g by (auto simp: initialized_def grantor_mapped_def Let_def size_layout_def)
  moreover have "(\<exists>k. the (mReadPtr q) = Ptr (Shm k) 0) \<or> (\<exists>k. the (mReadPtr q) = Ptr (Heap k) 0)"
    using i g by (auto simp: initialized_def grantor_mapped_def Let_def size_layout_def split: if_splits)
  ultimately show thesis using i by (intro that) (simp_all add: initialized_def)
qed

end

text \<open>The size of a queue whose ring and counters do not overlap.\<close>

lemma sized_queue_shape:
  assumes i: "initialized os d q" and acc: "size_refused sz n fd bs = Some False"
    and sz: "sizeofT q = sz" and size: "getSize d = n * sz"
    and sep: "sep (the (mRing q)) (unat n * unat sz) (the (mReadPtr q)) 8"
      "sep (the (mRing q)) (unat n * unat sz) (the (mWritePtr q)) 8"
      "sep (the (mReadPtr q)) 8 (the (mWritePtr q)) 8"
  shows "mq_wf q" "mq_whole q" "qcap q = unat n" "qz q = unat sz"
proof -
  note a = size_accepted [OF acc]
  have nsz: "unat (n * sz) = unat n * unat sz" by (rule unat_mult_no_wrap [OF a(3)])
  have "0 < unat n * unat sz" using a(1,2) by (simp add: unat_gt_0)
  then have pos: "n * sz \<noteq> 0" using nsz by (metis less_irrefl unat_0)
  show "mq_wf q"
    by (rule initialized_wf [OF i]) (use a(1) sz pos in \<open>simp_all add: size nsz sep\<close>)
  have "mDesc q = Some d" using i by (simp add: initialized_def)
  then have S: "qS q = unat n * unat sz" by (simp add: qS_def qdesc_def size nsz)
  show z: "qz q = unat sz" by (simp add: qz_def sz)
  show "mq_whole q" "qcap q = unat n"
    using a(1) by (simp_all add: mq_whole_def qcap_def S z unat_gt_0)
qed

context queue_descriptor_type begin

lemma new_queue_shape:
  assumes sys: "system_ok os" and c: "MessageQueueBase_of_size D os fl sz n ev (- 1) bs w = Some (q, w1)"
    and v: "isValid q"
  shows "mq_wf q" "mq_whole q" "qcap q = unat n" "qz q = unat sz" "flavor q = fl" "sizeofT q = sz"
proof -
  obtain d h where i: "initialized os d q" and sz: "sizeofT q = sz"
    and acc: "size_refused sz n (- 1) bs = Some False"
    and qd: "queue_descriptor D fl sz (n * sz) ev False h = Some d"
    by (rule of_size_valid [OF sys c v]) (rule that, simp_all)
  obtain k1 k2 where "the (mWritePtr q) = Ptr (Shm k1) 8" "the (mRing q) = Ptr (Shm k2) 16"
    "(\<exists>k. the (mReadPtr q) = Ptr (Shm k) 0) \<or> (\<exists>k. the (mReadPtr q) = Ptr (Heap k) 0)"
    and size: "getSize d = n * sz"
    by (rule single_file_pointers [OF i qd])
  then show "mq_wf q" "mq_whole q" "qcap q = unat n" "qz q = unat sz"
    by (auto intro!: sized_queue_shape [OF i acc sz size] simp: sep_def)
qed (use of_size_valid [OF sys c v] in blast)+

end

text \<open>
  C35. A queue the library allocates itself is ready for use when it is valid: it is well-formed,
  its ring and its counters do not overlap, it holds exactly the number of messages asked for,
  and it is empty. This is where the invariants of the two flavors hold for the first time.
\<close>

theorem new_queue_is_empty:
  assumes D: "queue_descriptor_type D" and sys: "system_ok os" and alone: "alone os"
    and c: "MessageQueueBase_of_size D os fl sz n ev (- 1) bs w = Some (q, w1)" and v: "isValid q"
  shows "qcap q = unat n \<and> qz q = unat sz \<and>
    (if fl = kSynchronizedReadWrite then fifo_inv q (wmem w1) \<and> contents q (wmem w1) = []
     else log_inv q (wmem w1) [] \<and> rdc q (wmem w1) = 0)"
proof -
  note shape = queue_descriptor_type.new_queue_shape [OF D sys c v]
  have m: "wmem w1 = store64 (store64 (wmem w) (qrp q) 0) (qwp q) 0"
    using queue_descriptor_type.of_size_valid [OF D sys c v] alone by (metis qrp_def qwp_def)
  have "rdc q (wmem w1) = 0" "wrc q (wmem w1) = 0"
    using mq_wf_sep(4) [OF shape(1)]
    by (simp_all add: rdc_def wrc_def m cell64.load_store_same cell64.load_store_sep)
  then show ?thesis
    using shape by (cases fl) (simp_all add: fifo_inv_def ring_inv_def contents_def log_inv_def)
qed

section \<open>Attaching to a queue\<close>

text \<open>A mapping shows the content of the file its descriptor refers to.\<close>

definition mmap_by_file :: "os \<Rightarrow> (int \<Rightarrow> nat) \<Rightarrow> bool" where
  "mmap_by_file os file \<longleftrightarrow> (\<forall>h n rw fd off k. os_mmap os h n rw fd off = Inr k \<longrightarrow> k = file fd)"

lemma mapped_place:
  assumes "grantor_mapped os d i p" and "mmap_by_file os file" and "mHandle d = Some h"
    and "handle_wf h"
  shows "p = Ptr (Shm (map file (handle_fds h) ! nat (sint (fdIndex (mGrantors d ! i)))))
    (unat (offset (mGrantors d ! i)))"
proof -
  let ?g = "mGrantors d ! i"
  from assms(1,3) have r: "0 \<le> sint (fdIndex ?g)" "sint (fdIndex ?g) < numFds h"
    by (auto simp: grantor_mapped_def Let_def)
  then have "nat (sint (fdIndex ?g)) < length (handle_fds h)"
    using handle_lengths [OF assms(4)] by simp
  then have "map file (handle_fds h) ! nat (sint (fdIndex ?g)) =
      file (data h ! nat (sint (fdIndex ?g)))"
    by (simp add: handle_fds_def)
  then show ?thesis
    using assms(1-3) by (auto simp: grantor_mapped_def Let_def mmap_by_file_def)
qed

lemma same_place:
  assumes "grantor_mapped os1 d1 i p1" "mmap_by_file os1 file1" "mHandle d1 = Some h1" "handle_wf h1"
    and "grantor_mapped os2 d2 i p2" "mmap_by_file os2 file2" "mHandle d2 = Some h2" "handle_wf h2"
    and "mGrantors d2 = mGrantors d1" "map file2 (handle_fds h2) = map file1 (handle_fds h1)"
  shows "p2 = p1"
  using mapped_place [OF assms(1-4)] mapped_place [OF assms(5-8)] assms(9,10) by simp

text \<open>
  Two objects for one queue: the ring and the write counter, and for the synchronized flavor the read
  counter, are the same places in the same files.
\<close>

definition shares_queue :: "MessageQueue \<Rightarrow> MessageQueue \<Rightarrow> bool" where
  "shares_queue q1 q2 \<longleftrightarrow> flavor q2 = flavor q1 \<and> mRing q2 = mRing q1 \<and> mWritePtr q2 = mWritePtr q1 \<and>
     (flavor q1 = kSynchronizedReadWrite \<longrightarrow> mReadPtr q2 = mReadPtr q1) \<and>
     sizeofT q2 = sizeofT q1 \<and> qS q2 = qS q1"

text \<open>
  What attaching \<open>q2\<close> to the queue of \<open>q1\<close> does to the memory: a reset sets both counters to 0, and
  without it a reader of the unsynchronized flavor starts its own counter at 0; nothing else is written. For the
  synchronized flavor both objects have the same unread messages in every memory, none after a reset; for the
  other the log of the queue is kept, or begun anew by a reset.
\<close>

definition attached_to :: "MessageQueue \<Rightarrow> MessageQueue \<Rightarrow> bool \<Rightarrow> mem \<Rightarrow> mem \<Rightarrow> bool" where
  "attached_to q1 q2 r m m' \<longleftrightarrow> shares_queue q1 q2 \<and>
     m' = (if r then store64 (store64 m (qrp q2) 0) (qwp q2) 0
       else if flavor q1 = kSynchronizedReadWrite then m else store64 m (qrp q2) 0) \<and>
     (if flavor q1 = kSynchronizedReadWrite
      then (\<forall>l. contents q2 l = contents q1 l \<and> (fifo_inv q2 l \<longleftrightarrow> fifo_inv q1 l)) \<and>
        (r \<and> fifo_inv q1 m \<longrightarrow> fifo_inv q1 m' \<and> contents q1 m' = [])
      else rdc q2 m' = 0 \<and>
        (\<forall>log. log_inv q1 m log \<longrightarrow> log_inv q2 m' (if r then [] else log)))"

lemma shares_queue_sizes:
  assumes "shares_queue q1 q2"
  shows "qz q2 = qz q1" "qcap q2 = qcap q1" "qring q2 = qring q1" "qwp q2 = qwp q1"
    "ring_slot q2 i = ring_slot q1 i" "mq_whole q2 \<longleftrightarrow> mq_whole q1" "wrc q2 m = wrc q1 m"
    "flavor q1 = kSynchronizedReadWrite \<Longrightarrow> qrp q2 = qrp q1"
    "flavor q1 = kSynchronizedReadWrite \<Longrightarrow> rdc q2 m = rdc q1 m"
  using assms
  by (simp_all add: shares_queue_def qz_def qcap_def qring_def qrp_def qwp_def ring_slot_def mq_whole_def
      wrc_def rdc_def)

lemma fifo_inv_emptied:
  assumes "fifo_inv q m"
  shows "fifo_inv q (store64 (store64 m (qrp q) 0) (qwp q) 0)"
    "contents q (store64 (store64 m (qrp q) 0) (qwp q) 0) = []"
  using assms mq_wf_sep(4)[OF fifo_invD(1) [OF assms]]
  by (simp_all add: fifo_inv_def ring_inv_def contents_def rdc_def wrc_def cell64.load_store_same cell64.load_store_sep)

lemma log_inv_attached:
  assumes l: "log_inv q1 m log" and s: "shares_queue q1 q2" and wf: "mq_wf q2" and hp: "qrp q2 = Ptr (Heap k) 0"
    and sh: "pobj (qring q2) \<noteq> Heap k" "pobj (qwp q2) \<noteq> Heap k"
  shows "log_inv q2 (store64 m (qrp q2) 0) log"
proof -
  have w: "wrc q2 (store64 m (qrp q2) 0) = wrc q1 m"
    using sh(2) by (simp add: shares_queue_sizes(4) [OF s, symmetric] wrc_def hp sep_def cell64.load_store_sep)
  have b: "rd_bytes (store64 m (qrp q2) 0) (ring_slot q2 i) n = rd_bytes m (ring_slot q2 i) n" for i n
    by (rule cell64.rd_bytes_store_sep) (use sh(1) in \<open>auto simp: sep_def ring_slot_def hp\<close>)
  show ?thesis
    using l s wf w b unfolding log_inv_def by (simp add: shares_queue_sizes [OF s]) (simp add: shares_queue_def)
qed

lemma log_inv_reset:
  assumes "log_inv q1 m log" and s: "shares_queue q1 q2" and wf: "mq_wf q2"
  shows "log_inv q2 (store64 m' (qwp q2) 0) []"
  using assms by (auto simp: log_inv_def shares_queue_sizes [OF s] wrc_def shares_queue_def
      cell64.load_store_same)

context queue_descriptor_type begin

lemma attached_object:
  assumes q1: "initialized os1 d1 q1" "flavor q1 = fl"
      "mHandle d1 = Some h1" "handle_wf h1" "mmap_by_file os1 file1"
    and sent: "mGrantors desc = mGrantors d1" "mQuantum desc = mQuantum d1"
      "mHandle desc = Some h" "handle_wf h" "map file2 (handle_fds h) = map file1 (handle_fds h1)"
    and os2: "system_ok os2" "dup_same_file os2 file2" "mmap_by_file os2 file2"
    and c: "MessageQueueBase_of_desc D os2 fl sz desc r w = Some (q2, w2)"
    and v: "isValid q2"
  obtains d2 where "initialized os2 d2 q2" "net w w2 (pieces os2 q2)" "shares_queue q1 q2"
    "getSize (qdesc q2) = getSize (qdesc q1)" "getQuantum (qdesc q2) = getQuantum (qdesc q1)"
    "mDesc q1 \<noteq> None" "mDesc q2 \<noteq> None"
    "alone os2 \<Longrightarrow> wmem w2 = reset_counters q2 r (qrp q2) (qwp q2) (wmem w)"
proof -
  obtain d2 u u' where i2: "initialized os2 d2 q2" and f2: "flavor q2 = fl"
    and m: "alone os2 \<Longrightarrow> wmem w2 = reset_counters q2 r (qrp q2) (qwp q2) (wmem w)"
    and cp: "desc_copy D os2 fl desc u = Some (d2, u')"
    and nt: "net w w2 (pieces os2 q2)"
    using of_desc_valid [OF os2(1) c v] unfolding qrp_def qwp_def by metis
  obtain h2 where h2: "mHandle d2 = Some h2" "same_handle file2 h h2" and g2: "mGrantors d2 = mGrantors d1"
    and z2: "mQuantum d2 = mQuantum d1"
    using copy_same [OF cp sent(3,4) os2(2)] sent(1,2) by auto
  have files: "handle_wf h2" "map file2 (handle_fds h2) = map file1 (handle_fds h1)"
    using h2(2) sent(5) by (simp_all add: same_handle_def)
  note same = same_place [OF _ q1(5,3,4) _ os2(3) h2(1) files(1) g2 files(2)]
  have ptrs: "mRing q2 = mRing q1" "mWritePtr q2 = mWritePtr q1"
    "fl = kSynchronizedReadWrite \<Longrightarrow> mReadPtr q2 = mReadPtr q1"
    using q1(1,2) i2 f2 same unfolding initialized_def by (auto split: if_splits)
  have sizes: "getSize d2 = getSize d1" "getQuantum d2 = getQuantum d1"
    using g2 z2 by (simp_all add: getSize_def getQuantum_def)
  moreover have made: "mDesc q1 = Some d1" "mDesc q2 = Some d2" "sizeofT q1 = getQuantum d1"
    "sizeofT q2 = getQuantum d2"
    using q1(1) i2 by (simp_all add: initialized_def)
  ultimately have "shares_queue q1 q2"
    using ptrs q1(2) f2 by (simp add: shares_queue_def qS_def qdesc_def)
  then show thesis
    using that [OF i2 nt _ _ _ _ _ m] sizes made by (simp add: qdesc_def)
qed

lemma attached_same:
  assumes q1: "initialized os1 d1 q1" "flavor q1 = fl"
      "mHandle d1 = Some h1" "handle_wf h1" "mmap_by_file os1 file1"
    and sent: "mGrantors desc = mGrantors d1" "mQuantum desc = mQuantum d1"
      "mHandle desc = Some h" "handle_wf h" "map file2 (handle_fds h) = map file1 (handle_fds h1)"
    and os2: "system_ok os2" "alone os2" "dup_same_file os2 file2" "mmap_by_file os2 file2"
    and c: "MessageQueueBase_of_desc D os2 fl sz desc r w = Some (q2, w2)"
    and v: "isValid q2"
  shows "attached_to q1 q2 r (wmem w) (wmem w2)"
  using attached_object [OF q1 sent os2(1,3,4) c v]
proof cases
  case (1 d2)
  note s = 1(3) and sizes = 1(4-7)
  have f2: "flavor q2 = fl" using s q1(2) by (simp add: shares_queue_def)
  have v1: "isValid q1" using q1(1) by (auto simp: initialized_def isValid_def)
  have m: "wmem w2 = (if r then store64 (store64 (wmem w) (qrp q2) 0) (qwp q2) 0
       else if flavor q1 = kSynchronizedReadWrite then wmem w else store64 (wmem w) (qrp q2) 0)"
    using 1(8) [OF os2(2)] f2 q1(2) by (simp add: reset_counters_def)
  show ?thesis
  proof (cases "fl = kSynchronizedReadWrite")
    case True
    then have "contents q2 l = contents q1 l" "fifo_inv q2 l \<longleftrightarrow> fifo_inv q1 l" for l
      using sizes s q1(2) v v1
      by (simp_all add: contents_def fifo_inv_def ring_inv_def mq_wf_def shares_queue_sizes [OF s] cong: map_cong)
        (simp add: shares_queue_def)
    moreover have "qrp q2 = qrp q1" "qwp q2 = qwp q1" using shares_queue_sizes [OF s] True q1(2) by simp_all
    ultimately show ?thesis
      using s True q1(2) m fifo_inv_emptied [of q1 "wmem w"] by (simp add: attached_to_def)
  next
    case False
    obtain k where k: "qrp q2 = Ptr (Heap k) 0" using 1(1) f2 False by (auto simp: initialized_def qrp_def)
    have sh: "pobj (qring q2) \<noteq> Heap k" "pobj (qwp q2) \<noteq> Heap k"
      using 1(1) by (auto simp: initialized_def qring_def qwp_def grantor_mapped_def Let_def)
    have z: "rdc q2 (wmem w2) = 0"
      using m False q1(2) sh(2) by (simp add: rdc_def k sep_def cell64.load_store_same cell64.load_store_sep)
    have "log_inv q2 (wmem w2) (if r then [] else log)" if l: "log_inv q1 (wmem w) log" for log
    proof -
      have "mq_wf q1" using l by (simp add: log_inv_def)
      then have "mq_wf q2"
        using sizes s v k sh unfolding mq_wf_def
        by (simp add: shares_queue_sizes [OF s]) (simp add: shares_queue_def shares_queue_sizes [OF s] sep_def qS_def)
      then show ?thesis
        using m False q1(2) log_inv_reset [OF l s] log_inv_attached [OF l s _ k sh] by simp
    qed
    then show ?thesis using s z False q1(2) m by (simp add: attached_to_def)
  qed
qed

end

end
