(* ===== verification/AidlHandover.thy ===== *)
theory AidlHandover
  imports AidlDescriptorProps MessageQueueLifecycle
begin

text \<open>
  The whole way of a queue from one process to another: the first process makes the queue and
  duplicates its descriptor, the file descriptors travel, the second process makes its own queue
  object from what it received.
\<close>

lemma dupe_grantor_inject:
  assumes "map dupe_grantor gs = map dupe_grantor gs'"
    and "\<forall>g \<in> set gs. flags g = 0" and "\<forall>g \<in> set gs'. flags g = 0"
  shows "gs = gs'"
proof (rule nth_equalityI)
  show len: "length gs = length gs'" using assms(1) by (rule map_eq_imp_length_eq)
  fix i assume i: "i < length gs"
  then have "dupe_grantor (gs ! i) = dupe_grantor (gs' ! i)"
    using assms(1) len by (metis nth_map)
  moreover have "flags (gs ! i) = 0" "flags (gs' ! i) = 0" using assms(2,3) i len by simp_all
  ultimately show "gs ! i = gs' ! i"
    by (simp add: dupe_grantor_def GrantorDescriptor.equality)
qed

text \<open>The descriptor for a file of the caller: the counters and the flag word in one file, the ring in the other.\<close>

lemma user_file_layout:
  assumes "queue_descriptor Shim fl sz S ev True h = Some d"
  shows "mHandle d = Some h" "mGrantors d = take (if ev then 4 else 3)
    [\<lparr>flags = 0, fdIndex = 0, offset = 0, extent = 8\<rparr>, \<lparr>flags = 0, fdIndex = 0, offset = 8, extent = 8\<rparr>,
     \<lparr>flags = 0, fdIndex = 1, offset = 0, extent = S\<rparr>, \<lparr>flags = 0, fdIndex = 0, offset = 16, extent = 4\<rparr>]"
  using assms
  by (auto simp: queue_descriptor_def shim_of_grantors_def align_small kMinGrantorCount_def
      kMinGrantorCountForEvFlagSupport_def split: if_splits)

lemma made_for_handle:
  assumes "queue_descriptor Shim fl sz S ev userFile h = Some d"
  shows "mHandle d = Some h" "\<forall>g \<in> set (mGrantors d). flags g = 0"
proof -
  show "mHandle d = Some h"
    using assms user_file_layout(1) [of fl sz S ev h d]
    by (cases userFile) (auto simp: queue_descriptor_def shim_of_size_eq split: if_splits)
  show "\<forall>g \<in> set (mGrantors d). flags g = 0"
  proof (cases userFile)
    case True
    then show ?thesis
      using assms user_file_layout(2) [of fl sz S ev h d] by (auto dest: in_set_takeD)
  next
    case False
    then show ?thesis
      using assms by (auto simp: queue_descriptor_def shim_of_size_eq size_layout_def split: if_splits)
  qed
qed

lemma dupeDesc_result:
  assumes "dupeDesc os (Some d) w = Some (a, w')" and "mHandle d = Some h" and "dup_same_file os file"
  shows "a_grantors a = map dupe_grantor (mGrantors d)" "a_quantum a = mQuantum d"
    "map file (a_fds a) = map file (handle_fds h)" "a_ints a = handle_ints h"
proof -
  obtain fds where d: "dup_all os (handle_fds h) w = (fds, w')"
    and a: "a = \<lparr>a_grantors = map dupe_grantor (mGrantors d), a_fds = fds, a_ints = handle_ints h,
      a_quantum = mQuantum d, a_flags = getFlags d\<rparr>"
    using assms(1,2) by (auto simp: dupeDesc_def getQuantum_def split: prod.splits)
  show "a_grantors a = map dupe_grantor (mGrantors d)" "a_quantum a = mQuantum d"
    "map file (a_fds a) = map file (handle_fds h)" "a_ints a = handle_ints h"
    using dup_all_result(4) [OF d assms(3)] by (simp_all add: a)
qed

lemma shim_of_desc_plain: "shim_of_desc os a w = (d, w') \<Longrightarrow> plain os w w'"
  using dup_all_plain [of os "a_fds a"]
  by (auto simp: shim_of_desc_def native_handle_create_def Let_def
      split: prod.splits if_splits option.splits intro: plain_trans [OF plain_ran(3)])

text \<open>The descriptor that arrives describes the files of the one that was sent.\<close>

lemma received_descriptor:
  assumes made: "AidlMessageQueue_of_size os1 U sz n ev fd bs w = Some (q1, w1)"
      "isValid q1" "system_ok os1" "dup_same_file os1 file1"
    and sent: "dupeDesc os1 (mDesc q1) u = Some (a, u')"
    and travel: "map file2 fds = map file1 (a_fds a)"
    and os2: "system_ok os2" "dup_same_file os2 file2"
    and got: "AidlMessageQueue_of_desc os2 U2 sz2 (a\<lparr>a_fds := fds\<rparr>) r v = Some (q2, v')" "isValid q2"
  obtains d1 h1 d2 h2 v1 v2 where "initialized os1 d1 q1" "flavor q1 = FlavorTypeToValue U"
    "mHandle d1 = Some h1" "handle_wf h1"
    "MessageQueueBase_of_desc Shim os2 (FlavorTypeToValue U2) sz2 d2 r v1 = Some (q2, v2)"
    "mGrantors d2 = mGrantors d1" "mQuantum d2 = mQuantum d1" "mHandle d2 = Some h2" "handle_wf h2"
    "map file2 (handle_fds h2) = map file1 (handle_fds h1)" "plain os2 v v1" "plain os2 v2 v'"
proof -
  have c1: "MessageQueueBase_of_size Shim os1 (FlavorTypeToValue U) sz n ev fd bs w = Some (q1, w1)"
    using made(1) by (simp add: AidlMessageQueue_of_size_def)
  obtain d1 h1 where i1: "initialized os1 d1 q1" and f1: "flavor q1 = FlavorTypeToValue U"
    and qd: "queue_descriptor Shim (FlavorTypeToValue U) sz (n * sz) ev (fd \<noteq> - 1) h1 = Some d1"
    and wf1: "handle_wf h1"
    by (rule shim.of_size_valid [OF made(3) c1 made(2)]) (rule that, simp_all)
  note h1 = made_for_handle [OF qd]
  have d1: "mDesc q1 = Some d1" using i1 by (simp add: initialized_def)
  note a = dupeDesc_result [OF sent [unfolded d1] h1(1) made(4)]
  obtain d2 v1 where sh: "shim_of_desc os2 (a\<lparr>a_fds := fds\<rparr>) v = (d2, v1)" by fastforce
  then obtain v2 where c2: "MessageQueueBase_of_desc Shim os2 (FlavorTypeToValue U2) sz2 d2 r v1 = Some (q2, v2)"
    and v': "v' = shim_destroy os2 d2 v2"
    using got(1) by (auto simp: AidlMessageQueue_of_desc_def split: bind_splits)
  have hv: "isHandleValid d2"
  proof -
    obtain d3 s s' where i3: "initialized os2 d3 q2"
      and cp: "shim_copy os2 (FlavorTypeToValue U2) d2 s = Some (d3, s')"
      using shim.of_desc_valid [OF os2(1) c2 got(2)] unfolding Shim_simps by metis
    have "mHandle d3 \<noteq> None" using i3 by (auto simp: initialized_def grantor_mapped_def)
    then show ?thesis using cp
      by (auto simp: shim_copy_def shim_assign_def isHandleValid_def Let_def
          split: bind_splits option.splits)
  qed
  then obtain h2 where h2: "mHandle d2 = Some h2" "handle_wf h2"
    and rng: "aidl_range d2" "a_grantors a = map dupe_grantor (mGrantors d2)"
    and files: "map file2 (handle_fds h2) = map file1 (handle_fds h1)"
    and quantum: "mQuantum d2 = mQuantum d1"
    using shim_of_desc_result [OF sh, of file2] os2(2) a travel by auto
  have "\<forall>g \<in> set (mGrantors d2). flags g = 0" using rng(1) by (simp add: aidl_range_def)
  then have grantors: "mGrantors d2 = mGrantors d1"
    using dupe_grantor_inject [of "mGrantors d2" "mGrantors d1"] rng(2) a(1) h1(2) by simp
  show thesis
    by (rule that [OF i1 f1 h1(1) wf1 c2 grantors quantum h2 files shim_of_desc_plain [OF sh]])
      (simp add: v' shim_destroy_plain)
qed

text \<open>
  C11. A queue handed to another process, of either flavor, in the library's own file or in one of the caller,
  with or without a reset: when the file descriptors that arrive refer to the same files, a valid object made
  there is attached to the queue of the sender. Ring and write counter are the same places, for the synchronized
  flavor the read counter too, so both objects have the same unread messages in every memory. Without a reset
  attaching writes nothing but the reader's own counter of the unsynchronized flavor, which starts at 0 and
  leaves the log as it was; with a reset it writes 0 to both counters and the queue is empty.
\<close>

theorem handover_same_queue:
  assumes made: "AidlMessageQueue_of_size os1 U sz n ev fd bs w = Some (q1, w1)"
      "isValid q1" "system_ok os1" "mmap_by_file os1 file1" "dup_same_file os1 file1"
    and sent: "dupeDesc os1 (mDesc q1) u = Some (a, u')"
    and travel: "map file2 fds = map file1 (a_fds a)"
    and os2: "system_ok os2" "alone os2" "dup_same_file os2 file2" "mmap_by_file os2 file2"
    and got: "AidlMessageQueue_of_desc os2 U sz2 (a\<lparr>a_fds := fds\<rparr>) resetPointers v = Some (q2, v')" "isValid q2"
  shows "attached_to q1 q2 resetPointers (wmem v) (wmem v')"
proof -
  obtain d1 h1 d2 h2 v1 v2 where i: "initialized os1 d1 q1" "flavor q1 = FlavorTypeToValue U"
      "mHandle d1 = Some h1" "handle_wf h1"
    and c: "MessageQueueBase_of_desc Shim os2 (FlavorTypeToValue U) sz2 d2 resetPointers v1 = Some (q2, v2)"
    and d2: "mGrantors d2 = mGrantors d1" "mQuantum d2 = mQuantum d1" "mHandle d2 = Some h2" "handle_wf h2"
      "map file2 (handle_fds h2) = map file1 (handle_fds h1)"
    and pl: "plain os2 v v1" "plain os2 v2 v'"
    by (rule received_descriptor [OF made(1-3,5) sent travel os2(1,3) got])
  have "wmem v1 = wmem v" "wmem v' = wmem v2" using pl os2(2) by (simp_all add: plain_def)
  then show ?thesis using shim.attached_same [OF i made(4) d2 os2 c got(2)] by simp
qed

end
