(* ===== verification/HidlMessageQueue.thy ===== *)
theory HidlMessageQueue
  imports MessageQueueLifecycle
begin

text \<open>
  Model of include/fmq/MessageQueue.h: the queue of HIDL. Its constructors pass their arguments on to
  \<open>MessageQueueBase\<close>, its destructor is that of the base. The descriptor type \<open>H\<close> is in another
  repository: a parameter, of which the properties assume the contract \<open>queue_descriptor_type\<close>. A
  descriptor is seen through the accessors of an \<open>MQDescriptor\<close>.
\<close>

section \<open>Construction\<close>

definition HidlMessageQueue_of_desc ::
  "descriptor_type \<Rightarrow> os \<Rightarrow> MQFlavor \<Rightarrow> u64 \<Rightarrow> MQDescriptor \<Rightarrow> bool \<Rightarrow> world \<Rightarrow> (MessageQueue \<times> world) option"
where
  "HidlMessageQueue_of_desc H os fl sz Desc resetPointers w =
     MessageQueueBase_of_desc H os fl sz Desc resetPointers w"

definition HidlMessageQueue_of_buffer ::
  "descriptor_type \<Rightarrow> os \<Rightarrow> MQFlavor \<Rightarrow> u64 \<Rightarrow> u64 \<Rightarrow> bool \<Rightarrow> int \<Rightarrow> u64 \<Rightarrow> world \<Rightarrow> (MessageQueue \<times> world) option"
where
  "HidlMessageQueue_of_buffer H os fl sz numElementsInQueue configureEventFlagWord bufferFd bufferSize w =
     MessageQueueBase_of_size H os fl sz numElementsInQueue configureEventFlagWord bufferFd bufferSize w"

text \<open>The default: no file of the caller (\<open>unique_fd()\<close> holds -1).\<close>

definition HidlMessageQueue_of_size ::
  "descriptor_type \<Rightarrow> os \<Rightarrow> MQFlavor \<Rightarrow> u64 \<Rightarrow> u64 \<Rightarrow> bool \<Rightarrow> world \<Rightarrow> (MessageQueue \<times> world) option" where
  "HidlMessageQueue_of_size H os fl sz numElementsInQueue configureEventFlagWord w =
     MessageQueueBase_of_size H os fl sz numElementsInQueue configureEventFlagWord (- 1) 0 w"

section \<open>The way to another process\<close>


text \<open>
  What arrives in another process for the descriptor of a queue: the same grantors, the same quantum,
  and file descriptors for the same files.
\<close>

definition arrived :: "(int \<Rightarrow> nat) \<Rightarrow> (int \<Rightarrow> nat) \<Rightarrow> MQDescriptor \<Rightarrow> MQDescriptor \<Rightarrow> bool" where
  "arrived file1 file2 d1 d2 \<longleftrightarrow> mGrantors d2 = mGrantors d1 \<and> mQuantum d2 = mQuantum d1 \<and>
     (case (mHandle d1, mHandle d2) of
        (Some h1, Some h2) \<Rightarrow> handle_wf h2 \<and> map file2 (handle_fds h2) = map file1 (handle_fds h1)
      | (a, b) \<Rightarrow> a = None \<and> b = None)"

text \<open>The descriptor for a file of the caller keeps the handle it is made for.\<close>

definition keeps_handle :: "descriptor_type \<Rightarrow> bool" where
  "keeps_handle H \<longleftrightarrow> (\<forall>fl gs nh sz. mHandle (desc_of_grantors H fl gs nh sz) = nh)"

context queue_descriptor_type begin

lemma made_handle:
  assumes "queue_descriptor D fl sz S ev userFile h = Some d" and "userFile \<Longrightarrow> keeps_handle D"
  shows "mHandle d = Some h"
  using assms size_layout by (auto simp: queue_descriptor_def keeps_handle_def split: if_splits)

lemma made_descriptor:
  assumes "system_ok os" and "MessageQueueBase_of_size D os fl sz n ev fd bs w = Some (q, w1)" and "isValid q"
    and "fd \<noteq> - 1 \<Longrightarrow> keeps_handle D"
  obtains d h where "initialized os d q" "flavor q = fl" "mDesc q = Some d" "mHandle d = Some h" "handle_wf h"
proof -
  obtain d h where i: "initialized os d q" and f: "flavor q = fl" and h: "handle_wf h"
    and qd: "queue_descriptor D fl sz (n * sz) ev (fd \<noteq> - 1) h = Some d"
    by (rule of_size_valid [OF assms(1-3)]) (rule that, simp_all)
  have "mDesc q = Some d" using i by (simp add: initialized_def)
  then show thesis using that [OF i f _ made_handle [OF qd assms(4)] h] by blast
qed

end

text \<open>
  C29. A HIDL queue handed to another process, whatever the two implementations of the descriptor, as long as
  they keep the contract, of either flavor, in the library's own file or in one of the caller, with or without a
  reset: a valid object made from what arrives is attached to the queue of the sender, as in the handover of an
  AIDL queue.
\<close>

theorem hidl_handover_same_queue:
  assumes H: "queue_descriptor_type H1" "queue_descriptor_type H2"
    and made: "HidlMessageQueue_of_size H1 os1 fl sz n ev w = Some (q1, w1) \<or>
        keeps_handle H1 \<and> HidlMessageQueue_of_buffer H1 os1 fl sz n ev fd bs w = Some (q1, w1)"
      "isValid q1" "system_ok os1" "mmap_by_file os1 file1"
    and travel: "mDesc q1 = Some d1" "arrived file1 file2 d1 d2"
    and os2: "system_ok os2" "alone os2" "dup_same_file os2 file2" "mmap_by_file os2 file2"
    and got: "HidlMessageQueue_of_desc H2 os2 fl sz2 d2 resetPointers v = Some (q2, v')" "isValid q2"
  shows "attached_to q1 q2 resetPointers (wmem v) (wmem v')"
proof -
  obtain fd' bs' where c: "MessageQueueBase_of_size H1 os1 fl sz n ev fd' bs' w = Some (q1, w1)"
    and k: "fd' \<noteq> - 1 \<Longrightarrow> keeps_handle H1"
    using made(1) unfolding HidlMessageQueue_of_size_def HidlMessageQueue_of_buffer_def by blast
  obtain h1 where i: "initialized os1 d1 q1" "flavor q1 = fl" "mHandle d1 = Some h1" "handle_wf h1"
    by (rule queue_descriptor_type.made_descriptor [OF H(1) made(3) c made(2) k]) (use travel(1) that in simp_all)
  obtain h2 where a: "mGrantors d2 = mGrantors d1" "mQuantum d2 = mQuantum d1" "mHandle d2 = Some h2" "handle_wf h2"
      "map file2 (handle_fds h2) = map file1 (handle_fds h1)"
    using travel(2) i(3) by (auto simp: arrived_def split: option.splits)
  show ?thesis
    by (rule queue_descriptor_type.attached_same [OF H(2) i made(4) a os2 got(1) [unfolded HidlMessageQueue_of_desc_def]
      got(2)])
qed

end
