(* ===== verification/SystemExamples.thy ===== *)
theory SystemExamples
  imports QueueExamples BlockingQueue AidlHandover HidlMessageQueue
begin

text \<open>
  A concrete system for the witnesses of the properties that depend on one: files are numbered by
  the last two digits of their descriptors, waits end in a time-out, the clock shows one more
  than the latest time it has shown.
\<close>

fun latest :: "history \<Rightarrow> int" where
  "latest [] = 0"
| "latest (EvClock t # h) = max t (latest h)"
| "latest (e # h) = latest h"

lemma latest_ge: "t \<le> latest (es @ EvClock t # h)"
proof (induction es)
  case (Cons e es)
  then show ?case by (cases e) auto
qed simp

definition ex_file :: "int \<Rightarrow> nat" where "ex_file fd = nat (fd mod 100)"

definition ex_os :: os where
  "ex_os = \<lparr>os_run = (\<lambda>h m. m), os_futexWait = (\<lambda>h m p v t b. Some 110),
     os_futexWake = (\<lambda>h m p b. None), os_clock = (\<lambda>h. latest h + 1),
     os_gettime = (\<lambda>h. \<lparr>tv_sec = 5, tv_nsec = 999999999\<rparr>),
     os_mmap = (\<lambda>h n rw fd off. if off < 0 then Inl 22 else Inr (ex_file fd)),
     os_munmap = (\<lambda>h ob s n. None), os_new = (\<lambda>h. Some (length h)),
     os_handleCreate = (\<lambda>h nf ni. True), os_dup = (\<lambda>h fd. fd + 100), os_ashmem = (\<lambda>h sz. 7),
     os_pagesize = 4096\<rparr>"

lemma ex_os_facts: "errno_nonzero ex_os" "clock_advances ex_os" "readers_only ex_os q"
  "writers_only ex_os q" "alone ex_os" "handles_available ex_os" "dup_same_file ex_os ex_file"
  "mmap_by_file ex_os ex_file"
proof -
  have "t < latest (es @ EvClock t # h) + 1" for es t h
    using latest_ge [of t es h] by linarith
  then show "clock_advances ex_os" by (simp add: clock_advances_def ex_os_def)
qed (simp_all add: ex_os_def errno_nonzero_def readers_only_def writers_only_def alone_def
    handles_available_def dup_same_file_def mmap_by_file_def ex_file_def split: if_splits)

lemma ex_system_ok: "system_ok ex_os"
proof -
  have "page ex_os = 2 ^ 12" by (simp add: page_def ex_os_def)
  then have "\<exists>k. 3 \<le> k \<and> k < 31 \<and> page ex_os = 2 ^ k" by (intro exI [of _ 12]) simp
  then show ?thesis by (simp add: system_ok_def ex_os_def)
qed

section \<open>The event flag\<close>

definition ex_word :: ptr where "ex_word = Ptr (Shm 1) 0"

definition ex_ef :: EventFlag where
  "ex_ef = \<lparr>mEfWordNeedsUnmapping = False, mEfWordPtr = Some ex_word\<rparr>"

text \<open>The queue's memory of the examples, with an event flag word in another file.\<close>

definition ex_world :: "u32 \<Rightarrow> world" where
  "ex_world v = \<lparr>wmem = store32 (ex_mem 6 10) ex_word v, hist = []\<rparr>"

lemma ex_ef_word [simp]: "mEfWordPtr ex_ef = Some ex_word" by (simp add: ex_ef_def)

lemma ex_world_word [simp]: "load32 (wmem (ex_world v)) ex_word = v"
  by (simp add: ex_world_def cell32.load_store_same)

theorem wait_takes_what_it_reports_witness:
  "\<exists>w'. ef_wait 3 ex_os ex_ef 2 (Some 0) 0 False (ex_world 6) = Some (Done (0, Some 2, w')) \<and>
    took ex_os ex_word 2 (ex_world 6) 0 2 w'"
proof -
  let ?w = "(ex_world 6)\<lparr>wmem := store32 (wmem (ex_world 6)) ex_word (6 AND NOT 2)\<rparr>"
  have r: "ef_wait 3 ex_os ex_ef 2 (Some 0) 0 False (ex_world 6) = Some (Done (0, Some 2, ?w))"
    by (simp add: ef_wait_def waitHelper_def atomic_fetch_and_def Let_def)
  show ?thesis
    using wait_takes_what_it_reports [OF ex_ef_word _ ex_os_facts(1) r] r by auto
qed

theorem wait_with_limit_returns_witness:
  "\<exists>st s w'. ef_wait 9 ex_os ex_ef 2 (Some 0) 8 True (ex_world 1) = Some (Done (st, Some s, w'))"
  by (rule wait_with_limit_returns [OF ex_ef_word _ ex_os_facts(1,2)]) simp_all

theorem wake_sets_bits_witness:
  "\<exists>w1. wake ex_os ex_ef 3 (ex_world 1) = Some (0, ran ex_os (EvFutexWake ex_word 3 None) w1) \<and>
    load32 (wmem w1) ex_word = 3"
  using wake_sets_bits [OF ex_ef_word, of ex_os 3 "ex_world 1"]
  by (auto simp: ex_os_def cell32.load_store_same)

theorem wake_then_wait_witness:
  "\<exists>st w1 s w2. wake ex_os ex_ef 3 (ex_world 0) = Some (st, w1) \<and>
    ef_wait 1 ex_os ex_ef 2 (Some 0) 0 False w1 = Some (Done (0, Some s, w2)) \<and> 2 AND s = 2"
proof -
  obtain st w1 where w: "wake ex_os ex_ef 3 (ex_world 0) = Some (st, w1)"
    by (simp add: wake_def atomic_fetch_or_def sys_futexWake_def Let_def)
  have alone: "load32 (os_run ex_os h m) ex_word = load32 m ex_word" for h m
    by (simp add: ex_os_def)
  have "(3 :: u32) AND 2 = 2" by simp
  then show ?thesis
    using wake_then_wait [OF ex_ef_word w alone, of 2 1 0 0] w by (auto simp flip: and.assoc)
qed

theorem addNanoseconds_exact_witness:
  "addNanoseconds 1500000000 \<lparr>tv_sec = 5, tv_nsec = 999999999\<rparr> = \<lparr>tv_sec = 7, tv_nsec = 499999999\<rparr> \<and>
    7 * kNanosPerSecond + 499999999 = 5 * kNanosPerSecond + 999999999 + (1500000000 :: int)"
proof -
  have e: "addNanoseconds 1500000000 \<lparr>tv_sec = 5, tv_nsec = 999999999\<rparr> =
      \<lparr>tv_sec = 7, tv_nsec = 499999999\<rparr>"
    by (simp add: addNanoseconds_def kNanosPerSecond_def signed_divide_int_def signed_modulo_int_def)
  show ?thesis
    using addNanoseconds_exact [of 1500000000 "\<lparr>tv_sec = 5, tv_nsec = 999999999\<rparr>"] e
    by (simp add: kNanosPerSecond_def)
qed

section \<open>Blocking calls\<close>

lemma ex_world_0: "wmem (ex_world 0) = ex_mem 6 10"
proof -
  have "load32 (ex_mem 6 10) ex_word = 0"
    by (simp add: load32_def rd_bytes_def ex_mem_def wr_bytes_def ex_buf_def ex_word_def upt_rec)
  then have "store32 (ex_mem 6 10) ex_word 0 = ex_mem 6 10"
    using store32_load32 [of "ex_mem 6 10" ex_word] by simp
  then show ?thesis by (simp add: ex_world_def)
qed

lemma ex_blocking_call: "b \<noteq> 0 \<Longrightarrow> unat n \<le> 3 \<Longrightarrow> blocking_call ex_sync n b (Some ex_ef) ex_ef ex_word"
  by (simp add: blocking_call_def flag_apart_def sep_def ex_word_def)

lemma ex_ready: "unat n \<le> 3 \<Longrightarrow> write_ready ex_sync ex_buf n (wmem (ex_world 0))"
  "unat n \<le> 3 \<Longrightarrow> read_ready ex_sync ex_buf n (wmem (ex_world 0))"
  by (simp_all add: write_ready_def read_ready_def ex_world_0 ex_fifo_6_10 ex_user_buf ex_counters)

theorem writeBlocking_is_one_write_witness:
  "\<exists>w' w1 w2. writeBlocking 1 ex_os ex_sync (Some ex_buf) 1 1 2 0 (Some ex_ef) (ex_world 0) =
      Some (Done (True, w')) \<and> waiting ex_os ex_word 1 (ex_world 0) w1 \<and>
    contents ex_sync (wmem w2) = contents ex_sync (wmem w1) @ elems (wmem w1) ex_buf 2 1 \<and>
    notify ex_os ex_ef 2 True w2 = Some (Done (True, w'))"
proof -
  have call: "blocking_call ex_sync 1 1 (Some ex_ef) ex_ef ex_word" by (rule ex_blocking_call) simp_all
  obtain m' where wr: "mq_write ex_sync (ex_mem 6 10) (Some ex_buf) 1 = Some (True, m')"
    using mq_write_append [OF ex_fifo_6_10 ex_user_buf, of 1] by (auto simp: ex_contents ex_counters)
  obtain w' where nt: "notify ex_os ex_ef 2 True ((ex_world 0)\<lparr>wmem := m'\<rparr>) = Some (Done (True, w'))"
    using wr.notify_total [OF ex_ef_word] by blast
  have r: "writeBlocking 1 ex_os ex_sync (Some ex_buf) 1 1 2 0 (Some ex_ef) (ex_world 0) =
      Some (Done (True, w'))"
    using blocking_call_runs [OF call ex_fifo_6_10] wr nt
    by (simp add: writeBlocking_def blocking_op_def ex_world_0)
  show ?thesis
    using writeBlocking_is_one_write [OF call ex_ready(1) ex_os_facts(1,3) r] r by auto
qed

theorem readBlocking_is_one_read_witness:
  "\<exists>w' w1 w2. readBlocking 1 ex_os ex_sync (Some ex_buf) 2 1 2 0 (Some ex_ef) (ex_world 0) =
      Some (Done (True, w')) \<and> waiting ex_os ex_word 2 (ex_world 0) w1 \<and>
    contents ex_sync (wmem w1) = elems (wmem w2) ex_buf 2 2 @ contents ex_sync (wmem w2) \<and>
    notify ex_os ex_ef 1 True w2 = Some (Done (True, w'))"
proof -
  have call: "blocking_call ex_sync 2 2 (Some ex_ef) ex_ef ex_word" by (rule ex_blocking_call) simp_all
  obtain m' where rd: "mq_read ex_sync (ex_mem 6 10) (Some ex_buf) 2 = Some (True, m')"
    using mq_read_take [OF ex_fifo_6_10 ex_user_buf, of 2] by (auto simp: ex_contents)
  obtain w' where nt: "notify ex_os ex_ef 1 True ((ex_world 0)\<lparr>wmem := m'\<rparr>) = Some (Done (True, w'))"
    using wr.notify_total [OF ex_ef_word] by blast
  have r: "readBlocking 1 ex_os ex_sync (Some ex_buf) 2 1 2 0 (Some ex_ef) (ex_world 0) =
      Some (Done (True, w'))"
    using blocking_call_runs [OF call ex_fifo_6_10] rd nt
    by (simp add: readBlocking_def blocking_op_def ex_world_0)
  show ?thesis
    using readBlocking_is_one_read [OF call ex_ready(2) ex_os_facts(1,4) r] r by auto
qed

text \<open>Three messages are too many for the queue, so the writer waits until its time is up.\<close>

theorem blocking_with_limit_returns_witness:
  "\<exists>r w'. writeBlocking 9 ex_os ex_sync (Some ex_buf) 3 1 2 8 (Some ex_ef) (ex_world 0) =
      Some (Done (r, w'))"
proof -
  have "blocking_call ex_sync 3 1 (Some ex_ef) ex_ef ex_word" by (rule ex_blocking_call) simp_all
  then show ?thesis
    using blocking_with_limit_returns [OF ex_os_facts(1,2), of 8 9 ex_sync 3 1 "Some ex_ef" ex_ef
        ex_word ex_buf "ex_world 0" 2] ex_ready(1) [of 3] ex_os_facts(3) by auto
qed

theorem blocking_refuses_witness:
  "writeBlocking 1 ex_os ex_sync (Some ex_buf) 4 1 2 0 (Some ex_ef) (ex_world 0) =
    Some (Done (False, ex_world 0))"
  using blocking_refuses [OF ex_wf(1) [of kSynchronizedReadWrite], of "Some ex_ef" 1 4 1 ex_os "Some ex_buf" 2 0 "ex_world 0"]
  by simp

section \<open>Descriptors\<close>

theorem single_file_layout_witness:
  "\<exists>d. shim_of_size kSynchronizedReadWrite 6 None 2 True = Some d \<and> length (mGrantors d) = 4 \<and>
    (\<forall>g \<in> set (mGrantors d). unat (offset g) + unat (extent g) \<le> 28)"
proof -
  obtain d where d: "shim_of_size kSynchronizedReadWrite 6 None 2 True = Some d" "mGrantors d \<noteq> []"
    by (simp add: shim_of_size_eq size_layout_def)
  show ?thesis using single_file_layout [OF d] d by auto
qed

definition ex_handle :: native_handle where
  "ex_handle = \<lparr>numFds = 1, numInts = 1, data = [7, 42]\<rparr>"

definition ex_sent :: MQDescriptor where
  "ex_sent = \<lparr>mGrantors = ex_grantors, mHandle = Some ex_handle, mQuantum = 2, mFlags = 1\<rparr>"

lemma ex_handle_wf: "handle_wf ex_handle" "mHandle ex_sent = Some ex_handle"
  by (simp_all add: handle_wf_def ex_handle_def ex_sent_def)

lemma ex_range: "aidl_range ex_sent"
  by (simp add: aidl_range_def ex_sent_def ex_grantors_def)

theorem assignment_copies_witness:
  "\<exists>d nh w'. shim_assign ex_os ex_desc ex_sent (ex_world 0) = Some (d, w') \<and>
    mHandle d = Some nh \<and> same_handle ex_file ex_handle nh \<and> closed (hist w') = {#5#}"
  using assignment_copies [OF ex_handle_wf(2,1) ex_os_facts(6,7), of ex_desc "ex_world 0"]
  by (auto simp: ex_desc_def handle_fds_def ex_world_def)

theorem dupeDesc_round_trip_witness:
  "\<exists>a w1 d' w2. dupeDesc ex_os (Some ex_sent) (ex_world 0) = Some (a, w1) \<and>
    shim_of_desc ex_os a w1 = (d', w2) \<and> mGrantors d' = ex_grantors \<and> isHandleValid d'"
  using dupeDesc_round_trip [OF ex_handle_wf(2,1) ex_range ex_os_facts(6,7), of "ex_world 0"]
  by (auto simp: ex_sent_def isHandleValid_def)

text \<open>A grantor with a negative offset.\<close>

definition ex_bad_parcel :: AidlMQDescriptor where
  "ex_bad_parcel = \<lparr>a_grantors = [\<lparr>a_fdIndex = 0, a_offset = - 8, a_extent = 8\<rparr>], a_fds = [7],
     a_ints = [], a_quantum = 2, a_flags = 1\<rparr>"

theorem shim_of_desc_checks_witness:
  "\<exists>d w'. shim_of_desc ex_os ex_bad_parcel (ex_world 0) = (d, w') \<and> \<not> isHandleValid d \<and>
    opened (hist w') = {#}"
proof -
  obtain d w' where c: "shim_of_desc ex_os ex_bad_parcel (ex_world 0) = (d, w')" by fastforce
  then have "\<not> isHandleValid d"
    by (auto simp: shim_of_desc_def ex_bad_parcel_def isHandleValid_def split: if_splits)
  then show ?thesis using shim_of_desc_checks [OF c] c by (auto simp: ex_world_def)
qed

theorem hidl_conversion_witness:
  "\<exists>a' w'. unsafeHidlToAidlMQDescriptor kSynchronizedReadWrite ex_os ex_sent
      \<lparr>a_grantors = [], a_fds = [], a_ints = [], a_quantum = 0, a_flags = 0\<rparr> (ex_world 0) =
      Some (True, a', w') \<and> a_grantors a' = map dupe_grantor ex_grantors \<and> a_quantum a' = 2 \<and>
      map ex_file (a_fds a') = map ex_file (handle_fds ex_handle)"
proof -
  let ?a = "\<lparr>a_grantors = [], a_fds = [], a_ints = [], a_quantum = 0, a_flags = 0\<rparr>"
  have "\<exists>a' w'. unsafeHidlToAidlMQDescriptor kSynchronizedReadWrite ex_os ex_sent ?a (ex_world 0) =
      Some (True, a', w')"
    by (simp add: unsafeHidlToAidlMQDescriptor_def ex_sent_def ex_grantors_def ex_handle_def
        getQuantum_def getFlags_def flavor_value_def Let_def split: prod.splits)
  then show ?thesis
    using hidl_conversion [OF ex_handle_wf(2), of kSynchronizedReadWrite ex_os ?a "ex_world 0"]
    by (auto simp: ex_sent_def ex_os_facts(7))
qed

section \<open>Queue objects\<close>

definition ex_queue_desc :: "int \<Rightarrow> MQDescriptor" where
  "ex_queue_desc fd = \<lparr>mGrantors = size_layout 6 True,
     mHandle = Some \<lparr>numFds = 1, numInts = 0, data = [fd]\<rparr>, mQuantum = 2, mFlags = 1\<rparr>"

definition ex_start :: world where "ex_start = \<lparr>wmem = \<lambda>_ _. 0, hist = []\<rparr>"

lemma ex_made: "\<exists>q w. MessageQueueBase_of_size Shim ex_os kSynchronizedReadWrite 2 3 True (- 1) 0 ex_start =
    Some (q, w) \<and> isValid q \<and> flavor q = kSynchronizedReadWrite \<and> mDesc q = Some (ex_queue_desc 7)"
proof -
  have "case MessageQueueBase_of_size Shim ex_os kSynchronizedReadWrite 2 3 True (- 1) 0 ex_start of
      None \<Rightarrow> False
    | Some (q, w) \<Rightarrow> isValid q \<and> flavor q = kSynchronizedReadWrite \<and> mDesc q = Some (ex_queue_desc 7)"
    by code_simp
  then show ?thesis by (auto split: option.splits)
qed

lemma ex_attached: "\<exists>q w. MessageQueueBase_of_desc Shim ex_os kSynchronizedReadWrite 2 (ex_queue_desc 107) False
    ex_start = Some (q, w) \<and> isValid q"
proof -
  have "case MessageQueueBase_of_desc Shim ex_os kSynchronizedReadWrite 2 (ex_queue_desc 107) False ex_start of
      None \<Rightarrow> False | Some (q, w) \<Rightarrow> isValid q"
    by code_simp
  then show ?thesis by (auto split: option.splits)
qed

theorem map_covers_grantor_witness:
  "\<exists>w'. mapGrantorDescr ex_os kSynchronizedReadWrite (ex_queue_desc 7) 2 ex_start =
      (Some (Ptr (Shm 7) 16), w') \<and> mapped (hist w') = {#(Shm 7, 0, 22)#}"
proof -
  have "fst (mapGrantorDescr ex_os kSynchronizedReadWrite (ex_queue_desc 7) 2 ex_start) =
      Some (Ptr (Shm 7) 16)"
    by code_simp
  then obtain w' where m: "mapGrantorDescr ex_os kSynchronizedReadWrite (ex_queue_desc 7) 2 ex_start =
      (Some (Ptr (Shm 7) 16), w')" by (metis prod.collapse)
  then obtain start n where "4096 dvd start" "start \<le> 16" "start + n = 22"
    "mapped (hist w') = {#(Shm 7, int start, int n)#}"
    using map_covers_grantor [OF ex_system_ok m]
    by (auto simp: Let_def ex_queue_desc_def size_layout_def ex_start_def page_def ex_os_def)
  moreover from this have "start = 0" by (auto dest: dvd_imp_le)
  ultimately show ?thesis using m by simp
qed

theorem destructor_releases_all_witness:
  "\<exists>q w1 w2. MessageQueueBase_of_size Shim ex_os kSynchronizedReadWrite 2 3 True (- 1) 0 ex_start = Some (q, w1) \<and>
    MessageQueueBase_destroy Shim ex_os q w1 = Some w2 \<and> mapped (hist w2) = unmapped (hist w2)"
proof -
  obtain q w1 where c: "MessageQueueBase_of_size Shim ex_os kSynchronizedReadWrite 2 3 True (- 1) 0 ex_start =
    Some (q, w1)" "isValid q" using ex_made by blast
  show ?thesis
    using destructor_releases_all [OF shim.queue_descriptor_type_axioms ex_system_ok c(2) disjI1, OF c(1)] c(1)
    by (auto simp: ex_start_def)
qed

theorem new_queue_is_empty_witness:
  "\<exists>q w1. MessageQueueBase_of_size Shim ex_os kSynchronizedReadWrite 2 3 True (- 1) 0 ex_start = Some (q, w1) \<and>
    qcap q = 3 \<and> fifo_inv q (wmem w1) \<and> contents q (wmem w1) = []"
proof -
  obtain q w1 where c: "MessageQueueBase_of_size Shim ex_os kSynchronizedReadWrite 2 3 True (- 1) 0 ex_start =
    Some (q, w1)" "isValid q" using ex_made by blast
  show ?thesis using new_queue_is_empty [OF shim.queue_descriptor_type_axioms ex_system_ok ex_os_facts(5) c] c(1) by auto
qed

section \<open>A HIDL queue\<close>

text \<open>The descriptor type of the example is the shim, which keeps the contract.\<close>

theorem hidl_handover_same_queue_witness:
  "\<exists>q1 w1 q2 w2. HidlMessageQueue_of_size Shim ex_os kSynchronizedReadWrite 2 3 True ex_start = Some (q1, w1) \<and>
    HidlMessageQueue_of_desc Shim ex_os kSynchronizedReadWrite 2 (ex_queue_desc 107) False ex_start =
      Some (q2, w2) \<and> attached_to q1 q2 False (wmem ex_start) (wmem w2)"
proof -
  obtain q1 w1 where c: "HidlMessageQueue_of_size Shim ex_os kSynchronizedReadWrite 2 3 True ex_start =
      Some (q1, w1)" "isValid q1" "mDesc q1 = Some (ex_queue_desc 7)"
    using ex_made by (auto simp: HidlMessageQueue_of_size_def)
  obtain q2 w2 where a: "HidlMessageQueue_of_desc Shim ex_os kSynchronizedReadWrite 2 (ex_queue_desc 107) False
      ex_start = Some (q2, w2)" "isValid q2" using ex_attached by (auto simp: HidlMessageQueue_of_desc_def)
  have t: "arrived ex_file ex_file (ex_queue_desc 7) (ex_queue_desc 107)"
    by (simp add: arrived_def ex_queue_desc_def handle_wf_def handle_fds_def ex_file_def)
  note S = shim.queue_descriptor_type_axioms
  have "attached_to q1 q2 False (wmem ex_start) (wmem w2)"
    using hidl_handover_same_queue [OF S S disjI1 [OF c(1)] c(2) ex_system_ok ex_os_facts(8) c(3) t ex_system_ok
        ex_os_facts(5,7,8) a] .
  then show ?thesis using c(1) a(1) by auto
qed

section \<open>The handover\<close>

definition ex_parcel :: "int \<Rightarrow> AidlMQDescriptor" where
  "ex_parcel fd = \<lparr>a_grantors = map dupe_grantor (size_layout 6 True), a_fds = [fd], a_ints = [],
     a_quantum = 2, a_flags = 1\<rparr>"

lemma ex_duped: "\<exists>u. dupeDesc ex_os (Some (ex_queue_desc 7)) ex_start = Some (ex_parcel 107, u)"
  by (simp add: dupeDesc_def ex_queue_desc_def handle_fds_def handle_ints_def getQuantum_def
      getFlags_def ex_parcel_def ex_os_def)

lemma ex_received: "\<exists>q w. AidlMessageQueue_of_desc ex_os SynchronizedReadWrite 2 (ex_parcel 207) True
    ex_start = Some (q, w) \<and> isValid q"
proof -
  have "case AidlMessageQueue_of_desc ex_os SynchronizedReadWrite 2 (ex_parcel 207) True ex_start of
      None \<Rightarrow> False | Some (q, w) \<Rightarrow> isValid q"
    by code_simp
  then show ?thesis by (auto split: option.splits)
qed

theorem handover_same_queue_witness:
  "\<exists>q1 w1 q2 w2. AidlMessageQueue_of_size ex_os SynchronizedReadWrite 2 3 True (- 1) 0 ex_start =
      Some (q1, w1) \<and> AidlMessageQueue_of_desc ex_os SynchronizedReadWrite 2 (ex_parcel 207) True
      ex_start = Some (q2, w2) \<and> attached_to q1 q2 True (wmem ex_start) (wmem w2)"
proof -
  obtain q1 w1 where c: "AidlMessageQueue_of_size ex_os SynchronizedReadWrite 2 3 True (- 1) 0 ex_start =
      Some (q1, w1)" "isValid q1" "mDesc q1 = Some (ex_queue_desc 7)"
    using ex_made by (auto simp: AidlMessageQueue_of_size_def)
  obtain u where s: "dupeDesc ex_os (mDesc q1) ex_start = Some (ex_parcel 107, u)"
    using ex_duped unfolding c(3) by blast
  have t: "map ex_file [207] = map ex_file (a_fds (ex_parcel 107))"
    by (simp add: ex_parcel_def ex_file_def)
  have p: "(ex_parcel 107)\<lparr>a_fds := [207]\<rparr> = ex_parcel 207" by (simp add: ex_parcel_def)
  obtain q2 w2 where a: "AidlMessageQueue_of_desc ex_os SynchronizedReadWrite 2
      ((ex_parcel 107)\<lparr>a_fds := [207]\<rparr>) True ex_start = Some (q2, w2)" "isValid q2"
    using ex_received unfolding p by blast
  have "attached_to q1 q2 True (wmem ex_start) (wmem w2)"
    using handover_same_queue [OF c(1,2) ex_system_ok ex_os_facts(8,7) s t ex_system_ok
        ex_os_facts(5,7,8) a] .
  then show ?thesis using c(1) a(1) by (auto simp: p)
qed

end
