(* ===== verification/QueueThreads.thy ===== *)
theory QueueThreads
  imports MessageQueueEffects
begin

text \<open>
  One writer and one reader at work at the same time, for both flavors: the calls of \<open>beginWrite\<close>,
  \<open>copyTo\<close> and \<open>commitWrite\<close> of the one interleave with those of \<open>beginRead\<close>, \<open>copyFrom\<close> and
  \<open>commitRead\<close> of the other in any order. Each call is one step: it reads the counter of the other
  side at most once and stores at most one counter. A copy is one step as well; for the
  synchronized flavor the slots of simultaneous copies are proved disjoint, for the other flavor a
  copy that is itself interrupted is covered by the outcome that the data cannot be relied on.
  Memory accesses are sequentially consistent.
\<close>

section \<open>The two threads\<close>

text \<open>Where a thread is: outside a call, with a transaction begun, or with the messages copied.\<close>

datatype phase = Idle | Begun MemTransaction u64 | Copied u64

text \<open>\<open>sent\<close> and \<open>delivered\<close> record the committed messages.\<close>

record spsc =
  smem :: mem
  writer :: phase
  reader :: phase
  sent :: "u8 list list"
  delivered :: "u8 list list"

inductive spsc_step :: "MessageQueue \<Rightarrow> ptr \<Rightarrow> ptr \<Rightarrow> spsc \<Rightarrow> spsc \<Rightarrow> bool" for q src dst where
  fill: "writer s = Idle \<Longrightarrow> length bs \<le> qcap q * qz q \<Longrightarrow>
    spsc_step q src dst s (s\<lparr>smem := wr_bytes (smem s) src bs\<rparr>)"
| begin_write: "writer s = Idle \<Longrightarrow> wrc q (smem s) + unat n * qz q < 2 ^ 64 \<Longrightarrow>
    beginWrite q (smem s) n emptyMemTransaction = Some (ok, tx) \<Longrightarrow>
    spsc_step q src dst s (s\<lparr>writer := if ok then Begun tx n else Idle\<rparr>)"
| copy_to: "writer s = Begun tx n \<Longrightarrow>
    copyTo (sizeofT q) tx (smem s) (Some src) 0 n = Some (ok, m) \<Longrightarrow>
    spsc_step q src dst s (s\<lparr>smem := m, writer := if ok then Copied n else Idle\<rparr>)"
| commit_write: "writer s = Copied n \<Longrightarrow> commitWrite q (smem s) n = Some (ok, m) \<Longrightarrow>
    spsc_step q src dst s (s\<lparr>smem := m, writer := Idle,
      sent := sent s @ (if ok then elems (smem s) src (qz q) (unat n) else [])\<rparr>)"
| begin_read: "reader s = Idle \<Longrightarrow> unat n * qz q < 2 ^ 64 \<Longrightarrow>
    beginRead q (smem s) n = Some (ok, tx, m) \<Longrightarrow>
    spsc_step q src dst s (s\<lparr>smem := m, reader := if ok then Begun tx n else Idle\<rparr>)"
| copy_from: "reader s = Begun tx n \<Longrightarrow>
    copyFrom (sizeofT q) tx (smem s) (Some dst) 0 n = Some (ok, m) \<Longrightarrow>
    spsc_step q src dst s (s\<lparr>smem := m, reader := if ok then Copied n else Idle\<rparr>)"
| commit_read: "reader s = Copied n \<Longrightarrow> commitRead q (smem s) n = Some (ok, m) \<Longrightarrow>
    spsc_step q src dst s (s\<lparr>smem := m, reader := Idle,
      delivered := delivered s @ (if ok then elems (smem s) dst (qz q) (unat n) else [])\<rparr>)"

definition spsc_start :: "mem \<Rightarrow> spsc" where
  "spsc_start m = \<lparr>smem = m, writer = Idle, reader = Idle, sent = [], delivered = []\<rparr>"

inductive_cases spsc_stepE: "spsc_step q src dst s s'"

section \<open>Each call of the two\<close>

abbreviation msg :: "MessageQueue \<Rightarrow> mem \<Rightarrow> nat \<Rightarrow> u8 list" where
  "msg q m k \<equiv> rd_bytes m (ring_slot q k) (qz q)"

text \<open>Queue and buffers: each thread has a buffer of its own for all the queue can hold.\<close>

definition two_ends :: "MessageQueue \<Rightarrow> ptr \<Rightarrow> ptr \<Rightarrow> bool" where
  "two_ends q src dst \<longleftrightarrow> mq_wf q \<and> mq_whole q \<and>
     user_buf q src (qcap q) \<and> user_buf q dst (qcap q) \<and>
     sep src (qcap q * qz q) dst (qcap q * qz q)"

lemma two_endsD:
  assumes "two_ends q src dst"
  shows "mq_wf q" "mq_whole q" "0 < qz q"
    "user_buf q src (qcap q)" "user_buf q dst (qcap q)" "sep src (qcap q * qz q) dst (qcap q * qz q)"
    "sep dst (qcap q * qz q) src (qcap q * qz q)"
  using assms by (auto simp: two_ends_def mq_wf_sizes sep_commute)

lemma in_range_mono:
  assumes "in_range d (n * z) ob i" and "n \<le> c"
  shows "in_range d (c * z) ob i"
proof -
  have "ob = pobj d" "poff d \<le> i" "i < poff d + n * z" using assms(1) by (auto simp: in_range_def)
  moreover have "n * z \<le> c * z" using assms(2) by (rule mult_le_mono1)
  ultimately have "ob = pobj d" "poff d \<le> i" "i < poff d + c * z" by linarith+
  then show ?thesis by (simp add: in_range_def)
qed

text \<open>A thread's own buffer is not the queue's memory nor the other thread's buffer.\<close>

lemma own_buffer_change:
  assumes s: "two_ends q src dst" and b: "b = src \<or> b = dst"
    and out: "\<And>ob i. \<not> in_range b (qcap q * qz q) ob i \<Longrightarrow> m' ob i = m ob i"
  shows "load64 m' (qwp q) = load64 m (qwp q)" "load64 m' (qrp q) = load64 m (qrp q)"
    "msg q m' k = msg q m k"
    "b = src \<Longrightarrow> n \<le> qcap q \<Longrightarrow> elems m' dst (qz q) n = elems m dst (qz q) n"
    "b = dst \<Longrightarrow> n \<le> qcap q \<Longrightarrow> elems m' src (qz q) n = elems m src (qz q) n"
proof -
  note S = two_endsD [OF s]
  have ub: "user_buf q b (qcap q)" using b S(4,5) by auto
  show "load64 m' (qwp q) = load64 m (qwp q)" "load64 m' (qrp q) = load64 m (qrp q)"
    using buf_change_counters [OF ub out] by simp_all
  have "sep b (qcap q * qz q) (qring q) (qS q)" using ub by (simp add: user_buf_def)
  then show "msg q m' k = msg q m k"
    by (auto intro!: rd_bytes_unchanged out dest!: ring_slot_in_ring [OF S(1,2)] dest: in_range_sep)
  have same: "elems m' b' (qz q) n = elems m b' (qz q) n"
    if "sep b' (qcap q * qz q) b (qcap q * qz q)" "n \<le> qcap q" for b'
    using that(1)
    by (auto intro!: elems_cong rd_bytes_unchanged out dest!: in_range_mono [OF _ that(2)]
        dest: in_range_sep)
  show "b = src \<Longrightarrow> n \<le> qcap q \<Longrightarrow> elems m' dst (qz q) n = elems m dst (qz q) n"
    "b = dst \<Longrightarrow> n \<le> qcap q \<Longrightarrow> elems m' src (qz q) n = elems m src (qz q) n"
    using same S(6,7) by simp_all
qed

lemma commitWrite_store:
  assumes "mq_wf q"
  shows "commitWrite q m n = Some (True, store64 m (qwp q) (load64 m (qwp q) + n * sizeofT q))"
  using mq_wf_ptrs [OF assms] by (simp add: commitWrite_def)

lemma counters_gap:
  assumes "rdc q m = r * qz q" and "wrc q m = w * qz q" and "r \<le> w"
  shows "unat (load64 m (qwp q) - load64 m (qrp q)) = (w - r) * qz q"
proof -
  have "unat (load64 m (qrp q)) = r * qz q" "unat (load64 m (qwp q)) = w * qz q"
    using assms by (simp_all add: rdc_def wrc_def)
  then have "load64 m (qrp q) \<le> load64 m (qwp q)" using assms(3) by (simp add: word_le_nat_alt)
  then show ?thesis
    using assms by (simp add: unat_sub_le diff_mult_distrib flip: rdc_def wrc_def)
qed

lemma commitRead_eq:
  assumes "mq_wf q"
  shows "commitRead q m n = Some
    (if qS q < unat (load64 m (qwp q) - load64 m (qrp q))
     then (False, store64 m (qrp q) (load64 m (qwp q)))
     else (True, store64 m (qrp q) (load64 m (qrp q) + n * sizeofT q)))"
  using mq_wf_ptrs [OF assms] by (simp add: commitRead_def word_less_nat_alt flip: qS_def)

lemma advance_counter:
  assumes "unat (v :: u64) = k * qz q" and "(k + unat n) * qz q < 2 ^ 64"
  shows "unat (v + n * sizeofT q) = (k + unat n) * qz q"
proof -
  have lim: "k * qz q + unat n * qz q < 2 ^ 64" using assms(2) by (simp add: add_mult_distrib)
  then have "unat (n * sizeofT q) = unat n * qz q" by (simp add: mult_sizeof_unat)
  then show ?thesis using lim assms(1) by (simp add: unat_add_no_wrap add_mult_distrib)
qed

lemma fill_ends:
  assumes "two_ends q src dst" and "length bs \<le> qcap q * qz q"
  shows "load64 (wr_bytes m src bs) (qwp q) = load64 m (qwp q)"
    "load64 (wr_bytes m src bs) (qrp q) = load64 m (qrp q)"
    "msg q (wr_bytes m src bs) k = msg q m k"
    "n \<le> qcap q \<Longrightarrow> elems (wr_bytes m src bs) dst (qz q) n = elems m dst (qz q) n"
proof -
  have out: "wr_bytes m src bs ob i = m ob i" if "\<not> in_range src (qcap q * qz q) ob i" for ob i
    using that assms(2) by (intro wr_bytes_out) (auto simp: in_range_def)
  note same = own_buffer_change [where m = m and m' = "wr_bytes m src bs", OF assms(1) disjI1 [OF refl] out]
  show "load64 (wr_bytes m src bs) (qwp q) = load64 m (qwp q)"
    "load64 (wr_bytes m src bs) (qrp q) = load64 m (qrp q)"
    "msg q (wr_bytes m src bs) k = msg q m k"
    "n \<le> qcap q \<Longrightarrow> elems (wr_bytes m src bs) dst (qz q) n = elems m dst (qz q) n"
    by (simp_all add: same)
qed

lemma copyTo_ends:
  assumes s: "two_ends q src dst" and al: "unat (load64 m (qwp q)) = w * qz q" and n: "unat n \<le> qcap q"
  obtains m' where "copyTo (sizeofT q) (ring_tx q (load64 m (qwp q)) n) m (Some src) 0 n = Some (True, m')"
    "map (\<lambda>i. msg q m' (w + i)) [0..<unat n] = elems m' src (qz q) (unat n)"
    "\<And>k. k < w \<Longrightarrow> w + unat n \<le> k + qcap q \<Longrightarrow> msg q m' k = msg q m k"
    "load64 m' (qwp q) = load64 m (qwp q)" "load64 m' (qrp q) = load64 m (qrp q)"
    "\<And>k. k \<le> qcap q \<Longrightarrow> elems m' dst (qz q) k = elems m dst (qz q) k"
proof -
  note S = two_endsD [OF s]
  obtain m' where c: "copyTo (sizeofT q) (ring_tx q (load64 m (qwp q)) n) m (Some src) 0 n = Some (True, m')"
    and new: "map (\<lambda>i. msg q m' (w + i)) [0..<unat n] = elems m src (qz q) (unat n)"
    and old: "\<And>k. (\<And>i. i < unat n \<Longrightarrow> k mod qcap q \<noteq> (w + i) mod qcap q) \<Longrightarrow> msg q m' k = msg q m k"
    and out: "\<And>ob i. \<not> in_range (qring q) (qS q) ob i \<Longrightarrow> m' ob i = m ob i"
    using copyTo_ring [OF S(1,2) al n user_buf_mono [OF S(4) n], of m] by blast
  have buf: "elems m' b (qz q) k = elems m b (qz q) k" if "k \<le> qcap q" "user_buf q b (qcap q)" for b k
    using user_buf_mono [OF that(2,1)] unfolding user_buf_def
    by (auto intro!: elems_cong rd_bytes_unchanged out dest: in_range_sep)
  show thesis
  proof (rule that [OF c])
    show "map (\<lambda>i. msg q m' (w + i)) [0..<unat n] = elems m' src (qz q) (unat n)"
      using new buf [OF n S(4)] by simp
    show "msg q m' k = msg q m k" if "k < w" "w + unat n \<le> k + qcap q" for k
    proof (rule old)
      fix i assume "i < unat n"
      with that show "k mod qcap q \<noteq> (w + i) mod qcap q"
        using mod_distinct [of k "w + i" "qcap q"] by fastforce
    qed
  qed (simp_all add: ring_change_counters [OF S(1) out] buf S(5))
qed

lemma copyFrom_ends:
  assumes s: "two_ends q src dst" and al: "unat pos = r * qz q" and n: "unat n \<le> qcap q"
  obtains m' where "copyFrom (sizeofT q) (ring_tx q pos n) m (Some dst) 0 n = Some (True, m')"
    "elems m' dst (qz q) (unat n) = map (\<lambda>i. msg q m' (r + i)) [0..<unat n]"
    "\<And>k. msg q m' k = msg q m k"
    "load64 m' (qwp q) = load64 m (qwp q)" "load64 m' (qrp q) = load64 m (qrp q)"
    "\<And>k. k \<le> qcap q \<Longrightarrow> elems m' src (qz q) k = elems m src (qz q) k"
proof -
  note S = two_endsD [OF s]
  obtain m' where c: "copyFrom (sizeofT q) (ring_tx q pos n) m (Some dst) 0 n = Some (True, m')"
    and got: "elems m' dst (qz q) (unat n) = map (\<lambda>i. msg q m (r + i)) [0..<unat n]"
    and slot: "\<And>k. msg q m' k = msg q m k"
    and keep: "\<And>ob i. \<not> in_range dst (unat n * qz q) ob i \<Longrightarrow> m' ob i = m ob i"
    using copyFrom_ring [OF S(1,2) al n user_buf_mono [OF S(5) n], of m] by blast
  have out: "m' ob i = m ob i" if "\<not> in_range dst (qcap q * qz q) ob i" for ob i
    using that in_range_mono [OF _ n] keep by blast
  note same = own_buffer_change [where m = m and m' = m', OF s disjI2 [OF refl] out]
  show thesis
    by (rule that [OF c]) (simp_all add: got same)
qed

lemma upt_shift: "map (\<lambda>k. f k) [a..<a + n] = map (\<lambda>i. f (a + i)) [0..<n]"
  by (rule nth_equalityI) simp_all

end
