(* ===== verification/QueueInterleaving.thy ===== *)
theory QueueInterleaving
  imports MessageQueueFifo QueueThreads
begin

text \<open>
  The synchronized flavor with its writer and its reader at work at the same time: the invariant
  of the two threads, that messages come out as they went in, and that simultaneous copies touch
  different slots.
\<close>

section \<open>The invariant\<close>

text \<open>The counters in messages: \<open>r\<close> read and \<open>w\<close> written.\<close>

definition at_pos :: "MessageQueue \<Rightarrow> mem \<Rightarrow> nat \<Rightarrow> nat \<Rightarrow> bool" where
  "at_pos q m r w \<longleftrightarrow> rdc q m = r * qz q \<and> wrc q m = w * qz q \<and> r \<le> w \<and> w - r \<le> qcap q"

text \<open>Room that was there when the writer began is still there.\<close>

definition room_for :: "MessageQueue \<Rightarrow> nat \<Rightarrow> nat \<Rightarrow> u64 \<Rightarrow> bool" where
  "room_for q r w n \<longleftrightarrow> w + unat n \<le> r + qcap q \<and> (w + unat n) * qz q < 2 ^ 64"

fun writer_ok :: "MessageQueue \<Rightarrow> ptr \<Rightarrow> mem \<Rightarrow> nat \<Rightarrow> nat \<Rightarrow> phase \<Rightarrow> bool" where
  "writer_ok q src m r w Idle \<longleftrightarrow> True"
| "writer_ok q src m r w (Begun tx n) \<longleftrightarrow> room_for q r w n \<and> tx = ring_tx q (load64 m (qwp q)) n"
| "writer_ok q src m r w (Copied n) \<longleftrightarrow> room_for q r w n \<and>
     map (\<lambda>i. msg q m (w + i)) [0..<unat n] = elems m src (qz q) (unat n)"

fun reader_ok :: "MessageQueue \<Rightarrow> ptr \<Rightarrow> mem \<Rightarrow> nat \<Rightarrow> nat \<Rightarrow> phase \<Rightarrow> bool" where
  "reader_ok q dst m r w Idle \<longleftrightarrow> True"
| "reader_ok q dst m r w (Begun tx n) \<longleftrightarrow> r + unat n \<le> w \<and> tx = ring_tx q (load64 m (qrp q)) n"
| "reader_ok q dst m r w (Copied n) \<longleftrightarrow> r + unat n \<le> w \<and>
     elems m dst (qz q) (unat n) = map (\<lambda>i. msg q m (r + i)) [0..<unat n]"

definition spsc_setup :: "MessageQueue \<Rightarrow> ptr \<Rightarrow> ptr \<Rightarrow> bool" where
  "spsc_setup q src dst \<longleftrightarrow> two_ends q src dst \<and> flavor q = kSynchronizedReadWrite"

definition spsc_inv :: "MessageQueue \<Rightarrow> ptr \<Rightarrow> ptr \<Rightarrow> u8 list list \<Rightarrow> spsc \<Rightarrow> bool" where
  "spsc_inv q src dst xs s \<longleftrightarrow> (\<exists>r w. at_pos q (smem s) r w \<and>
     writer_ok q src (smem s) r w (writer s) \<and> reader_ok q dst (smem s) r w (reader s) \<and>
     xs @ sent s = delivered s @ map (msg q (smem s)) [r..<w])"

section \<open>Each call under the invariant\<close>

lemma spsc_setupD:
  assumes "spsc_setup q src dst"
  shows "mq_wf q" "mq_whole q" "flavor q = kSynchronizedReadWrite" "0 < qz q"
    "user_buf q src (qcap q)" "user_buf q dst (qcap q)" "two_ends q src dst"
  using assms by (auto simp: spsc_setup_def two_endsD)

lemma at_pos_cong:
  "load64 m' (qwp q) = load64 m (qwp q) \<Longrightarrow> load64 m' (qrp q) = load64 m (qrp q) \<Longrightarrow>
    at_pos q m' r w = at_pos q m r w"
  by (simp add: at_pos_def rdc_def wrc_def)

lemma at_pos_fifo:
  assumes "spsc_setup q src dst" and "at_pos q m r w"
  shows "fifo_inv q m" "contents q m = map (msg q m) [r..<w]"
proof -
  note S = spsc_setupD [OF assms(1)]
  have rw: "rdc q m = r * qz q" "wrc q m = w * qz q" "r \<le> w \<and> w - r \<le> qcap q"
    using assms(2) by (auto simp: at_pos_def)
  show "fifo_inv q m" using S rw ring_inv_iff [OF rw(1,2) S(4,2)] by (simp add: fifo_inv_def)
  show "contents q m = map (msg q m) [r..<w]" by (rule contents_numbers [OF rw(1,2) S(4)])
qed

lemma room_for_le: "at_pos q m r w \<Longrightarrow> room_for q r w n \<Longrightarrow> unat n \<le> qcap q"
  by (auto simp: at_pos_def room_for_def)

lemma beginWrite_room:
  assumes s: "spsc_setup q src dst" and p: "at_pos q m r w" and nw: "wrc q m + unat n * qz q < 2 ^ 64"
    and c: "beginWrite q m n e = Some (True, tx)"
  shows "room_for q r w n" "tx = ring_tx q (load64 m (qwp q)) n"
proof -
  note S = spsc_setupD [OF s]
  have rw: "rdc q m = r * qz q" "wrc q m = w * qz q" "r \<le> w" "w - r \<le> qcap q"
    using p by (auto simp: at_pos_def)
  have "unat n \<le> qcap q - (w - r)" and tx: "tx = ring_tx q (load64 m (qwp q)) n"
    using c S(3) by (auto simp: beginWrite_eq [OF S(1)] freeBytes_numbers [OF rw(1,2) S(4,2)] split: if_splits)
  then show "room_for q r w n" "tx = ring_tx q (load64 m (qwp q)) n"
    using rw nw by (auto simp: room_for_def add_mult_distrib)
qed

lemma copyTo_step:
  assumes s: "spsc_setup q src dst" and p: "at_pos q m r w" and rm: "room_for q r w n"
  obtains m' where "copyTo (sizeofT q) (ring_tx q (load64 m (qwp q)) n) m (Some src) 0 n = Some (True, m')"
    "map (\<lambda>i. msg q m' (w + i)) [0..<unat n] = elems m' src (qz q) (unat n)"
    "\<And>k. r \<le> k \<Longrightarrow> k < w \<Longrightarrow> msg q m' k = msg q m k"
    "load64 m' (qwp q) = load64 m (qwp q)" "load64 m' (qrp q) = load64 m (qrp q)"
    "\<And>k. k \<le> qcap q \<Longrightarrow> elems m' dst (qz q) k = elems m dst (qz q) k"
proof -
  have al: "unat (load64 m (qwp q)) = w * qz q" and rw: "w + unat n \<le> r + qcap q"
    using p rm by (simp_all add: at_pos_def wrc_def room_for_def)
  obtain m' where "copyTo (sizeofT q) (ring_tx q (load64 m (qwp q)) n) m (Some src) 0 n = Some (True, m')"
    "map (\<lambda>i. msg q m' (w + i)) [0..<unat n] = elems m' src (qz q) (unat n)"
    and old: "\<And>k. k < w \<Longrightarrow> w + unat n \<le> k + qcap q \<Longrightarrow> msg q m' k = msg q m k"
    and "load64 m' (qwp q) = load64 m (qwp q)" "load64 m' (qrp q) = load64 m (qrp q)"
    "\<And>k. k \<le> qcap q \<Longrightarrow> elems m' dst (qz q) k = elems m dst (qz q) k"
    using copyTo_ends [OF spsc_setupD(7) [OF s] al room_for_le [OF p rm]] by blast
  moreover have "msg q m' k = msg q m k" if "r \<le> k" "k < w" for k
    using that rw by (intro old) simp_all
  ultimately show thesis by (intro that [of m'])
qed

lemma commitWrite_pos:
  assumes s: "spsc_setup q src dst" and p: "at_pos q m r w" and rm: "room_for q r w n"
  shows "at_pos q (store64 m (qwp q) (load64 m (qwp q) + n * sizeofT q)) r (w + unat n)"
proof -
  note S = spsc_setupD [OF s]
  have rw: "unat (load64 m (qrp q)) = r * qz q" "unat (load64 m (qwp q)) = w * qz q" "r \<le> w"
    using p by (simp_all add: at_pos_def rdc_def wrc_def)
  have lim: "w * qz q + unat n * qz q < 2 ^ 64" using rm by (simp add: room_for_def add_mult_distrib)
  then have "unat (n * sizeofT q) = unat n * qz q" by (simp add: mult_sizeof_unat)
  then have "unat (load64 m (qwp q) + n * sizeofT q) = (w + unat n) * qz q"
    using lim rw by (simp add: unat_add_no_wrap add_mult_distrib)
  then show ?thesis
    using rm rw mq_wf_sep [OF S(1)]
    by (auto simp: at_pos_def rdc_def wrc_def room_for_def cell64.load_store_same cell64.load_store_sep)
qed

lemma counters_diff:
  assumes "at_pos q m r w"
  shows "unat (load64 m (qwp q) - load64 m (qrp q)) = (w - r) * qz q"
  using assms counters_gap [of q m r w] by (simp add: at_pos_def)

lemma counters_in_ring:
  assumes "spsc_setup q src dst" and "at_pos q m r w"
  shows "unat (load64 m (qwp q) - load64 m (qrp q)) \<le> qS q"
proof -
  have "w - r \<le> qcap q" using assms(2) by (simp add: at_pos_def)
  then have "(w - r) * qz q \<le> qcap q * qz q" by (rule mult_le_mono1)
  then show ?thesis
    using qS_eq [OF spsc_setupD(2) [OF assms(1)]] by (simp add: counters_diff [OF assms(2)])
qed

lemma beginRead_step:
  assumes s: "spsc_setup q src dst" and p: "at_pos q m r w" and nz: "unat n * qz q < 2 ^ 64"
  shows "beginRead q m n = Some (if r + unat n \<le> w
    then (True, ring_tx q (load64 m (qrp q)) n, m) else (False, emptyMemTransaction, m))"
proof -
  note S = spsc_setupD [OF s]
  have rw: "rdc q m = r * qz q" "wrc q m = w * qz q" "r \<le> w" using p by (auto simp: at_pos_def)
  have "w - r < unat n \<longleftrightarrow> \<not> r + unat n \<le> w" using rw(3) by linarith
  then show ?thesis
    using counters_in_ring [OF s p] rw(1,2) S(4)
    by (simp add: beginRead_eq [OF S(1)] counters_diff [OF p] mult_sizeof_unat [OF nz])
qed

lemma copyFrom_step:
  assumes s: "spsc_setup q src dst" and p: "at_pos q m r w" and n: "r + unat n \<le> w"
  obtains m' where "copyFrom (sizeofT q) (ring_tx q (load64 m (qrp q)) n) m (Some dst) 0 n = Some (True, m')"
    "elems m' dst (qz q) (unat n) = map (\<lambda>i. msg q m' (r + i)) [0..<unat n]"
    "\<And>k. msg q m' k = msg q m k"
    "load64 m' (qwp q) = load64 m (qwp q)" "load64 m' (qrp q) = load64 m (qrp q)"
    "\<And>k. k \<le> qcap q \<Longrightarrow> elems m' src (qz q) k = elems m src (qz q) k"
proof -
  have "unat n \<le> qcap q" "unat (load64 m (qrp q)) = r * qz q"
    using p n unfolding at_pos_def rdc_def by linarith+
  then show thesis using copyFrom_ends [OF spsc_setupD(7) [OF s]] that by blast
qed

lemma commitRead_store:
  assumes s: "spsc_setup q src dst" and p: "at_pos q m r w"
  shows "commitRead q m n = Some (True, store64 m (qrp q) (load64 m (qrp q) + n * sizeofT q))"
  using mq_wf_ptrs [OF spsc_setupD(1) [OF s]] counters_in_ring [OF s p]
  by (simp add: commitRead_def word_less_nat_alt not_less flip: qS_def)

lemma commitRead_pos:
  assumes s: "spsc_setup q src dst" and p: "at_pos q m r w" and n: "r + unat n \<le> w"
  shows "at_pos q (store64 m (qrp q) (load64 m (qrp q) + n * sizeofT q)) (r + unat n) w"
proof -
  note S = spsc_setupD [OF s]
  have rw: "unat (load64 m (qrp q)) = r * qz q" "unat (load64 m (qwp q)) = w * qz q" "w - r \<le> qcap q"
    using p by (simp_all add: at_pos_def rdc_def wrc_def)
  have "r * qz q + unat n * qz q \<le> w * qz q" using n by (simp flip: add_mult_distrib)
  moreover have "w * qz q < 2 ^ 64" using rw(2) unat64_less by metis
  ultimately have lim: "r * qz q + unat n * qz q < 2 ^ 64" by linarith
  then have "unat (n * sizeofT q) = unat n * qz q" by (simp add: mult_sizeof_unat)
  then have "unat (load64 m (qrp q) + n * sizeofT q) = (r + unat n) * qz q"
    using lim rw by (simp add: unat_add_no_wrap add_mult_distrib)
  then show ?thesis
    using n rw mq_wf_sep [OF S(1)]
    by (simp add: at_pos_def rdc_def wrc_def cell64.load_store_same cell64.load_store_sep)
qed

section \<open>Every step keeps the invariant\<close>

lemma writer_ok_cong:
  assumes "writer_ok q src m r w ph" and "load64 m' (qwp q) = load64 m (qwp q)"
    and "\<And>k. msg q m' k = msg q m k"
    and "\<And>n. n \<le> qcap q \<Longrightarrow> elems m' src (qz q) n = elems m src (qz q) n"
    and "r \<le> r'" and "r' \<le> w"
  shows "writer_ok q src m' r' w ph"
  using assms by (cases ph) (auto simp: room_for_def)

lemma reader_ok_cong:
  assumes "reader_ok q dst m r w ph" and "load64 m' (qrp q) = load64 m (qrp q)"
    and "\<And>k. r \<le> k \<Longrightarrow> k < w \<Longrightarrow> msg q m' k = msg q m k"
    and "\<And>n. n \<le> qcap q \<Longrightarrow> elems m' dst (qz q) n = elems m dst (qz q) n"
    and "w - r \<le> qcap q" and "w \<le> w'"
  shows "reader_ok q dst m' r w' ph"
  using assms by (cases ph) auto

lemma spsc_invI:
  assumes "at_pos q (smem s) r w" and "writer_ok q src (smem s) r w (writer s)"
    and "reader_ok q dst (smem s) r w (reader s)"
    and "xs @ sent s = delivered s @ map (msg q (smem s)) [r..<w]"
  shows "spsc_inv q src dst xs s"
  using assms by (auto simp: spsc_inv_def)

lemma spsc_step_inv:
  assumes s: "spsc_setup q src dst" and step: "spsc_step q src dst st st'"
    and inv: "spsc_inv q src dst xs st"
  shows "spsc_inv q src dst xs st'"
proof -
  note S = spsc_setupD [OF s]
  let ?m = "smem st"
  from inv obtain r w where p: "at_pos q ?m r w" and wo: "writer_ok q src ?m r w (writer st)"
    and ro: "reader_ok q dst ?m r w (reader st)"
    and hist: "xs @ sent st = delivered st @ map (msg q ?m) [r..<w]"
    by (auto simp: spsc_inv_def)
  have rw: "r \<le> w" "w - r \<le> qcap q" using p by (auto simp: at_pos_def)
  from step show ?thesis
  proof cases
    case (fill bs)
    note same = fill_ends [OF spsc_setupD(7) [OF s] fill(3)]
    have "reader_ok q dst (wr_bytes ?m src bs) r w (reader st)"
      by (rule reader_ok_cong [OF ro same(2,3) same(4) rw(2)]) simp_all
    then show ?thesis
      using fill p hist same(3) at_pos_cong [OF same(1,2)]
      by (intro spsc_invI [of q st' r w]) simp_all
  next
    case (begin_write n ok tx)
    then show ?thesis
      using p wo ro hist beginWrite_room [OF s p begin_write(3)]
      by (intro spsc_invI [of q st' r w]) auto
  next
    case (copy_to tx n ok m)
    then have rm: "room_for q r w n" and tx: "tx = ring_tx q (load64 ?m (qwp q)) n" using wo by simp_all
    obtain m' where m': "copyTo (sizeofT q) tx ?m (Some src) 0 n = Some (True, m')"
      "map (\<lambda>i. msg q m' (w + i)) [0..<unat n] = elems m' src (qz q) (unat n)"
      and old: "\<And>k. r \<le> k \<Longrightarrow> k < w \<Longrightarrow> msg q m' k = msg q ?m k"
      and same: "load64 m' (qwp q) = load64 ?m (qwp q)" "load64 m' (qrp q) = load64 ?m (qrp q)"
      "\<And>k. k \<le> qcap q \<Longrightarrow> elems m' dst (qz q) k = elems ?m dst (qz q) k"
      using copyTo_step [OF s p rm] unfolding tx by blast
    have "map (msg q m') [r..<w] = map (msg q ?m) [r..<w]" using old by simp
    then show ?thesis
      using copy_to m' p rm hist at_pos_cong [OF same(1,2)]
        reader_ok_cong [OF ro same(2) old same(3) rw(2) order_refl]
      by (intro spsc_invI [of q st' r w]) simp_all
  next
    case (commit_write n ok m)
    have rm: "room_for q r w n" and new: "map (\<lambda>i. msg q ?m (w + i)) [0..<unat n] =
        elems ?m src (qz q) (unat n)" using wo commit_write(2) by simp_all
    let ?m' = "store64 ?m (qwp q) (load64 ?m (qwp q) + n * sizeofT q)"
    have m: "m = ?m'" "ok" using commit_write(3) commitWrite_store [OF S(1)] by simp_all
    have "map (msg q ?m') [r..<w + unat n] = map (msg q ?m) [r..<w] @ elems ?m src (qz q) (unat n)"
      using rw(1) new
      by (simp add: slot_store_counter [OF S(1,2)] upt_add_eq_append [of r w] upt_shift)
    moreover have "reader_ok q dst ?m' r (w + unat n) (reader st)"
      using rw mq_wf_sep [OF S(1)]
      by (intro reader_ok_cong [OF ro])
        (simp_all add: slot_store_counter [OF S(1,2)] cell64.load_store_sep
          buf_store_counter [OF user_buf_mono [OF S(6)]])
    ultimately show ?thesis
      using commit_write m hist commitWrite_pos [OF s p rm]
      by (intro spsc_invI [of q st' r "w + unat n"]) simp_all
  next
    case (begin_read n ok tx m)
    then show ?thesis
      using p wo ro hist beginRead_step [OF s p begin_read(3)]
      by (intro spsc_invI [of q st' r w]) (auto split: if_splits)
  next
    case (copy_from tx n ok m)
    then have n: "r + unat n \<le> w" and tx: "tx = ring_tx q (load64 ?m (qrp q)) n" using ro by simp_all
    obtain m' where m': "copyFrom (sizeofT q) tx ?m (Some dst) 0 n = Some (True, m')"
      "elems m' dst (qz q) (unat n) = map (\<lambda>i. msg q m' (r + i)) [0..<unat n]"
      and old: "\<And>k. msg q m' k = msg q ?m k"
      and same: "load64 m' (qwp q) = load64 ?m (qwp q)" "load64 m' (qrp q) = load64 ?m (qrp q)"
      "\<And>k. k \<le> qcap q \<Longrightarrow> elems m' src (qz q) k = elems ?m src (qz q) k"
      using copyFrom_step [OF s p n] unfolding tx by blast
    show ?thesis
      using copy_from m' p n hist old at_pos_cong [OF same(1,2)]
        writer_ok_cong [OF wo same(1) old same(3) order_refl rw(1)]
      by (intro spsc_invI [of q st' r w]) simp_all
  next
    case (commit_read n ok m)
    have n: "r + unat n \<le> w" and got: "elems ?m dst (qz q) (unat n) =
        map (\<lambda>i. msg q ?m (r + i)) [0..<unat n]" using ro commit_read(2) by simp_all
    let ?m' = "store64 ?m (qrp q) (load64 ?m (qrp q) + n * sizeofT q)"
    have m: "m = ?m'" "ok" using commit_read(3) commitRead_store [OF s p] by simp_all
    have "[r..<w] = [r..<r + unat n] @ [r + unat n..<w]"
      using n upt_add_eq_append [of r "r + unat n" "w - (r + unat n)"] by simp
    then have "map (msg q ?m) [r..<w] = elems ?m dst (qz q) (unat n) @ map (msg q ?m') [r + unat n..<w]"
      by (simp add: slot_store_counter [OF S(1,2)] got upt_shift)
    moreover have "writer_ok q src ?m' (r + unat n) w (writer st)"
      using n mq_wf_sep [OF S(1)]
      by (intro writer_ok_cong [OF wo])
        (simp_all add: slot_store_counter [OF S(1,2)] cell64.load_store_sep
          buf_store_counter [OF user_buf_mono [OF S(5)]])
    ultimately show ?thesis
      using commit_read m hist commitRead_pos [OF s p n]
      by (intro spsc_invI [of q st' "r + unat n" w]) simp_all
  qed
qed

section \<open>Reachable states\<close>

lemma spsc_start_inv:
  assumes "spsc_setup q src dst" and "fifo_inv q m"
  shows "spsc_inv q src dst (contents q m) (spsc_start m)"
proof -
  note S = spsc_setupD [OF assms(1)]
  obtain r w where rw: "rdc q m = r * qz q" "wrc q m = w * qz q"
    using fifo_invD(4) [OF assms(2)] by (rule ring_inv_numbers)
  have "at_pos q m r w"
    using fifo_invD(4) [OF assms(2)] ring_inv_iff [OF rw S(4,2)] rw by (simp add: at_pos_def)
  then show ?thesis
    using at_pos_fifo(2) [OF assms(1)] by (intro spsc_invI [of _ _ r w]) (simp_all add: spsc_start_def)
qed

lemma spsc_reach_inv:
  assumes "(spsc_step q src dst)\<^sup>*\<^sup>* st st'" and "spsc_setup q src dst" and "spsc_inv q src dst xs st"
  shows "spsc_inv q src dst xs st'"
  using assms(1,3) by (induction rule: rtranclp_induct) (auto intro: spsc_step_inv [OF assms(2)])

text \<open>A thread that has begun a call can always go on, and successfully.\<close>

definition next_succeeds :: "MessageQueue \<Rightarrow> ptr \<Rightarrow> ptr \<Rightarrow> spsc \<Rightarrow> bool" where
  "next_succeeds q src dst s \<longleftrightarrow>
     (case writer s of
        Idle \<Rightarrow> (\<forall>n e. beginWrite q (smem s) n e \<noteq> None)
      | Begun tx n \<Rightarrow> (\<exists>m. copyTo (sizeofT q) tx (smem s) (Some src) 0 n = Some (True, m))
      | Copied n \<Rightarrow> (\<exists>m. commitWrite q (smem s) n = Some (True, m))) \<and>
     (case reader s of
        Idle \<Rightarrow> (\<forall>n. beginRead q (smem s) n \<noteq> None)
      | Begun tx n \<Rightarrow> (\<exists>m. copyFrom (sizeofT q) tx (smem s) (Some dst) 0 n = Some (True, m))
      | Copied n \<Rightarrow> (\<exists>m. commitRead q (smem s) n = Some (True, m)))"

lemma spsc_inv_next:
  assumes s: "spsc_setup q src dst" and inv: "spsc_inv q src dst xs st"
  shows "next_succeeds q src dst st"
proof -
  let ?m = "smem st"
  from inv obtain r w where p: "at_pos q ?m r w" and wo: "writer_ok q src ?m r w (writer st)"
    and ro: "reader_ok q dst ?m r w (reader st)"
    by (auto simp: spsc_inv_def)
  note S = spsc_setupD [OF s]
  have "\<exists>m. copyTo (sizeofT q) tx ?m (Some src) 0 n = Some (True, m)" if "writer st = Begun tx n" for tx n
    using wo that copyTo_step [OF s p, of n] by (metis writer_ok.simps(2))
  moreover have "\<exists>m. copyFrom (sizeofT q) tx ?m (Some dst) 0 n = Some (True, m)"
    if "reader st = Begun tx n" for tx n
    using ro that copyFrom_step [OF s p, of n] by (metis reader_ok.simps(2))
  ultimately show ?thesis
    using beginWrite_eq [OF S(1)] beginRead_eq [OF S(1)] commitWrite_store [OF S(1)] commitRead_store [OF s p]
    by (simp add: next_succeeds_def split: phase.split)
qed

text \<open>
  C4. However the steps of one writer and one reader interleave, messages are delivered in the
  order in which they were sent, none is lost, invented or damaged, and no call that was begun
  fails or crashes.
\<close>

theorem concurrent_fifo:
  assumes "spsc_setup q src dst" and "fifo_inv q m0"
    and "(spsc_step q src dst)\<^sup>*\<^sup>* (spsc_start m0) s"
  shows "contents q m0 @ sent s = delivered s @ contents q (smem s) \<and> fifo_inv q (smem s) \<and>
    next_succeeds q src dst s"
proof -
  have inv: "spsc_inv q src dst (contents q m0) s"
    by (rule spsc_reach_inv [OF assms(3,1) spsc_start_inv [OF assms(1,2)]])
  then show ?thesis
    using at_pos_fifo [OF assms(1)] spsc_inv_next [OF assms(1) inv] by (auto simp: spsc_inv_def)
qed

lemma slots_sep:
  assumes "k mod qcap q \<noteq> j mod qcap q"
  shows "sep (ring_slot q k) (qz q) (ring_slot q j) (qz q)"
proof -
  have "a * z + z \<le> b * z" if "a < b" for a b z :: nat
    using mult_le_mono1 [of "a + 1" b z] that by simp
  then show ?thesis using assms by (auto simp: sep_def ring_slot_def neq_iff)
qed

text \<open>
  While a writer and a reader both have a transaction open, no slot of the one overlaps a
  slot of the other, so their copies touch different memory.
\<close>

theorem concurrent_copies_disjoint:
  assumes "spsc_setup q src dst" and "fifo_inv q m0"
    and "(spsc_step q src dst)\<^sup>*\<^sup>* (spsc_start m0) s"
    and "writer s = Begun tx n" and "reader s = Begun tx' n'"
    and "p \<in> set (tx_slots (sizeofT q) tx 0 n)" and "p' \<in> set (tx_slots (sizeofT q) tx' 0 n')"
  shows "sep p (qz q) p' (qz q)"
proof -
  let ?m = "smem s"
  note S = spsc_setupD [OF assms(1)]
  have "spsc_inv q src dst (contents q m0) s"
    by (rule spsc_reach_inv [OF assms(3,1) spsc_start_inv [OF assms(1,2)]])
  then obtain r w where pos: "at_pos q ?m r w" and rm: "room_for q r w n" and n': "r + unat n' \<le> w"
    and tx: "tx = ring_tx q (load64 ?m (qwp q)) n" "tx' = ring_tx q (load64 ?m (qrp q)) n'"
    using assms(4,5) by (auto simp: spsc_inv_def)
  have al: "unat (load64 ?m (qwp q)) = w * qz q" "unat (load64 ?m (qrp q)) = r * qz q"
    and cap: "unat n' \<le> qcap q"
    using pos n' by (auto simp: at_pos_def wrc_def rdc_def)
  obtain i j where i: "i < unat n" "p = ring_slot q (w + i)" and j: "j < unat n'" "p' = ring_slot q (r + j)"
    using assms(6,7) ring_tx_slots [OF S(1,2) al(1) room_for_le [OF pos rm]]
      ring_tx_slots [OF S(1,2) al(2) cap]
    by (auto simp: tx)
  have "r + j < w + i" "w + i - (r + j) < qcap q" using i(1) j(1) n' rm by (auto simp: room_for_def)
  then show ?thesis using mod_distinct slots_sep i(2) j(2) by metis
qed

end
