(* ===== verification/UnsyncInterleaving.thy ===== *)
theory UnsyncInterleaving
  imports MessageQueueUnsync QueueThreads
begin

text \<open>
  The unsynchronized flavor with its writer and one of its readers at work at the same time (the
  readers share nothing but the log). The writer never waits, so it may overwrite what the reader is
  copying. The specification is the log of the committed messages; the data of a read that
  \<open>commitRead\<close> confirms are those of the log unless the writer has copied a batch and not committed it.
\<close>

section \<open>The invariant\<close>

definition unsync_setup :: "MessageQueue \<Rightarrow> ptr \<Rightarrow> ptr \<Rightarrow> bool" where
  "unsync_setup q src dst \<longleftrightarrow> two_ends q src dst \<and> flavor q = kUnsynchronizedWrite"

text \<open>Messages that are in the ring and not yet in the log.\<close>

fun pending :: "phase \<Rightarrow> nat" where
  "pending (Copied n) = unat n"
| "pending ph = 0"

definition fits_counter :: "MessageQueue \<Rightarrow> nat \<Rightarrow> u64 \<Rightarrow> bool" where
  "fits_counter q w n \<longleftrightarrow> unat n \<le> qcap q \<and> (w + unat n) * qz q < 2 ^ 64"

fun appender_ok :: "MessageQueue \<Rightarrow> ptr \<Rightarrow> mem \<Rightarrow> nat \<Rightarrow> phase \<Rightarrow> bool" where
  "appender_ok q src m w Idle \<longleftrightarrow> True"
| "appender_ok q src m w (Begun tx n) \<longleftrightarrow> fits_counter q w n \<and> tx = ring_tx q (load64 m (qwp q)) n"
| "appender_ok q src m w (Copied n) \<longleftrightarrow> fits_counter q w n \<and>
     map (\<lambda>i. msg q m (w + i)) [0..<unat n] = elems m src (qz q) (unat n)"

text \<open>\<open>e\<close> is the number after the last message in the ring, committed or not.\<close>

fun follower_ok ::
  "MessageQueue \<Rightarrow> ptr \<Rightarrow> mem \<Rightarrow> u8 list list \<Rightarrow> nat \<Rightarrow> nat \<Rightarrow> phase \<Rightarrow> bool" where
  "follower_ok q dst m h r e Idle \<longleftrightarrow> True"
| "follower_ok q dst m h r e (Begun tx n) \<longleftrightarrow> r + unat n \<le> length h \<and> unat n \<le> qcap q \<and>
     tx = ring_tx q (load64 m (qrp q)) n"
| "follower_ok q dst m h r e (Copied n) \<longleftrightarrow> r + unat n \<le> length h \<and> unat n \<le> qcap q \<and>
     (e \<le> r + qcap q \<longrightarrow> elems m dst (qz q) (unat n) = take (unat n) (drop r h))"

definition ring_holds :: "MessageQueue \<Rightarrow> mem \<Rightarrow> u8 list list \<Rightarrow> nat \<Rightarrow> bool" where
  "ring_holds q m h e \<longleftrightarrow> (\<forall>k < length h. e \<le> k + qcap q \<longrightarrow> msg q m k = h ! k)"

definition unsync_pos ::
  "MessageQueue \<Rightarrow> ptr \<Rightarrow> ptr \<Rightarrow> u8 list list \<Rightarrow> nat \<Rightarrow> mem \<Rightarrow> phase \<Rightarrow> phase \<Rightarrow> bool" where
  "unsync_pos q src dst h r m wph rph \<longleftrightarrow>
     rdc q m = r * qz q \<and> wrc q m = length h * qz q \<and> r \<le> length h \<and>
     appender_ok q src m (length h) wph \<and> ring_holds q m h (length h + pending wph) \<and>
     follower_ok q dst m h r (length h + pending wph) rph"

definition unsync_inv :: "MessageQueue \<Rightarrow> ptr \<Rightarrow> ptr \<Rightarrow> u8 list list \<Rightarrow> spsc \<Rightarrow> bool" where
  "unsync_inv q src dst xs s \<longleftrightarrow>
     (\<exists>r. unsync_pos q src dst (xs @ sent s) r (smem s) (writer s) (reader s))"

lemma unsync_setupD:
  assumes "unsync_setup q src dst"
  shows "two_ends q src dst" "mq_wf q" "mq_whole q" "0 < qz q" "flavor q = kUnsynchronizedWrite"
    "user_buf q src (qcap q)" "user_buf q dst (qcap q)"
  using assms by (auto simp: unsync_setup_def two_endsD)

section \<open>The steps of the writer\<close>

lemma follower_ok_cong:
  assumes "follower_ok q dst m h r e ph" and "load64 m' (qrp q) = load64 m (qrp q)"
    and "\<And>n. n \<le> qcap q \<Longrightarrow> elems m' dst (qz q) n = elems m dst (qz q) n" and "e \<le> e'"
  shows "follower_ok q dst m' h r e' ph"
  using assms by (cases ph) auto

lemma follower_ok_append:
  "follower_ok q dst m h r e ph \<Longrightarrow> follower_ok q dst m (h @ h') r e ph"
  by (cases ph) auto

lemma pos_fill:
  assumes s: "unsync_setup q src dst" and p: "unsync_pos q src dst h r m Idle rph"
    and len: "length bs \<le> qcap q * qz q"
  shows "unsync_pos q src dst h r (wr_bytes m src bs) Idle rph"
proof -
  note same = fill_ends [OF unsync_setupD(1) [OF s] len, where m = m]
  have f: "follower_ok q dst m h r (length h) rph" using p by (simp add: unsync_pos_def)
  show ?thesis
    using p follower_ok_cong [OF f same(2,4) order_refl]
    by (simp add: unsync_pos_def rdc_def wrc_def ring_holds_def same)
qed

lemma pos_begin_write:
  assumes s: "unsync_setup q src dst" and p: "unsync_pos q src dst h r m Idle rph"
    and nw: "wrc q m + unat n * qz q < 2 ^ 64" and c: "beginWrite q m n e = Some (ok, tx)"
  shows "unsync_pos q src dst h r m (if ok then Begun tx n else Idle) rph"
proof -
  note S = unsync_setupD [OF s]
  have "ok \<Longrightarrow> unat n \<le> qcap q \<and> tx = ring_tx q (load64 m (qwp q)) n"
    using c S(5) by (auto simp: beginWrite_eq [OF S(2)] split: if_splits)
  then show ?thesis using p nw by (auto simp: unsync_pos_def fits_counter_def add_mult_distrib)
qed

lemma pos_copy_to:
  assumes s: "unsync_setup q src dst" and p: "unsync_pos q src dst h r m (Begun tx n) rph"
  obtains m' where "copyTo (sizeofT q) tx m (Some src) 0 n = Some (True, m')"
    "unsync_pos q src dst h r m' (Copied n) rph"
proof -
  note S = unsync_setupD [OF s]
  from p have fc: "fits_counter q (length h) n" and tx: "tx = ring_tx q (load64 m (qwp q)) n"
    and al: "unat (load64 m (qwp q)) = length h * qz q"
    and f: "follower_ok q dst m h r (length h) rph" and rh: "ring_holds q m h (length h)"
    by (auto simp: unsync_pos_def wrc_def)
  then have n: "unat n \<le> qcap q" by (simp add: fits_counter_def)
  obtain m' where c: "copyTo (sizeofT q) tx m (Some src) 0 n = Some (True, m')"
    and new: "map (\<lambda>i. msg q m' (length h + i)) [0..<unat n] = elems m' src (qz q) (unat n)"
    and old: "\<And>k. k < length h \<Longrightarrow> length h + unat n \<le> k + qcap q \<Longrightarrow> msg q m' k = msg q m k"
    and same: "load64 m' (qwp q) = load64 m (qwp q)" "load64 m' (qrp q) = load64 m (qrp q)"
      "\<And>k. k \<le> qcap q \<Longrightarrow> elems m' dst (qz q) k = elems m dst (qz q) k"
    using copyTo_ends [OF S(1) al n] unfolding tx by blast
  have "ring_holds q m' h (length h + unat n)" using rh old by (simp add: ring_holds_def)
  then have "unsync_pos q src dst h r m' (Copied n) rph"
    using p fc new follower_ok_cong [OF f same(2,3), of "length h + unat n"] same
    by (simp add: unsync_pos_def rdc_def wrc_def)
  with c show thesis by (rule that)
qed

lemma pos_commit_write:
  assumes s: "unsync_setup q src dst" and p: "unsync_pos q src dst h r m (Copied n) rph"
  shows "unsync_pos q src dst (h @ elems m src (qz q) (unat n)) r
    (store64 m (qwp q) (load64 m (qwp q) + n * sizeofT q)) Idle rph"
proof -
  note S = unsync_setupD [OF s]
  let ?new = "elems m src (qz q) (unat n)"
    and ?m = "store64 m (qwp q) (load64 m (qwp q) + n * sizeofT q)"
  from p have fc: "fits_counter q (length h) n" and al: "unat (load64 m (qwp q)) = length h * qz q"
    and new: "map (\<lambda>i. msg q m (length h + i)) [0..<unat n] = ?new"
    and f: "follower_ok q dst m h r (length h + unat n) rph"
    and rh: "ring_holds q m h (length h + unat n)"
    by (auto simp: unsync_pos_def wrc_def)
  have slot: "msg q ?m k = msg q m k" for k by (rule slot_store_counter [OF S(2,3)])
  have w: "wrc q ?m = length (h @ ?new) * qz q"
    using advance_counter [OF al] fc by (simp add: wrc_def cell64.load_store_same fits_counter_def)
  have rp: "load64 ?m (qrp q) = load64 m (qrp q)"
    using mq_wf_sep [OF S(2)] by (simp add: cell64.load_store_sep)
  have "msg q ?m k = (h @ ?new) ! k" if "k < length h + unat n" "length h + unat n \<le> k + qcap q" for k
  proof (cases "k < length h")
    case True
    then show ?thesis using rh that by (simp add: slot ring_holds_def nth_append)
  next
    case False
    then have "?new ! (k - length h) = msg q m k" using that new by (simp flip: new)
    then show ?thesis using False by (simp add: slot nth_append)
  qed
  then have "ring_holds q ?m (h @ ?new) (length (h @ ?new))" by (simp add: ring_holds_def)
  moreover have "follower_ok q dst ?m (h @ ?new) r (length h + unat n) rph"
    by (intro follower_ok_append follower_ok_cong [OF f rp])
      (simp_all add: buf_store_counter [OF user_buf_mono [OF S(7)]])
  ultimately show ?thesis
    using p w rp by (simp add: unsync_pos_def rdc_def)
qed

section \<open>The steps of the reader\<close>

lemma appender_ok_cong:
  assumes "appender_ok q src m w ph" and "load64 m' (qwp q) = load64 m (qwp q)"
    and "\<And>k. msg q m' k = msg q m k"
    and "\<And>n. n \<le> qcap q \<Longrightarrow> elems m' src (qz q) n = elems m src (qz q) n"
  shows "appender_ok q src m' w ph"
  using assms by (cases ph) (auto simp: fits_counter_def)

text \<open>Setting the read counter does not concern the writer.\<close>

lemma pos_set_read:
  assumes s: "unsync_setup q src dst" and p: "unsync_pos q src dst h r m wph rph"
    and v: "unat v = r' * qz q" "r' \<le> length h"
  shows "unsync_pos q src dst h r' (store64 m (qrp q) v) wph Idle"
proof -
  note S = unsync_setupD [OF s]
  have wp: "load64 (store64 m (qrp q) v) (qwp q) = load64 m (qwp q)"
    using mq_wf_sep [OF S(2)] by (simp add: cell64.load_store_sep)
  have slot: "msg q (store64 m (qrp q) v) k = msg q m k" for k by (rule slot_store_counter [OF S(2,3)])
  have "appender_ok q src m (length h) wph" using p by (simp add: unsync_pos_def)
  then have "appender_ok q src (store64 m (qrp q) v) (length h) wph"
    using wp slot buf_store_counter(2) [OF user_buf_mono [OF S(6)]] by (rule appender_ok_cong)
  then show ?thesis
    using p v by (simp add: unsync_pos_def rdc_def wrc_def wp slot ring_holds_def cell64.load_store_same)
qed

lemma pos_begin_read:
  assumes s: "unsync_setup q src dst" and p: "unsync_pos q src dst h r m wph Idle"
    and nz: "unat n * qz q < 2 ^ 64" and c: "beginRead q m n = Some (ok, tx, m')"
  shows "\<exists>r'. unsync_pos q src dst h r' m' wph (if ok then Begun tx n else Idle)"
proof -
  note S = unsync_setupD [OF s]
  have rw: "rdc q m = r * qz q" "wrc q m = length h * qz q" "r \<le> length h"
    using p by (auto simp: unsync_pos_def)
  note gap = counters_gap [OF rw]
  have cap: "qS q = qcap q * qz q" by (rule qS_eq [OF S(3)])
  show ?thesis
  proof (cases "qS q < (length h - r) * qz q")
    case True
    then have "m' = store64 m (qrp q) (load64 m (qwp q))" "\<not> ok"
      using c rw by (auto simp: beginRead_eq [OF S(2)] gap split: if_splits)
    moreover have "unat (load64 m (qwp q)) = length h * qz q" using rw by (simp add: wrc_def)
    ultimately show ?thesis using pos_set_read [OF s p _ order_refl] by auto
  next
    case False
    then have lim: "length h - r \<le> qcap q" using S(4) by (simp add: cap not_less)
    show ?thesis
      using c rw False p lim S(4)
      by (intro exI [of _ r])
        (auto simp: beginRead_eq [OF S(2)] gap mult_sizeof_unat [OF nz] unsync_pos_def split: if_splits)
  qed
qed

lemma pos_copy_from:
  assumes s: "unsync_setup q src dst" and p: "unsync_pos q src dst h r m wph (Begun tx n)"
  obtains m' where "copyFrom (sizeofT q) tx m (Some dst) 0 n = Some (True, m')"
    "elems m' dst (qz q) (unat n) = map (\<lambda>i. msg q m (r + i)) [0..<unat n]"
    "unsync_pos q src dst h r m' wph (Copied n)"
proof -
  note S = unsync_setupD [OF s]
  let ?e = "length h + pending wph"
  from p have n: "unat n \<le> qcap q" "r + unat n \<le> length h" and tx: "tx = ring_tx q (load64 m (qrp q)) n"
    and al: "unat (load64 m (qrp q)) = r * qz q" and rh: "ring_holds q m h ?e"
    and ap: "appender_ok q src m (length h) wph"
    by (auto simp: unsync_pos_def rdc_def)
  obtain m' where c: "copyFrom (sizeofT q) tx m (Some dst) 0 n = Some (True, m')"
    and got: "elems m' dst (qz q) (unat n) = map (\<lambda>i. msg q m' (r + i)) [0..<unat n]"
    and slot: "\<And>k. msg q m' k = msg q m k"
    and same: "load64 m' (qwp q) = load64 m (qwp q)" "load64 m' (qrp q) = load64 m (qrp q)"
      "\<And>k. k \<le> qcap q \<Longrightarrow> elems m' src (qz q) k = elems m src (qz q) k"
    using copyFrom_ends [OF S(1) al n(1), of m] unfolding tx by blast
  have "elems m' dst (qz q) (unat n) = take (unat n) (drop r h)" if "?e \<le> r + qcap q"
    using that rh n(2) by (auto simp: got slot ring_holds_def intro!: nth_equalityI)
  moreover have "appender_ok q src m' (length h) wph"
    using ap same(1) slot same(3) by (rule appender_ok_cong)
  ultimately have "unsync_pos q src dst h r m' wph (Copied n)"
    using p n by (simp add: unsync_pos_def rdc_def wrc_def same slot ring_holds_def)
  then show thesis using c got slot by (intro that) simp_all
qed

lemma pos_commit_read:
  assumes s: "unsync_setup q src dst" and p: "unsync_pos q src dst h r m wph (Copied n)"
    and c: "commitRead q m n = Some (ok, m')"
  shows "if ok then length h \<le> r + qcap q \<and> unsync_pos q src dst h (r + unat n) m' wph Idle
    else r + qcap q < length h \<and> unsync_pos q src dst h (length h) m' wph Idle"
proof -
  note S = unsync_setupD [OF s]
  have rw: "rdc q m = r * qz q" "wrc q m = length h * qz q" "r \<le> length h" "r + unat n \<le> length h"
    using p by (auto simp: unsync_pos_def)
  then have al: "unat (load64 m (qrp q)) = r * qz q" "unat (load64 m (qwp q)) = length h * qz q"
    by (simp_all add: rdc_def wrc_def)
  have "(r + unat n) * qz q \<le> length h * qz q" using rw(4) by (rule mult_le_mono1)
  then have "(r + unat n) * qz q < 2 ^ 64"
    using al(2) unat64_less [of "load64 m (qwp q)"] by linarith
  then have ad: "unat (load64 m (qrp q) + n * sizeofT q) = (r + unat n) * qz q"
    by (rule advance_counter [OF al(1)])
  have "qS q < (length h - r) * qz q \<longleftrightarrow> r + qcap q < length h"
    using S(4) rw(3) by (auto simp: qS_eq [OF S(3)])
  then show ?thesis
    using c pos_set_read [OF s p ad rw(4)] pos_set_read [OF s p al(2) order_refl]
    by (auto simp: commitRead_eq [OF S(2)] counters_gap [OF rw(1-3)] split: if_splits)
qed

section \<open>Reachable states\<close>

lemma unsync_step_inv:
  assumes s: "unsync_setup q src dst" and step: "spsc_step q src dst st st'"
    and inv: "unsync_inv q src dst xs st"
  shows "unsync_inv q src dst xs st'"
proof -
  note S = unsync_setupD [OF s]
  from inv obtain r where p: "unsync_pos q src dst (xs @ sent st) r (smem st) (writer st) (reader st)"
    by (auto simp: unsync_inv_def)
  from step show ?thesis
  proof cases
    case (fill bs)
    then show ?thesis using pos_fill [OF s p [unfolded fill(2)] fill(3)] by (auto simp: unsync_inv_def)
  next
    case (begin_write n ok tx)
    then show ?thesis
      using pos_begin_write [OF s p [unfolded begin_write(2)] begin_write(3,4)]
      by (cases ok) (auto simp: unsync_inv_def)
  next
    case (copy_to tx n ok m)
    obtain m' where "copyTo (sizeofT q) tx (smem st) (Some src) 0 n = Some (True, m')"
      "unsync_pos q src dst (xs @ sent st) r m' (Copied n) (reader st)"
      using pos_copy_to [OF s] p copy_to(2) by metis
    then show ?thesis using copy_to by (auto simp: unsync_inv_def)
  next
    case (commit_write n ok m)
    then have "ok" "m = store64 (smem st) (qwp q) (load64 (smem st) (qwp q) + n * sizeofT q)"
      by (simp_all add: commitWrite_store [OF S(2)])
    then show ?thesis
      using pos_commit_write [OF s p [unfolded commit_write(2)]] commit_write
      by (auto simp: unsync_inv_def)
  next
    case (begin_read n ok tx m)
    then show ?thesis
      using pos_begin_read [OF s p [unfolded begin_read(2)] begin_read(3,4)]
      by (cases ok) (auto simp: unsync_inv_def)
  next
    case (copy_from tx n ok m)
    obtain m' where "copyFrom (sizeofT q) tx (smem st) (Some dst) 0 n = Some (True, m')"
      "unsync_pos q src dst (xs @ sent st) r m' (writer st) (Copied n)"
      using pos_copy_from [OF s] p copy_from(2) by metis
    then show ?thesis using copy_from by (auto simp: unsync_inv_def)
  next
    case (commit_read n ok m)
    then show ?thesis
      using pos_commit_read [OF s p [unfolded commit_read(2)] commit_read(3)]
      by (cases ok) (auto simp: unsync_inv_def)
  qed
qed

lemma unsync_reach_inv:
  assumes "(spsc_step q src dst)\<^sup>*\<^sup>* st st'" and "unsync_setup q src dst" and "unsync_inv q src dst xs st"
  shows "unsync_inv q src dst xs st'"
  using assms(1,3) by (induction rule: rtranclp_induct) (auto intro: unsync_step_inv [OF assms(2)])

lemma unsync_start_inv:
  assumes "log_inv q m xs" and "rdc q m = r * qz q" and "r \<le> length xs"
  shows "unsync_inv q src dst xs (spsc_start m)"
  using assms
  by (auto simp: unsync_inv_def unsync_pos_def spsc_start_def log_inv_def ring_holds_def)

text \<open>
  A reader of the unsynchronized flavor beside a writer that never waits: when \<open>commitRead\<close>
  confirms a read, the data in the reader's buffer are the committed messages from its position
  on, unless the writer is between the copy and the commit of a batch that reaches around the ring into
  them; when it does not, the reader goes on at the writer's position.
\<close>

theorem unsync_concurrent_read:
  assumes "unsync_setup q src dst" and "log_inv q m0 xs" and "rdc q m0 = r0 * qz q" and "r0 \<le> length xs"
    and "(spsc_step q src dst)\<^sup>*\<^sup>* (spsc_start m0) s"
    and "reader s = Copied n" and "commitRead q (smem s) n = Some (ok, m')"
  shows "\<exists>r. rdc q (smem s) = r * qz q \<and> wrc q m' = length (xs @ sent s) * qz q \<and>
    (if ok
     then rdc q m' = (r + unat n) * qz q \<and>
       (pending (writer s) = 0 \<or> length (xs @ sent s) + pending (writer s) \<le> r + qcap q \<longrightarrow>
        elems (smem s) dst (qz q) (unat n) = take (unat n) (drop r (xs @ sent s)))
     else rdc q m' = wrc q m')"
proof -
  let ?h = "xs @ sent s"
  obtain r where p: "unsync_pos q src dst ?h r (smem s) (writer s) (Copied n)"
    using unsync_reach_inv [OF assms(5,1) unsync_start_inv [OF assms(2-4)]] assms(6)
    by (auto simp: unsync_inv_def)
  note c = pos_commit_read [OF assms(1) p assms(7)]
  from p have "rdc q (smem s) = r * qz q"
    "length ?h + pending (writer s) \<le> r + qcap q \<Longrightarrow>
      elems (smem s) dst (qz q) (unat n) = take (unat n) (drop r ?h)"
    by (auto simp: unsync_pos_def)
  moreover from c have "wrc q m' = length ?h * qz q"
    "if ok then length ?h \<le> r + qcap q \<and> rdc q m' = (r + unat n) * qz q else rdc q m' = wrc q m'"
    by (auto simp: unsync_pos_def split: if_splits)
  ultimately show ?thesis by (intro exI [of _ r]) (auto split: if_splits)
qed

end
