(* ===== verification/ConcurrencyExamples.thy ===== *)
theory ConcurrencyExamples
  imports QueueExamples QueueInterleaving UnsyncInterleaving
begin

text \<open>
  Witnesses for the concurrency properties: on the example queue with the unread messages 1 2 and
  3 4, a write of one message and a read of two overlap in time.
\<close>

definition ex_dst :: ptr where "ex_dst = Ptr (Heap 1) 0"

lemma ex_setup: "spsc_setup ex_sync ex_buf ex_dst"
  using ex_user_buf [of 3 kSynchronizedReadWrite]
  by (simp add: spsc_setup_def two_ends_def ex_wf user_buf_def sep_def ex_buf_def ex_dst_def)

text \<open>Both threads begin before one of them copies.\<close>

lemma ex_both_begun:
  "\<exists>s tx tx'. (spsc_step ex_sync ex_buf ex_dst)\<^sup>*\<^sup>* (spsc_start (ex_mem 6 10)) s \<and>
    writer s = Begun tx 1 \<and> reader s = Begun tx' 2 \<and> tx = ring_tx ex_sync 10 1 \<and>
    tx' = ring_tx ex_sync 6 2 \<and> sent s = [] \<and> delivered s = [] \<and> smem s = ex_mem 6 10"
proof -
  let ?tx = "ring_tx ex_sync 10 1" and ?tx' = "ring_tx ex_sync 6 2"
  let ?s0 = "spsc_start (ex_mem 6 10)"
  let ?s1 = "?s0\<lparr>writer := if True then Begun ?tx 1 else Idle\<rparr>"
  let ?s2 = "?s1\<lparr>smem := ex_mem 6 10, reader := if True then Begun ?tx' 2 else Idle\<rparr>"
  have "spsc_step ex_sync ex_buf ex_dst ?s0 ?s1"
    by (rule begin_write)
      (simp_all add: spsc_start_def ex_counters beginWrite_eq ex_wf freeBytes_def usedBytes_def ex_loads)
  moreover have "spsc_step ex_sync ex_buf ex_dst ?s1 ?s2"
    by (rule begin_read)
      (simp_all add: spsc_start_def ex_counters beginRead_eq ex_wf ex_loads)
  ultimately have "(spsc_step ex_sync ex_buf ex_dst)\<^sup>*\<^sup>* ?s0 ?s2" by (blast intro: rtranclp.intros)
  then show ?thesis
    by (intro exI [of _ ?s2] exI [of _ ?tx] exI [of _ ?tx']) (simp add: spsc_start_def)
qed

text \<open>From there the writer copies and commits, then the reader does.\<close>

lemma ex_both_done:
  "\<exists>s. (spsc_step ex_sync ex_buf ex_dst)\<^sup>*\<^sup>* (spsc_start (ex_mem 6 10)) s \<and>
    length (sent s) = 1 \<and> length (delivered s) = 2"
proof -
  let ?R = "spsc_step ex_sync ex_buf ex_dst" and ?s0 = "spsc_start (ex_mem 6 10)"
  have inv: "spsc_inv ex_sync ex_buf ex_dst (contents ex_sync (ex_mem 6 10)) t" if "?R\<^sup>*\<^sup>* ?s0 t" for t
    by (rule spsc_reach_inv [OF that ex_setup spsc_start_inv [OF ex_setup ex_fifo_6_10]])
  note nxt = spsc_inv_next [OF ex_setup inv, unfolded next_succeeds_def]
  note go = rtranclp.rtrancl_into_rtrancl [where r = ?R and a = ?s0]
  obtain s tx tx' where s: "?R\<^sup>*\<^sup>* ?s0 s" "writer s = Begun tx 1" "reader s = Begun tx' 2"
    "sent s = []" "delivered s = []" using ex_both_begun by blast
  obtain m1 where m1: "copyTo (sizeofT ex_sync) tx (smem s) (Some ex_buf) 0 1 = Some (True, m1)"
    using conjunct1 [OF nxt [OF s(1)]] unfolding s(2) by auto
  obtain s1 where s1: "?R\<^sup>*\<^sup>* ?s0 s1" "writer s1 = Copied 1" "reader s1 = Begun tx' 2"
    "sent s1 = []" "delivered s1 = []" using go [OF s(1) copy_to [OF s(2) m1]] s(3-5) by auto
  obtain m2 where m2: "commitWrite ex_sync (smem s1) 1 = Some (True, m2)"
    using conjunct1 [OF nxt [OF s1(1)]] unfolding s1(2) by auto
  obtain s2 where s2: "?R\<^sup>*\<^sup>* ?s0 s2" "reader s2 = Begun tx' 2" "length (sent s2) = 1" "delivered s2 = []"
    using go [OF s1(1) commit_write [OF s1(2) m2]] s1(3-5) by (auto simp: elems_def)
  obtain m3 where m3: "copyFrom (sizeofT ex_sync) tx' (smem s2) (Some ex_dst) 0 2 = Some (True, m3)"
    using conjunct2 [OF nxt [OF s2(1)]] unfolding s2(2) by auto
  obtain s3 where s3: "?R\<^sup>*\<^sup>* ?s0 s3" "reader s3 = Copied 2" "length (sent s3) = 1" "delivered s3 = []"
    using go [OF s2(1) copy_from [OF s2(2) m3]] s2(3,4) by auto
  obtain m4 where m4: "commitRead ex_sync (smem s3) 2 = Some (True, m4)"
    using conjunct2 [OF nxt [OF s3(1)]] unfolding s3(2) by auto
  show ?thesis
    using go [OF s3(1) commit_read [OF s3(2) m4]] s3(3,4) by (auto simp: elems_def)
qed

theorem concurrent_fifo_witness:
  "\<exists>s x. (spsc_step ex_sync ex_buf ex_dst)\<^sup>*\<^sup>* (spsc_start (ex_mem 6 10)) s \<and>
    delivered s = [[1, 2], [3, 4]] \<and> sent s = [x] \<and> contents ex_sync (smem s) = [x]"
proof -
  obtain s where s: "(spsc_step ex_sync ex_buf ex_dst)\<^sup>*\<^sup>* (spsc_start (ex_mem 6 10)) s"
    "length (sent s) = 1" "length (delivered s) = 2" using ex_both_done by blast
  then obtain x where x: "sent s = [x]" by (auto simp: length_Suc_conv)
  have eq: "[[1, 2], [3, 4]] @ sent s = delivered s @ contents ex_sync (smem s)"
    using concurrent_fifo [OF ex_setup ex_fifo_6_10 s(1)] by (simp add: ex_contents)
  then have "delivered s = [[1, 2], [3, 4]] \<and> contents ex_sync (smem s) = [x]"
    using s(3) x append_eq_append_conv [of "[[1, 2], [3, 4]]" "delivered s"] by auto
  with s(1) x show ?thesis by blast
qed

theorem concurrent_copies_disjoint_witness:
  "sep (Ptr (Shm 0) 20) 2 (Ptr (Shm 0) 16) 2 \<and> sep (Ptr (Shm 0) 20) 2 (Ptr (Shm 0) 18) 2"
proof -
  obtain s tx tx' where s: "(spsc_step ex_sync ex_buf ex_dst)\<^sup>*\<^sup>* (spsc_start (ex_mem 6 10)) s"
    "writer s = Begun tx 1" "reader s = Begun tx' 2" "tx = ring_tx ex_sync 10 1"
    "tx' = ring_tx ex_sync 6 2" using ex_both_begun by blast
  have w: "tx_slots (sizeofT ex_sync) (ring_tx ex_sync 10 1) 0 1 =
      map (\<lambda>i. ring_slot ex_sync (5 + i)) [0..<unat (1 :: u64)]"
    by (rule ring_tx_slots [OF ex_wf]) simp_all
  have r: "tx_slots (sizeofT ex_sync) (ring_tx ex_sync 6 2) 0 2 =
      map (\<lambda>i. ring_slot ex_sync (3 + i)) [0..<unat (2 :: u64)]"
    by (rule ring_tx_slots [OF ex_wf]) simp_all
  show ?thesis
    using concurrent_copies_disjoint [OF ex_setup ex_fifo_6_10 s(1,2,3)] w r s(4,5)
    by (simp add: ring_slot_def padd_def upt_rec)
qed

section \<open>The unsynchronized flavor\<close>

lemma ex_unsync_setup: "unsync_setup ex_unsync ex_buf ex_dst"
  using ex_user_buf [of 3 kUnsynchronizedWrite]
  by (simp add: unsync_setup_def two_ends_def ex_wf user_buf_def sep_def ex_buf_def ex_dst_def)

lemma ex_unsync_copied:
  "\<exists>s m'. (spsc_step ex_unsync ex_buf ex_dst)\<^sup>*\<^sup>* (spsc_start (ex_mem 6 10)) s \<and>
    writer s = Idle \<and> reader s = Copied 2 \<and> sent s = [] \<and> rdc ex_unsync (smem s) = 6 \<and>
    commitRead ex_unsync (smem s) 2 = Some (True, m')"
proof -
  let ?R = "spsc_step ex_unsync ex_buf ex_dst" and ?s0 = "spsc_start (ex_mem 6 10)"
  let ?tx = "ring_tx ex_unsync 6 2"
  have "?R ?s0 (?s0\<lparr>smem := ex_mem 6 10, reader := if True then Begun ?tx 2 else Idle\<rparr>)"
    by (rule begin_read) (simp_all add: spsc_start_def ex_counters beginRead_eq ex_wf ex_loads)
  then obtain s1 where s1: "?R ?s0 s1" "reader s1 = Begun ?tx 2" "smem s1 = ex_mem 6 10"
    "writer s1 = Idle" "sent s1 = []" by (simp add: spsc_start_def)
  obtain m where m: "copyFrom (sizeofT ex_unsync) ?tx (smem s1) (Some ex_dst) 0 2 = Some (True, m)"
    "load64 m (qwp ex_unsync) = load64 (ex_mem 6 10) (qwp ex_unsync)"
    "load64 m (qrp ex_unsync) = load64 (ex_mem 6 10) (qrp ex_unsync)"
    unfolding s1(3)
    by (rule copyFrom_ends [OF unsync_setupD(1) [OF ex_unsync_setup], of 6 3 2 "ex_mem 6 10"]) simp_all
  obtain s2 where s2: "?R s1 s2" "reader s2 = Copied 2" "smem s2 = m" "writer s2 = Idle" "sent s2 = []"
    using copy_from [OF s1(2) m(1), of ex_buf] s1(4,5) by auto
  have "?R\<^sup>*\<^sup>* ?s0 s2" using s1(1) s2(1) by (blast intro: rtranclp.intros)
  moreover have "\<exists>m'. commitRead ex_unsync m 2 = Some (True, m')"
    using m by (simp add: commitRead_eq ex_wf ex_loads)
  moreover have "rdc ex_unsync m = 6" using m(3) by (simp add: rdc_def ex_loads)
  ultimately show ?thesis using s2(2-5) by blast
qed

theorem unsync_concurrent_read_witness:
  "\<exists>s m'. (spsc_step ex_unsync ex_buf ex_dst)\<^sup>*\<^sup>* (spsc_start (ex_mem 6 10)) s \<and>
    commitRead ex_unsync (smem s) 2 = Some (True, m') \<and>
    elems (smem s) ex_dst 2 2 = [[1, 2], [3, 4]] \<and> rdc ex_unsync m' = 10"
proof -
  obtain s m' where s: "(spsc_step ex_unsync ex_buf ex_dst)\<^sup>*\<^sup>* (spsc_start (ex_mem 6 10)) s"
    "writer s = Idle" "reader s = Copied 2" "sent s = []" "rdc ex_unsync (smem s) = 6"
    "commitRead ex_unsync (smem s) 2 = Some (True, m')" using ex_unsync_copied by blast
  have "elems (smem s) ex_dst 2 2 = [[1, 2], [3, 4]] \<and> rdc ex_unsync m' = 10"
    using unsync_concurrent_read [OF ex_unsync_setup ex_log_inv _ _ s(1,3,6), of 3] s(2,4,5)
    by (auto simp: ex_counters ex_log_def)
  with s(1,6) show ?thesis by blast
qed

text \<open>
  The exception of the theorem is real. The writer has copied two messages over slots 2 and 0 and
  not committed them; the reader, three messages behind, begins, copies and commits, and
  is told that its data are good, where the first message is the uncommitted one.
\<close>

lemma torn_read_confirmed:
  "Option.bind (beginWrite ex_unsync (ex_mem 6 10) 2 emptyMemTransaction) (\<lambda>(ok1, wtx).
   Option.bind (copyTo 2 wtx (ex_mem 6 10) (Some ex_buf) 0 2) (\<lambda>(ok2, m1).
   Option.bind (beginRead ex_unsync m1 2) (\<lambda>(ok3, rtx, m2).
   Option.bind (copyFrom 2 rtx m2 (Some ex_dst) 0 2) (\<lambda>(ok4, m3).
   Option.bind (commitRead ex_unsync m3 2) (\<lambda>(ok5, m4).
     Some ([ok1, ok2, ok3, ok4, ok5], elems m4 ex_dst 2 2))))))
   = Some ([True, True, True, True, True], [[9, 10], [3, 4]])"
  by code_simp

end
