(* ===== verification/QueueReleaseAcquire.thy ===== *)
theory QueueReleaseAcquire
  imports QueueInterleaving
begin

text \<open>
  The synchronized flavor on a machine with release and acquire only: each thread has a view of the
  memory of its own. A store with \<open>memory_order_release\<close> publishes the counter with the view of the
  thread, a load with \<open>memory_order_acquire\<close> takes any published counter that is not older than the
  last one taken, together with that view of the ring; relaxed loads are of the thread's own counter. The
  calls are those of the code, each on the view of its thread.
\<close>

section \<open>Two views\<close>

text \<open>Oldest first: the write counters published, with the ring at that time, and the read counters.\<close>

record ra =
  wview :: mem
  rview :: mem
  wreleases :: "(u64 \<times> mem) list"
  rreleases :: "u64 list"
  wseen :: nat
  rseen :: nat
  wphase :: phase
  rphase :: phase
  ra_sent :: "u8 list list"
  ra_delivered :: "u8 list list"

text \<open>Loads with acquire: of the read counter by the writer, of the write counter by the reader.\<close>

definition acquire_read :: "MessageQueue \<Rightarrow> u64 \<Rightarrow> mem \<Rightarrow> mem" where
  "acquire_read q v m = store64 m (qrp q) v"

definition acquire_write :: "MessageQueue \<Rightarrow> u64 \<times> mem \<Rightarrow> mem \<Rightarrow> mem" where
  "acquire_write q vm m =
     store64 (\<lambda>ob i. if in_range (qring q) (qS q) ob i then snd vm ob i else m ob i) (qwp q) (fst vm)"

text \<open>A store with release to the read counter publishes its value, if that is a new one.\<close>

definition publish_read :: "MessageQueue \<Rightarrow> mem \<Rightarrow> mem \<Rightarrow> u64 list \<Rightarrow> u64 list" where
  "publish_read q m m' rs = (if load64 m' (qrp q) = load64 m (qrp q) then rs else rs @ [load64 m' (qrp q)])"

inductive ra_step :: "MessageQueue \<Rightarrow> ptr \<Rightarrow> ptr \<Rightarrow> ra \<Rightarrow> ra \<Rightarrow> bool" for q src dst where
  ra_fill: "wphase s = Idle \<Longrightarrow> length bs \<le> qcap q * qz q \<Longrightarrow>
    ra_step q src dst s (s\<lparr>wview := wr_bytes (wview s) src bs\<rparr>)"
| ra_begin_write: "wphase s = Idle \<Longrightarrow> wseen s \<le> i \<Longrightarrow> i < length (rreleases s) \<Longrightarrow>
    m = acquire_read q (rreleases s ! i) (wview s) \<Longrightarrow> wrc q m + unat n * qz q < 2 ^ 64 \<Longrightarrow>
    beginWrite q m n emptyMemTransaction = Some (ok, tx) \<Longrightarrow>
    ra_step q src dst s (s\<lparr>wview := m, wseen := i, wphase := if ok then Begun tx n else Idle\<rparr>)"
| ra_copy_to: "wphase s = Begun tx n \<Longrightarrow>
    copyTo (sizeofT q) tx (wview s) (Some src) 0 n = Some (ok, m) \<Longrightarrow>
    ra_step q src dst s (s\<lparr>wview := m, wphase := if ok then Copied n else Idle\<rparr>)"
| ra_commit_write: "wphase s = Copied n \<Longrightarrow> commitWrite q (wview s) n = Some (ok, m) \<Longrightarrow>
    ra_step q src dst s (s\<lparr>wview := m, wphase := Idle,
      wreleases := wreleases s @ [(load64 m (qwp q), m)],
      ra_sent := ra_sent s @ (if ok then elems (wview s) src (qz q) (unat n) else [])\<rparr>)"
| ra_begin_read: "rphase s = Idle \<Longrightarrow> rseen s \<le> j \<Longrightarrow> j < length (wreleases s) \<Longrightarrow>
    m = acquire_write q (wreleases s ! j) (rview s) \<Longrightarrow> unat n * qz q < 2 ^ 64 \<Longrightarrow>
    beginRead q m n = Some (ok, tx, m') \<Longrightarrow>
    ra_step q src dst s (s\<lparr>rview := m', rseen := j, rphase := if ok then Begun tx n else Idle,
      rreleases := publish_read q m m' (rreleases s)\<rparr>)"
| ra_copy_from: "rphase s = Begun tx n \<Longrightarrow>
    copyFrom (sizeofT q) tx (rview s) (Some dst) 0 n = Some (ok, m) \<Longrightarrow>
    ra_step q src dst s (s\<lparr>rview := m, rphase := if ok then Copied n else Idle\<rparr>)"
| ra_commit_read: "rphase s = Copied n \<Longrightarrow> rseen s \<le> j \<Longrightarrow> j < length (wreleases s) \<Longrightarrow>
    m = acquire_write q (wreleases s ! j) (rview s) \<Longrightarrow> commitRead q m n = Some (ok, m') \<Longrightarrow>
    ra_step q src dst s (s\<lparr>rview := m', rseen := j, rphase := Idle,
      rreleases := publish_read q m m' (rreleases s),
      ra_delivered := ra_delivered s @ (if ok then elems (rview s) dst (qz q) (unat n) else [])\<rparr>)"

definition ra_start :: "MessageQueue \<Rightarrow> mem \<Rightarrow> ra" where
  "ra_start q m = \<lparr>wview = m, rview = m, wreleases = [(load64 m (qwp q), m)],
     rreleases = [load64 m (qrp q)], wseen = 0, rseen = 0, wphase = Idle, rphase = Idle,
     ra_sent = [], ra_delivered = []\<rparr>"

section \<open>The invariant\<close>

text \<open>The messages with the numbers from \<open>lo\<close> to \<open>hi\<close> of the log \<open>L\<close>, which begins at \<open>r0\<close>, are in the slots.\<close>

definition holds :: "MessageQueue \<Rightarrow> u8 list list \<Rightarrow> nat \<Rightarrow> mem \<Rightarrow> nat \<Rightarrow> nat \<Rightarrow> bool" where
  "holds q L r0 m lo hi \<longleftrightarrow> (\<forall>k. r0 \<le> k \<and> lo \<le> k \<and> k < hi \<longrightarrow> msg q m k = L ! (k - r0))"

lemma holds_mono: "holds q L r0 m lo hi \<Longrightarrow> lo \<le> lo' \<Longrightarrow> hi' \<le> hi \<Longrightarrow> holds q L r0 m lo' hi'"
  by (auto simp: holds_def)

lemma holds_cong:
  "holds q L r0 m lo hi \<Longrightarrow> (\<And>k. lo \<le> k \<Longrightarrow> k < hi \<Longrightarrow> msg q m' k = msg q m k) \<Longrightarrow> holds q L r0 m' lo hi"
  by (auto simp: holds_def)

lemma holds_extend:
  "holds q L r0 m lo hi \<Longrightarrow> hi \<le> r0 + length L \<Longrightarrow> holds q (L @ xs) r0 m lo hi"
  by (auto simp: holds_def nth_append)

lemma holds_append:
  assumes "holds q L r0 m lo w" and "w = r0 + length L"
    and "\<And>i. i < length xs \<Longrightarrow> msg q m (w + i) = xs ! i"
  shows "holds q (L @ xs) r0 m lo (w + length xs)"
  unfolding holds_def
proof (intro allI impI)
  fix k assume k: "r0 \<le> k \<and> lo \<le> k \<and> k < w + length xs"
  show "msg q m k = (L @ xs) ! (k - r0)"
  proof (cases "k < w")
    case True
    then show ?thesis using k assms(1,2) by (auto simp: holds_def nth_append)
  next
    case False
    then obtain i where i: "k = w + i" using le_Suc_ex not_less by blast
    then have "(L @ xs) ! (k - r0) = xs ! i" using assms(2) by (simp add: nth_append)
    then show ?thesis using i k assms(3) [of i] by simp
  qed
qed

text \<open>The counters published, as message numbers: they only grow, and a thread has seen one of them.\<close>

definition published :: "MessageQueue \<Rightarrow> u64 list \<Rightarrow> nat list \<Rightarrow> nat \<Rightarrow> nat \<Rightarrow> nat \<Rightarrow> bool" where
  "published q vs ks seen k hi \<longleftrightarrow> map unat vs = map (\<lambda>k. k * qz q) ks \<and> sorted ks \<and>
     seen < length ks \<and> ks ! seen = k \<and> last ks = hi"

lemma published_pick:
  assumes "published q vs ks seen k hi" and "seen \<le> i" and "i < length vs"
  shows "unat (vs ! i) = ks ! i * qz q" "k \<le> ks ! i" "ks ! i \<le> hi" "published q vs ks i (ks ! i) hi"
proof -
  have len: "length vs = length ks" and ne: "ks \<noteq> []" using assms(1) map_eq_imp_length_eq
    by (fastforce simp: published_def)+
  show "unat (vs ! i) = ks ! i * qz q"
    using assms(1,3) len unfolding published_def by (metis nth_map)
  show "k \<le> ks ! i" "ks ! i \<le> hi" "published q vs ks i (ks ! i) hi"
    using assms len ne by (auto simp: published_def last_conv_nth intro: sorted_nth_mono)
qed

lemma published_in:
  assumes "published q vs ks seen k hi" and "i < length vs"
  shows "ks ! i \<le> hi"
proof -
  have "i < length ks" using assms unfolding published_def by (metis length_map)
  then show ?thesis
    using assms(1) unfolding published_def by (cases ks rule: rev_cases) (auto simp: sorted_append nth_append)
qed

lemma published_add:
  assumes "published q vs ks seen k hi" and "unat v = hi' * qz q" and "hi \<le> hi'"
  shows "published q (vs @ [v]) (ks @ [hi']) seen k hi'"
proof -
  have "ks \<noteq> []" using assms(1) by (auto simp: published_def)
  then have "x \<le> hi" if "x \<in> set ks" for x
    using that assms(1) by (auto simp: published_def last_conv_nth in_set_conv_nth intro: sorted_nth_mono)
  then show ?thesis using assms by (fastforce simp: published_def nth_append sorted_append)
qed

text \<open>
  \<open>a\<close> is the read position the writer knows of, \<open>b\<close> the write position the reader knows of; the true ones
  are \<open>r\<close> and \<open>w\<close>. Every published view of the ring has the messages from \<open>r\<close> to its own position.
\<close>

definition ra_at :: "MessageQueue \<Rightarrow> ptr \<Rightarrow> ptr \<Rightarrow> nat \<Rightarrow> u8 list list \<Rightarrow> ra \<Rightarrow>
    nat \<Rightarrow> nat \<Rightarrow> nat \<Rightarrow> nat \<Rightarrow> nat list \<Rightarrow> nat list \<Rightarrow> bool" where
  "ra_at q src dst r0 L s a w r b ks js \<longleftrightarrow>
     at_pos q (wview s) a w \<and> at_pos q (rview s) r b \<and>
     published q (rreleases s) ks (wseen s) a r \<and>
     published q (map fst (wreleases s)) js (rseen s) b w \<and>
     writer_ok q src (wview s) a w (wphase s) \<and> reader_ok q dst (rview s) r b (rphase s) \<and>
     holds q L r0 (wview s) a w \<and> holds q L r0 (rview s) r b \<and>
     (\<forall>j < length (wreleases s). holds q L r0 (snd (wreleases s ! j)) r (js ! j)) \<and>
     r0 + length L = w \<and> r0 \<le> r \<and> ra_delivered s = take (r - r0) L"

definition ra_inv :: "MessageQueue \<Rightarrow> ptr \<Rightarrow> ptr \<Rightarrow> nat \<Rightarrow> u8 list list \<Rightarrow> ra \<Rightarrow> bool" where
  "ra_inv q src dst r0 xs s \<longleftrightarrow> (\<exists>a w r b ks js. ra_at q src dst r0 (xs @ ra_sent s) s a w r b ks js)"

lemma ra_invI: "ra_at q src dst r0 L s a w r b ks js \<Longrightarrow> L = xs @ ra_sent s \<Longrightarrow> ra_inv q src dst r0 xs s"
  unfolding ra_inv_def by blast

lemma published_bounds: "published q vs ks seen k hi \<Longrightarrow> k \<le> hi"
  unfolding published_def by (cases ks rule: rev_cases) (auto simp: sorted_append nth_append)

lemma ra_atD:
  assumes "ra_at q src dst r0 L s a w r b ks js"
  shows "at_pos q (wview s) a w" "at_pos q (rview s) r b" "published q (rreleases s) ks (wseen s) a r"
    "published q (map fst (wreleases s)) js (rseen s) b w"
    "writer_ok q src (wview s) a w (wphase s)" "reader_ok q dst (rview s) r b (rphase s)"
    "holds q L r0 (wview s) a w" "holds q L r0 (rview s) r b"
    "\<And>j. j < length (wreleases s) \<Longrightarrow> holds q L r0 (snd (wreleases s ! j)) r (js ! j)"
    "w = r0 + length L" "r0 \<le> r" "ra_delivered s = take (r - r0) L"
  using assms by (simp_all add: ra_at_def)

lemma ra_at_order:
  assumes "ra_at q src dst r0 L s a w r b ks js"
  shows "a \<le> r" "r \<le> b" "b \<le> w" "w \<le> a + qcap q"
  using ra_atD(1,2) [OF assms] published_bounds [OF ra_atD(3) [OF assms]] published_bounds [OF ra_atD(4) [OF assms]]
  by (auto simp: at_pos_def)

text \<open>What the acquire loads do to a view.\<close>

lemma acquire_read_view:
  assumes s: "spsc_setup q src dst" and p: "at_pos q m a w" and v: "unat v = a' * qz q" "a \<le> a'" "a' \<le> w"
  shows "at_pos q (acquire_read q v m) a' w" "msg q (acquire_read q v m) k = msg q m k"
    "load64 (acquire_read q v m) (qwp q) = load64 m (qwp q)"
  using p v mq_wf_sep [OF spsc_setupD(1) [OF s]] slot_store_counter [OF spsc_setupD(1,2) [OF s]]
  by (auto simp: acquire_read_def at_pos_def rdc_def wrc_def cell64.load_store_same cell64.load_store_sep)

lemma acquire_write_view:
  assumes s: "spsc_setup q src dst" and p: "at_pos q m r b" and v: "unat (fst vm) = b' * qz q" "b \<le> b'"
    and cap: "b' \<le> r + qcap q"
  shows "at_pos q (acquire_write q vm m) r b'" "msg q (acquire_write q vm m) k = msg q (snd vm) k"
proof -
  note S = spsc_setupD [OF s] and sp = mq_wf_sep [OF spsc_setupD(1) [OF s]]
  let ?m = "\<lambda>ob i. if in_range (qring q) (qS q) ob i then snd vm ob i else m ob i"
  have "load64 ?m (qrp q) = load64 m (qrp q)" by (rule ring_change_counters(2) [OF S(1)]) simp
  then show "at_pos q (acquire_write q vm m) r b'"
    using p v cap sp
    by (auto simp: acquire_write_def at_pos_def rdc_def wrc_def cell64.load_store_same cell64.load_store_sep)
  have "msg q ?m k = msg q (snd vm) k"
    by (rule rd_bytes_unchanged) (auto dest!: ring_slot_in_ring [OF S(1,2)])
  then show "msg q (acquire_write q vm m) k = msg q (snd vm) k"
    by (simp add: acquire_write_def slot_store_counter [OF S(1,2)])
qed

section \<open>Every step keeps it\<close>

lemma ra_fill_inv:
  assumes s: "spsc_setup q src dst" and inv: "ra_inv q src dst r0 xs s"
    and "wphase s = Idle" and len: "length bs \<le> qcap q * qz q"
  shows "ra_inv q src dst r0 xs (s\<lparr>wview := wr_bytes (wview s) src bs\<rparr>)"
proof -
  obtain a w r b ks js where i: "ra_at q src dst r0 (xs @ ra_sent s) s a w r b ks js"
    using inv by (auto simp: ra_inv_def)
  note same = fill_ends [OF spsc_setupD(7) [OF s] len]
  have "ra_at q src dst r0 (xs @ ra_sent s) (s\<lparr>wview := wr_bytes (wview s) src bs\<rparr>) a w r b ks js"
    using i assms(3) at_pos_cong [OF same(1,2)] same(3) by (simp add: ra_at_def holds_def)
  then show ?thesis by (rule ra_invI) simp
qed

lemma ra_begin_write_inv:
  assumes s: "spsc_setup q src dst" and inv: "ra_inv q src dst r0 xs s"
    and i: "wseen s \<le> i" "i < length (rreleases s)" and m: "m = acquire_read q (rreleases s ! i) (wview s)"
    and nw: "wrc q m + unat n * qz q < 2 ^ 64"
    and c: "beginWrite q m n emptyMemTransaction = Some (ok, tx)"
  shows "ra_inv q src dst r0 xs (s\<lparr>wview := m, wseen := i, wphase := if ok then Begun tx n else Idle\<rparr>)"
proof -
  obtain a w r b ks js where ra: "ra_at q src dst r0 (xs @ ra_sent s) s a w r b ks js"
    using inv by (auto simp: ra_inv_def)
  note D = ra_atD [OF ra] and O = ra_at_order [OF ra]
  note pk = published_pick [OF D(3) i]
  have le: "ks ! i \<le> w" using pk(3) O by simp
  note v = acquire_read_view [OF s D(1) pk(1,2) le]
  have "writer_ok q src m (ks ! i) w (if ok then Begun tx n else Idle)"
    using beginWrite_room [OF s v(1) nw [unfolded m], of emptyMemTransaction tx] c unfolding m by (cases ok) simp_all
  moreover have "holds q (xs @ ra_sent s) r0 m (ks ! i) w"
    using holds_mono [OF D(7) pk(2) order_refl] v(2) unfolding m by (simp add: holds_def)
  ultimately have "ra_at q src dst r0 (xs @ ra_sent s)
      (s\<lparr>wview := m, wseen := i, wphase := if ok then Begun tx n else Idle\<rparr>) (ks ! i) w r b ks js"
    using ra v(1) pk(4) unfolding m ra_at_def by simp
  then show ?thesis by (rule ra_invI) simp
qed

lemma ra_copy_to_inv:
  assumes s: "spsc_setup q src dst" and inv: "ra_inv q src dst r0 xs s" and ph: "wphase s = Begun tx n"
    and c: "copyTo (sizeofT q) tx (wview s) (Some src) 0 n = Some (ok, m)"
  shows "ra_inv q src dst r0 xs (s\<lparr>wview := m, wphase := if ok then Copied n else Idle\<rparr>)"
proof -
  obtain a w r b ks js where ra: "ra_at q src dst r0 (xs @ ra_sent s) s a w r b ks js"
    using inv by (auto simp: ra_inv_def)
  note D = ra_atD [OF ra]
  have rm: "room_for q a w n" and tx: "tx = ring_tx q (load64 (wview s) (qwp q)) n" using D(5) ph by simp_all
  obtain m' where m': "copyTo (sizeofT q) tx (wview s) (Some src) 0 n = Some (True, m')"
    "map (\<lambda>i. msg q m' (w + i)) [0..<unat n] = elems m' src (qz q) (unat n)"
    and old: "\<And>k. a \<le> k \<Longrightarrow> k < w \<Longrightarrow> msg q m' k = msg q (wview s) k"
    and same: "load64 m' (qwp q) = load64 (wview s) (qwp q)" "load64 m' (qrp q) = load64 (wview s) (qrp q)"
    using copyTo_step [OF s D(1) rm] unfolding tx by blast
  have m: "m = m'" "ok" using c m'(1) by simp_all
  have "ra_at q src dst r0 (xs @ ra_sent s) (s\<lparr>wview := m, wphase := if ok then Copied n else Idle\<rparr>) a w r b ks js"
    using ra rm m'(2) at_pos_cong [OF same] holds_cong [OF D(7) old] unfolding m ra_at_def by simp
  then show ?thesis by (rule ra_invI) simp
qed

lemma ra_commit_write_inv:
  assumes s: "spsc_setup q src dst" and inv: "ra_inv q src dst r0 xs s" and ph: "wphase s = Copied n"
    and c: "commitWrite q (wview s) n = Some (ok, m)"
  shows "ra_inv q src dst r0 xs (s\<lparr>wview := m, wphase := Idle,
      wreleases := wreleases s @ [(load64 m (qwp q), m)],
      ra_sent := ra_sent s @ (if ok then elems (wview s) src (qz q) (unat n) else [])\<rparr>)"
proof -
  obtain a w r b ks js where ra: "ra_at q src dst r0 (xs @ ra_sent s) s a w r b ks js"
    using inv by (auto simp: ra_inv_def)
  note S = spsc_setupD [OF s] and D = ra_atD [OF ra] and O = ra_at_order [OF ra]
  let ?new = "elems (wview s) src (qz q) (unat n)" and ?L = "xs @ ra_sent s" and ?w = "w + unat n"
  have rm: "room_for q a w n" and new: "map (\<lambda>i. msg q (wview s) (w + i)) [0..<unat n] = ?new"
    using D(5) ph by simp_all
  have m: "m = store64 (wview s) (qwp q) (load64 (wview s) (qwp q) + n * sizeofT q)" "ok"
    using c by (simp_all add: commitWrite_store [OF S(1)])
  have pos: "at_pos q m a ?w" unfolding m by (rule commitWrite_pos [OF s D(1) rm])
  have slots: "msg q m k = msg q (wview s) k" for k unfolding m by (rule slot_store_counter [OF S(1,2)])
  have len: "length ?new = unat n" using arg_cong [OF new, of length] by simp
  have "holds q (?L @ ?new) r0 m a (w + length ?new)"
  proof (rule holds_append [OF _ D(10)])
    show "holds q ?L r0 m a w" by (rule holds_cong [OF D(7) slots])
    show "msg q m (w + i) = ?new ! i" if "i < length ?new" for i
      using that len slots by (simp flip: new)
  qed
  then have holds: "holds q (?L @ ?new) r0 m a ?w" by (simp only: len)
  have js: "length js = length (wreleases s)"
    using D(4) unfolding published_def by (metis length_map)
  have snaps: "holds q (?L @ ?new) r0 (snd ((wreleases s @ [(load64 m (qwp q), m)]) ! j)) r ((js @ [?w]) ! j)"
    if "j < Suc (length (wreleases s))" for j
  proof (cases "j < length (wreleases s)")
    case True
    have "js ! j \<le> w" by (rule published_in [OF D(4)]) (simp add: True)
    then show ?thesis
      using True holds_extend [OF D(9) [OF True]] D(10) js by (simp add: nth_append)
  next
    case False
    then have "j = length (wreleases s)" using that by simp
    then show ?thesis using holds_mono [OF holds O(1) order_refl] js by (simp add: nth_append)
  qed
  have pub: "published q (map fst (wreleases s) @ [load64 m (qwp q)]) (js @ [?w]) (rseen s) b ?w"
    by (rule published_add [OF D(4)]) (use pos in \<open>simp_all add: at_pos_def wrc_def\<close>)
  have "r - r0 \<le> length ?L" using D(10) O by simp
  then have "ra_at q src dst r0 (?L @ ?new) (s\<lparr>wview := m, wphase := Idle,
      wreleases := wreleases s @ [(load64 m (qwp q), m)], ra_sent := ra_sent s @ ?new\<rparr>) a ?w r b ks (js @ [?w])"
    using D pos holds snaps pub holds_extend [OF D(8)] O len
      reader_ok_cong [OF D(6) refl refl refl _ order_refl]
    unfolding ra_at_def by (simp add: at_pos_def)
  then show ?thesis by (rule ra_invI [THEN back_subst [of "ra_inv q src dst r0 xs"]]) (simp_all add: m(2))
qed

text \<open>The view of the reader after it has taken the publication \<open>j\<close>.\<close>

lemma ra_acquire_write:
  assumes s: "spsc_setup q src dst" and ra: "ra_at q src dst r0 L s a w r b ks js"
    and j: "rseen s \<le> j" "j < length (wreleases s)" and m: "m = acquire_write q (wreleases s ! j) (rview s)"
  shows "at_pos q m r (js ! j)" "holds q L r0 m r (js ! j)" "b \<le> js ! j" "js ! j \<le> w"
    "published q (map fst (wreleases s)) js j (js ! j) w"
proof -
  note D = ra_atD [OF ra] and O = ra_at_order [OF ra]
  have j': "j < length (map fst (wreleases s))" using j(2) by simp
  note pk = published_pick [OF D(4) j(1) j']
  show "b \<le> js ! j" "js ! j \<le> w" "published q (map fst (wreleases s)) js j (js ! j) w" using pk by simp_all
  have v: "unat (fst (wreleases s ! j)) = js ! j * qz q" using pk(1) j(2) by simp
  have cap: "js ! j \<le> r + qcap q" using pk(3) O by simp
  note view = acquire_write_view [OF s D(2) v pk(2) cap]
  show "at_pos q m r (js ! j)" unfolding m by (rule view(1))
  show "holds q L r0 m r (js ! j)" using D(9) [OF j(2)] view(2) unfolding m by (simp add: holds_def)
qed

lemma ra_begin_read_inv:
  assumes s: "spsc_setup q src dst" and inv: "ra_inv q src dst r0 xs s"
    and j: "rseen s \<le> j" "j < length (wreleases s)" and m: "m = acquire_write q (wreleases s ! j) (rview s)"
    and n: "unat n * qz q < 2 ^ 64" and c: "beginRead q m n = Some (ok, tx, m')"
  shows "ra_inv q src dst r0 xs (s\<lparr>rview := m', rseen := j, rphase := if ok then Begun tx n else Idle,
      rreleases := publish_read q m m' (rreleases s)\<rparr>)"
proof -
  obtain a w r b ks js where ra: "ra_at q src dst r0 (xs @ ra_sent s) s a w r b ks js"
    using inv by (auto simp: ra_inv_def)
  note v = ra_acquire_write [OF s ra j m]
  have m': "m' = m" using c beginRead_step [OF s v(1) n] by (simp split: if_splits)
  have ok: "reader_ok q dst m r (js ! j) (if ok then Begun tx n else Idle)"
    using c beginRead_step [OF s v(1) n] by (auto split: if_splits)
  have "ra_at q src dst r0 (xs @ ra_sent s) (s\<lparr>rview := m', rseen := j, rphase := if ok then Begun tx n else Idle,
      rreleases := publish_read q m m' (rreleases s)\<rparr>) a w r (js ! j) ks js"
    using ra v(1,2,5) ok unfolding m' ra_at_def by (simp add: publish_read_def)
  then show ?thesis by (rule ra_invI) simp
qed

lemma ra_copy_from_inv:
  assumes s: "spsc_setup q src dst" and inv: "ra_inv q src dst r0 xs s" and ph: "rphase s = Begun tx n"
    and c: "copyFrom (sizeofT q) tx (rview s) (Some dst) 0 n = Some (ok, m)"
  shows "ra_inv q src dst r0 xs (s\<lparr>rview := m, rphase := if ok then Copied n else Idle\<rparr>)"
proof -
  obtain a w r b ks js where ra: "ra_at q src dst r0 (xs @ ra_sent s) s a w r b ks js"
    using inv by (auto simp: ra_inv_def)
  note D = ra_atD [OF ra]
  have n: "r + unat n \<le> b" and tx: "tx = ring_tx q (load64 (rview s) (qrp q)) n" using D(6) ph by simp_all
  obtain m' where m': "copyFrom (sizeofT q) tx (rview s) (Some dst) 0 n = Some (True, m')"
    "elems m' dst (qz q) (unat n) = map (\<lambda>i. msg q m' (r + i)) [0..<unat n]"
    and old: "\<And>k. msg q m' k = msg q (rview s) k"
    and same: "load64 m' (qwp q) = load64 (rview s) (qwp q)" "load64 m' (qrp q) = load64 (rview s) (qrp q)"
    using copyFrom_step [OF s D(2) n] unfolding tx by blast
  have m: "m = m'" "ok" using c m'(1) by simp_all
  have "ra_at q src dst r0 (xs @ ra_sent s) (s\<lparr>rview := m, rphase := if ok then Copied n else Idle\<rparr>) a w r b ks js"
    using ra n m'(2) at_pos_cong [OF same] holds_cong [OF D(8) old] unfolding m ra_at_def by simp
  then show ?thesis by (rule ra_invI) simp
qed

lemma ra_commit_read_inv:
  assumes s: "spsc_setup q src dst" and inv: "ra_inv q src dst r0 xs s" and ph: "rphase s = Copied n"
    and j: "rseen s \<le> j" "j < length (wreleases s)" and m: "m = acquire_write q (wreleases s ! j) (rview s)"
    and c: "commitRead q m n = Some (ok, m')"
  shows "ra_inv q src dst r0 xs (s\<lparr>rview := m', rseen := j, rphase := Idle,
      rreleases := publish_read q m m' (rreleases s),
      ra_delivered := ra_delivered s @ (if ok then elems (rview s) dst (qz q) (unat n) else [])\<rparr>)"
proof -
  obtain a w r b ks js where ra: "ra_at q src dst r0 (xs @ ra_sent s) s a w r b ks js"
    using inv by (auto simp: ra_inv_def)
  note S = spsc_setupD [OF s] and D = ra_atD [OF ra] and O = ra_at_order [OF ra]
  note v = ra_acquire_write [OF s ra j m]
  let ?L = "xs @ ra_sent s" and ?r = "r + unat n" and ?out = "elems (rview s) dst (qz q) (unat n)"
  have n: "r + unat n \<le> b" and got: "?out = map (\<lambda>i. msg q (rview s) (r + i)) [0..<unat n]"
    using D(6) ph by simp_all
  have n': "?r \<le> js ! j" using n v(3) by simp
  have m': "m' = store64 m (qrp q) (load64 m (qrp q) + n * sizeofT q)" "ok"
    using c commitRead_store [OF s v(1)] by simp_all
  have pos: "at_pos q m' ?r (js ! j)" unfolding m' by (rule commitRead_pos [OF s v(1) n'])
  have slots: "msg q m' k = msg q m k" for k unfolding m' by (rule slot_store_counter [OF S(1,2)])
  have "?out = take (unat n) (drop (r - r0) ?L)"
  proof (rule nth_equalityI)
    show len: "length ?out = length (take (unat n) (drop (r - r0) ?L))"
      using n O D(10,11) by (simp add: got)
    fix i assume "i < length ?out"
    then have i: "i < unat n" by (simp add: got)
    then have "?out ! i = ?L ! (r + i - r0)" using D(8,11) n by (simp add: got holds_def)
    moreover have "r + i - r0 = (r - r0) + i" "(r - r0) + i < length ?L" using D(10,11) n i O by simp_all
    ultimately show "?out ! i = take (unat n) (drop (r - r0) ?L) ! i"
      using i by (simp del: take_append drop_append)
  qed
  then have out: "ra_delivered s @ ?out = take (?r - r0) ?L"
    using D(11,12) by (simp add: take_add [symmetric] del: take_append drop_append)
  have pub: "\<exists>ks'. published q (publish_read q m m' (rreleases s)) ks' (wseen s) a ?r"
  proof (cases "load64 m' (qrp q) = load64 m (qrp q)")
    case True
    then have "?r = r" using pos v(1) S(4) by (simp add: at_pos_def rdc_def)
    then show ?thesis using True D(3) by (auto simp: publish_read_def)
  next
    case False
    then show ?thesis
      using published_add [OF D(3), of "load64 m' (qrp q)" ?r] pos
      by (auto simp: publish_read_def at_pos_def rdc_def)
  qed
  then obtain ks' where pub: "published q (publish_read q m m' (rreleases s)) ks' (wseen s) a ?r" by blast
  have h: "holds q ?L r0 m' ?r (js ! j)"
    by (rule holds_mono [OF holds_cong [OF v(2) slots]]) simp_all
  have snaps: "holds q ?L r0 (snd (wreleases s ! i)) ?r (js ! i)" if "i < length (wreleases s)" for i
    by (rule holds_mono [OF D(9) [OF that]]) simp_all
  have "ra_at q src dst r0 ?L (s\<lparr>rview := m', rseen := j, rphase := Idle,
      rreleases := publish_read q m m' (rreleases s), ra_delivered := ra_delivered s @ ?out\<rparr>) a w ?r (js ! j) ks' js"
    using D(1,5,7,10,11) pos pub v(5) h snaps out unfolding ra_at_def by simp
  then show ?thesis by (rule ra_invI [THEN back_subst [of "ra_inv q src dst r0 xs"]]) (simp_all add: m'(2))
qed

lemma ra_step_inv:
  assumes "spsc_setup q src dst" and "ra_step q src dst s s'" and "ra_inv q src dst r0 xs s"
  shows "ra_inv q src dst r0 xs s'"
  using assms(2)
proof cases
  case ra_fill
  then show ?thesis using ra_fill_inv [OF assms(1,3)] by simp
next
  case ra_begin_write
  then show ?thesis using ra_begin_write_inv [OF assms(1,3)] by simp
next
  case ra_copy_to
  then show ?thesis using ra_copy_to_inv [OF assms(1,3)] by simp
next
  case ra_commit_write
  then show ?thesis using ra_commit_write_inv [OF assms(1,3)] by simp
next
  case ra_begin_read
  then show ?thesis using ra_begin_read_inv [OF assms(1,3)] by simp
next
  case ra_copy_from
  then show ?thesis using ra_copy_from_inv [OF assms(1,3)] by simp
next
  case ra_commit_read
  then show ?thesis using ra_commit_read_inv [OF assms(1,3)] by simp
qed

lemma ra_start_inv:
  assumes s: "spsc_setup q src dst" and f: "fifo_inv q m"
  shows "\<exists>r0. ra_inv q src dst r0 (contents q m) (ra_start q m)"
proof -
  note S = spsc_setupD [OF s]
  obtain r w where rw: "rdc q m = r * qz q" "wrc q m = w * qz q"
    using fifo_invD(4) [OF f] by (rule ring_inv_numbers)
  then have p: "at_pos q m r w"
    using fifo_invD(4) [OF f] ring_inv_iff [OF rw S(4,2)] by (simp add: at_pos_def)
  have c: "contents q m = map (msg q m) [r..<w]" by (rule at_pos_fifo(2) [OF s p])
  then have "holds q (contents q m) r m r w" "r + length (contents q m) = w"
    using p by (auto simp: holds_def at_pos_def diff_less_mono)
  then have "ra_at q src dst r (contents q m) (ra_start q m) r w r w [r] [w]"
    using p rw by (simp add: ra_at_def ra_start_def published_def rdc_def wrc_def)
  then have "ra_inv q src dst r (contents q m) (ra_start q m)" by (rule ra_invI) (simp add: ra_start_def)
  then show ?thesis by blast
qed

lemma ra_reach:
  assumes "spsc_setup q src dst" and "fifo_inv q m0" and "(ra_step q src dst)\<^sup>*\<^sup>* (ra_start q m0) s"
  obtains a w r b ks js r0 where "ra_at q src dst r0 (contents q m0 @ ra_sent s) s a w r b ks js"
proof -
  obtain r0 where "ra_inv q src dst r0 (contents q m0) (ra_start q m0)" using ra_start_inv [OF assms(1,2)] by blast
  with assms(3) have "ra_inv q src dst r0 (contents q m0) s"
    by (induction rule: rtranclp_induct) (auto intro: ra_step_inv [OF assms(1)])
  then show thesis using that by (auto simp: ra_inv_def)
qed

section \<open>What the two threads can rely on\<close>

text \<open>The situation of one thread on its view, as a state of the sequentially consistent machine.\<close>

definition writer_alone :: "ra \<Rightarrow> spsc" where
  "writer_alone s = \<lparr>smem = wview s, writer = wphase s, reader = Idle, sent = [], delivered = []\<rparr>"

definition reader_after :: "MessageQueue \<Rightarrow> ra \<Rightarrow> nat \<Rightarrow> spsc" where
  "reader_after q s j = \<lparr>smem = (case rphase s of Copied n \<Rightarrow> acquire_write q (wreleases s ! j) (rview s) | ph \<Rightarrow> rview s),
     writer = Idle, reader = rphase s, sent = [], delivered = []\<rparr>"

lemma alone_next:
  assumes s: "spsc_setup q src dst" and p: "at_pos q (smem st) r w"
    and "writer_ok q src (smem st) r w (writer st)" and "reader_ok q dst (smem st) r w (reader st)"
    and "sent st = []" and "delivered st = []"
  shows "next_succeeds q src dst st"
proof -
  have "spsc_inv q src dst (map (msg q (smem st)) [r..<w]) st"
    by (rule spsc_invI [of q _ r w]) (use assms in simp_all)
  then show ?thesis by (rule spsc_inv_next [OF s])
qed

lemma ra_next:
  assumes "spsc_setup q src dst" and "fifo_inv q m0" and "(ra_step q src dst)\<^sup>*\<^sup>* (ra_start q m0) s"
  shows "next_succeeds q src dst (writer_alone s)"
    "rseen s \<le> j \<Longrightarrow> j < length (wreleases s) \<Longrightarrow> next_succeeds q src dst (reader_after q s j)"
proof -
  obtain a w r b ks js r0 where ra: "ra_at q src dst r0 (contents q m0 @ ra_sent s) s a w r b ks js"
    by (rule ra_reach [OF assms])
  note D = ra_atD [OF ra]
  show "next_succeeds q src dst (writer_alone s)"
    by (rule alone_next [OF assms(1), of _ a w]) (use D(1,5) in \<open>simp_all add: writer_alone_def\<close>)
  show "next_succeeds q src dst (reader_after q s j)" if j: "rseen s \<le> j" "j < length (wreleases s)"
  proof (cases "rphase s")
    case (Copied n)
    note v = ra_acquire_write [OF assms(1) ra j refl]
    show ?thesis
      using commitRead_store [OF assms(1) v(1)] Copied beginWrite_eq [OF spsc_setupD(1) [OF assms(1)]]
      by (simp add: next_succeeds_def reader_after_def)
  qed (rule alone_next [OF assms(1), of _ r b], use D(2,6) in \<open>simp_all add: reader_after_def\<close>)+
qed

text \<open>
  C5. With the memory orders of the code, release and acquire, the synchronized queue is still a queue:
  whichever of the published counters the loads return, messages are delivered in the order sent, none lost,
  invented or damaged; what the reader sees unread are the next messages of the writer; and no call that was
  begun fails.
\<close>

theorem release_acquire_fifo:
  assumes "spsc_setup q src dst" and "fifo_inv q m0"
    and "(ra_step q src dst)\<^sup>*\<^sup>* (ra_start q m0) s"
  shows "(\<exists>unseen. contents q m0 @ ra_sent s = ra_delivered s @ contents q (rview s) @ unseen \<and>
      (rseen s = length (wreleases s) - 1 \<longrightarrow> unseen = [])) \<and>
    next_succeeds q src dst (writer_alone s) \<and>
    (\<forall>j. rseen s \<le> j \<and> j < length (wreleases s) \<longrightarrow> next_succeeds q src dst (reader_after q s j))"
proof -
  let ?L = "contents q m0 @ ra_sent s"
  obtain a w r b ks js r0 where ra: "ra_at q src dst r0 ?L s a w r b ks js" by (rule ra_reach [OF assms])
  note D = ra_atD [OF ra] and O = ra_at_order [OF ra]
  have "contents q (rview s) = take (b - r) (drop (r - r0) ?L)"
    using D(8,10,11) O at_pos_fifo(2) [OF assms(1) D(2)]
    by (intro nth_equalityI) (auto simp: holds_def simp del: take_append drop_append)
  then have c: "?L = ra_delivered s @ contents q (rview s) @ drop (b - r) (drop (r - r0) ?L)"
    using D(12) by (simp del: take_append drop_append append_assoc drop_drop)
  have "drop (b - r) (drop (r - r0) ?L) = []" if "rseen s = length (wreleases s) - 1"
  proof -
    have "length js = length (wreleases s)" using D(4) unfolding published_def by (metis length_map)
    moreover have "js \<noteq> []" using D(4) by (auto simp: published_def)
    ultimately have "b = w" using D(4) that by (simp add: published_def last_conv_nth)
    then show ?thesis using D(10) O by simp
  qed
  with c have "\<exists>unseen. ?L = ra_delivered s @ contents q (rview s) @ unseen \<and>
      (rseen s = length (wreleases s) - 1 \<longrightarrow> unseen = [])" by blast
  then show ?thesis using ra_next [OF assms] by blast
qed

text \<open>
  C6. The copies do not race: while the reader has a transaction open, each of its slots has the same bytes
  in its own view, in the writer's and in every view it may still acquire, and the slots of a transaction the
  writer has open do not overlap them. So it does not matter when the bytes of a copy become visible.
\<close>

theorem release_acquire_race_free:
  assumes "spsc_setup q src dst" and "fifo_inv q m0"
    and "(ra_step q src dst)\<^sup>*\<^sup>* (ra_start q m0) s"
    and "rphase s = Begun tx n" and "p \<in> set (tx_slots (sizeofT q) tx 0 n)"
  shows "rd_bytes (wview s) p (qz q) = rd_bytes (rview s) p (qz q) \<and>
    (\<forall>j. rseen s \<le> j \<and> j < length (wreleases s) \<longrightarrow>
      rd_bytes (snd (wreleases s ! j)) p (qz q) = rd_bytes (rview s) p (qz q)) \<and>
    (\<forall>tx' n'. wphase s = Begun tx' n' \<longrightarrow>
      (\<forall>p' \<in> set (tx_slots (sizeofT q) tx' 0 n'). sep p' (qz q) p (qz q)))"
proof -
  note S = spsc_setupD [OF assms(1)]
  obtain a w r b ks js r0 where ra: "ra_at q src dst r0 (contents q m0 @ ra_sent s) s a w r b ks js"
    by (rule ra_reach [OF assms(1-3)])
  note D = ra_atD [OF ra] and O = ra_at_order [OF ra]
  have n: "r + unat n \<le> b" and tx: "tx = ring_tx q (load64 (rview s) (qrp q)) n" using D(6) assms(4) by simp_all
  have al: "unat (load64 (rview s) (qrp q)) = r * qz q" "unat (load64 (wview s) (qwp q)) = w * qz q"
    using D(1,2) by (simp_all add: at_pos_def rdc_def wrc_def)
  have "unat n \<le> qcap q" using n O by simp
  then obtain i where i: "i < unat n" "p = ring_slot q (r + i)"
    using assms(5) ring_tx_slots [OF S(1,2) al(1)] by (auto simp: tx)
  have k: "r0 \<le> r + i" "a \<le> r + i" "r + i < b" "r + i < w" using D(11) O n i(1) by simp_all
  have here: "msg q (rview s) (r + i) = (contents q m0 @ ra_sent s) ! (r + i - r0)"
    using D(8) k unfolding holds_def by simp
  then have "rd_bytes (wview s) p (qz q) = rd_bytes (rview s) p (qz q)"
    using D(7) k i(2) unfolding holds_def by simp
  moreover have "rd_bytes (snd (wreleases s ! j)) p (qz q) = rd_bytes (rview s) p (qz q)"
    if j: "rseen s \<le> j" "j < length (wreleases s)" for j
    using D(9) [OF j(2)] ra_acquire_write(3) [OF assms(1) ra j refl] k here i(2) unfolding holds_def by simp
  moreover have "sep p' (qz q) p (qz q)"
    if wb: "wphase s = Begun tx' n'" "p' \<in> set (tx_slots (sizeofT q) tx' 0 n')" for tx' n' p'
  proof -
    have rm: "room_for q a w n'" and tx': "tx' = ring_tx q (load64 (wview s) (qwp q)) n'"
      using D(5) wb(1) by simp_all
    obtain i' where i': "i' < unat n'" "p' = ring_slot q (w + i')"
      using wb(2) ring_tx_slots [OF S(1,2) al(2) room_for_le [OF D(1) rm]] by (auto simp: tx')
    have lt: "r + i < w + i'" "w + i' - (r + i) < qcap q" using k i'(1) rm O by (auto simp: room_for_def)
    show ?thesis unfolding i'(2) i(2) by (rule slots_sep [OF mod_distinct [OF lt]])
  qed
  ultimately show ?thesis by blast
qed

end
