(* ===== verification/ReleaseAcquireExamples.thy ===== *)
theory ReleaseAcquireExamples
  imports ConcurrencyExamples QueueReleaseAcquire
begin

text \<open>
  Witnesses for the release-acquire machine: the writer sends a message that the reader, which has loaded the
  write counter before, does not see yet.
\<close>

abbreviation ex_ra :: "ra \<Rightarrow> ra \<Rightarrow> bool" where "ex_ra \<equiv> ra_step ex_sync ex_buf ex_dst"

abbreviation ex_ra_start :: ra where "ex_ra_start \<equiv> ra_start ex_sync (ex_mem 6 10)"

lemma ex_acquire: "acquire_read ex_sync (load64 (ex_mem 6 10) (qrp ex_sync)) (ex_mem 6 10) = ex_mem 6 10"
  "acquire_write ex_sync (load64 (ex_mem 6 10) (qwp ex_sync), ex_mem 6 10) (ex_mem 6 10) = ex_mem 6 10"
proof -
  have "(\<lambda>ob i. if in_range (qring ex_sync) (qS ex_sync) ob i then ex_mem 6 10 ob i else ex_mem 6 10 ob i) = ex_mem 6 10"
    by (simp add: fun_eq_iff)
  then show "acquire_read ex_sync (load64 (ex_mem 6 10) (qrp ex_sync)) (ex_mem 6 10) = ex_mem 6 10"
    "acquire_write ex_sync (load64 (ex_mem 6 10) (qwp ex_sync), ex_mem 6 10) (ex_mem 6 10) = ex_mem 6 10"
    by (simp_all only: acquire_read_def acquire_write_def fst_conv snd_conv store64_load64)
qed

lemma ex_ra_both_begun:
  "\<exists>s. ex_ra\<^sup>*\<^sup>* ex_ra_start s \<and> wphase s = Begun (ring_tx ex_sync 10 1) 1 \<and>
    rphase s = Begun (ring_tx ex_sync 6 2) 2 \<and> ra_sent s = [] \<and> ra_delivered s = [] \<and>
    rview s = ex_mem 6 10 \<and> rseen s = 0 \<and> length (wreleases s) = 1"
proof -
  let ?m = "ex_mem 6 10" and ?s0 = ex_ra_start
  let ?s1 = "?s0\<lparr>wview := ?m, wseen := 0, wphase := if True then Begun (ring_tx ex_sync 10 1) 1 else Idle\<rparr>"
  let ?s2 = "?s1\<lparr>rview := ?m, rseen := 0, rphase := if True then Begun (ring_tx ex_sync 6 2) 2 else Idle,
    rreleases := publish_read ex_sync ?m ?m (rreleases ?s1)\<rparr>"
  have "ex_ra ?s0 ?s1"
  proof (rule ra_begin_write)
    show "?m = acquire_read ex_sync (rreleases ?s0 ! 0) (wview ?s0)"
      using ex_acquire(1) by (simp add: ra_start_def)
    show "beginWrite ex_sync ?m 1 emptyMemTransaction = Some (True, ring_tx ex_sync 10 1)"
      by (simp add: ex_counters beginWrite_eq ex_wf freeBytes_def usedBytes_def ex_loads)
  qed (simp_all add: ra_start_def ex_counters)
  moreover have "ex_ra ?s1 ?s2"
  proof (rule ra_begin_read)
    show "?m = acquire_write ex_sync (wreleases ?s1 ! 0) (rview ?s1)"
      using ex_acquire(2) by (simp add: ra_start_def)
    show "beginRead ex_sync ?m 2 = Some (True, ring_tx ex_sync 6 2, ?m)"
      by (simp add: ex_counters beginRead_eq ex_wf ex_loads)
  qed (simp_all add: ra_start_def)
  ultimately have "ex_ra\<^sup>*\<^sup>* ?s0 ?s2" by (blast intro: rtranclp.intros)
  then show ?thesis by (intro exI [of _ ?s2]) (simp add: ra_start_def)
qed

lemma ex_ra_sent:
  "\<exists>s. ex_ra\<^sup>*\<^sup>* ex_ra_start s \<and> length (ra_sent s) = 1 \<and> ra_delivered s = [] \<and> rview s = ex_mem 6 10 \<and>
    rseen s = 0 \<and> length (wreleases s) = 2"
proof -
  note go = rtranclp.rtrancl_into_rtrancl [where r = ex_ra and a = ex_ra_start]
  note nxt = ra_next(1) [OF ex_setup ex_fifo_6_10, unfolded next_succeeds_def writer_alone_def]
  obtain s where s: "ex_ra\<^sup>*\<^sup>* ex_ra_start s" "wphase s = Begun (ring_tx ex_sync 10 1) 1" "ra_sent s = []"
    "ra_delivered s = []" "rview s = ex_mem 6 10" "rseen s = 0" "length (wreleases s) = 1"
    using ex_ra_both_begun by blast
  obtain m1 where m1: "copyTo (sizeofT ex_sync) (ring_tx ex_sync 10 1) (wview s) (Some ex_buf) 0 1 = Some (True, m1)"
    using conjunct1 [OF nxt [OF s(1)]] s(2) by auto
  obtain s1 where s1: "ex_ra\<^sup>*\<^sup>* ex_ra_start s1" "wphase s1 = Copied 1" "ra_sent s1 = []"
    "ra_delivered s1 = []" "rview s1 = ex_mem 6 10" "rseen s1 = 0" "length (wreleases s1) = 1"
    using go [OF s(1) ra_copy_to [OF s(2) m1]] s(3-7) by auto
  obtain m2 where m2: "commitWrite ex_sync (wview s1) 1 = Some (True, m2)"
    using conjunct1 [OF nxt [OF s1(1)]] s1(2) by auto
  show ?thesis
    using go [OF s1(1) ra_commit_write [OF s1(2) m2]] s1(3-7)
    by (intro exI [of _ "s1\<lparr>wview := m2, wphase := Idle, wreleases := wreleases s1 @ [(load64 m2 (qwp ex_sync), m2)],
      ra_sent := ra_sent s1 @ elems (wview s1) ex_buf (qz ex_sync) (unat (1 :: u64))\<rparr>"])
      (simp add: elems_def)
qed

theorem release_acquire_fifo_witness:
  "\<exists>s x unseen. ex_ra\<^sup>*\<^sup>* ex_ra_start s \<and> ra_sent s = [x] \<and> contents ex_sync (rview s) = [[1, 2], [3, 4]] \<and>
    contents ex_sync (rview s) @ unseen = [[1, 2], [3, 4]] @ ra_sent s \<and> unseen = [x]"
proof -
  obtain s where s: "ex_ra\<^sup>*\<^sup>* ex_ra_start s" "length (ra_sent s) = 1" "ra_delivered s = []"
    "rview s = ex_mem 6 10" using ex_ra_sent by blast
  then obtain x where x: "ra_sent s = [x]" by (auto simp: length_Suc_conv)
  obtain unseen where "[[1, 2], [3, 4]] @ ra_sent s = ra_delivered s @ contents ex_sync (rview s) @ unseen"
    using release_acquire_fifo [OF ex_setup ex_fifo_6_10 s(1)] by (auto simp: ex_contents)
  then show ?thesis using s x by (auto simp: ex_contents)
qed

theorem release_acquire_race_free_witness:
  "\<exists>s. ex_ra\<^sup>*\<^sup>* ex_ra_start s \<and> wphase s \<noteq> Idle \<and> rphase s \<noteq> Idle \<and>
    rd_bytes (wview s) (Ptr (Shm 0) 16) 2 = rd_bytes (rview s) (Ptr (Shm 0) 16) 2 \<and>
    sep (Ptr (Shm 0) 20) 2 (Ptr (Shm 0) 16) 2"
proof -
  obtain s where s: "ex_ra\<^sup>*\<^sup>* ex_ra_start s" "wphase s = Begun (ring_tx ex_sync 10 1) 1"
    "rphase s = Begun (ring_tx ex_sync 6 2) 2" using ex_ra_both_begun by blast
  have w: "tx_slots (sizeofT ex_sync) (ring_tx ex_sync 10 1) 0 1 =
      map (\<lambda>i. ring_slot ex_sync (5 + i)) [0..<unat (1 :: u64)]"
    by (rule ring_tx_slots [OF ex_wf]) simp_all
  have r: "tx_slots (sizeofT ex_sync) (ring_tx ex_sync 6 2) 0 2 =
      map (\<lambda>i. ring_slot ex_sync (3 + i)) [0..<unat (2 :: u64)]"
    by (rule ring_tx_slots [OF ex_wf]) simp_all
  have "Ptr (Shm 0) 16 \<in> set (tx_slots (sizeofT ex_sync) (ring_tx ex_sync 6 2) 0 2)"
    by (simp only: r) (simp add: ring_slot_def padd_def upt_rec)
  from release_acquire_race_free [OF ex_setup ex_fifo_6_10 s(1,3) this] s w
  have "rd_bytes (wview s) (Ptr (Shm 0) 16) 2 = rd_bytes (rview s) (Ptr (Shm 0) 16) 2 \<and>
    sep (Ptr (Shm 0) 20) 2 (Ptr (Shm 0) 16) 2"
    by (simp add: ring_slot_def padd_def upt_rec)
  then show ?thesis using s by auto
qed

end
