(* ===== verification/UnsyncReaders.thy ===== *)
theory UnsyncReaders
  imports UnsyncInterleaving
begin

text \<open>
  The unsynchronized flavor as it is meant: one writer and any number of readers at work at the same time.
  Each reader has a queue object of its own with a read counter of its own, and a buffer; all share the ring
  and the write counter. What one reader does is shown not to concern the others.
\<close>

section \<open>The writer and its readers\<close>

text \<open>The object of a reader: the constructor gives it a counter of its own.\<close>

definition reader_object :: "MessageQueue \<Rightarrow> ptr \<Rightarrow> MessageQueue" where
  "reader_object q p = q\<lparr>mReadPtr := Some p\<rparr>"

lemma reader_object_simps [simp]:
  "qwp (reader_object q p) = qwp q" "qring (reader_object q p) = qring q" "qrp (reader_object q p) = p"
  "sizeofT (reader_object q p) = sizeofT q" "flavor (reader_object q p) = flavor q"
  "qdesc (reader_object q p) = qdesc q" "qz (reader_object q p) = qz q" "qS (reader_object q p) = qS q"
  "qcap (reader_object q p) = qcap q" "ring_slot (reader_object q p) = ring_slot q"
  "wrc (reader_object q p) = wrc q"
  by (simp_all add: reader_object_def qwp_def qring_def qrp_def qdesc_def qz_def qS_def qcap_def
      ring_slot_def wrc_def fun_eq_iff)

lemma reader_object_ops [simp]:
  "ring_tx (reader_object q p) = ring_tx q" "commitWrite (reader_object q p) = commitWrite q"
  by (simp_all add: fun_eq_iff ring_tx_def contiguous_def commitWrite_def qdesc_def reader_object_def
      Let_def)

record broadcast =
  bmem :: mem
  bwriter :: phase
  breader :: "nat \<Rightarrow> phase"
  bsent :: "u8 list list"

inductive bc_step ::
  "MessageQueue \<Rightarrow> ptr \<Rightarrow> (nat \<Rightarrow> ptr) \<Rightarrow> (nat \<Rightarrow> ptr) \<Rightarrow> broadcast \<Rightarrow> broadcast \<Rightarrow> bool"
  for q src ctr dst where
  bc_fill: "bwriter s = Idle \<Longrightarrow> length bs \<le> qcap q * qz q \<Longrightarrow>
    bc_step q src ctr dst s (s\<lparr>bmem := wr_bytes (bmem s) src bs\<rparr>)"
| bc_begin_write: "bwriter s = Idle \<Longrightarrow> wrc q (bmem s) + unat n * qz q < 2 ^ 64 \<Longrightarrow>
    beginWrite q (bmem s) n emptyMemTransaction = Some (ok, tx) \<Longrightarrow>
    bc_step q src ctr dst s (s\<lparr>bwriter := if ok then Begun tx n else Idle\<rparr>)"
| bc_copy_to: "bwriter s = Begun tx n \<Longrightarrow>
    copyTo (sizeofT q) tx (bmem s) (Some src) 0 n = Some (ok, m) \<Longrightarrow>
    bc_step q src ctr dst s (s\<lparr>bmem := m, bwriter := if ok then Copied n else Idle\<rparr>)"
| bc_commit_write: "bwriter s = Copied n \<Longrightarrow> commitWrite q (bmem s) n = Some (ok, m) \<Longrightarrow>
    bc_step q src ctr dst s (s\<lparr>bmem := m, bwriter := Idle,
      bsent := bsent s @ (if ok then elems (bmem s) src (qz q) (unat n) else [])\<rparr>)"
| bc_begin_read: "breader s j = Idle \<Longrightarrow> unat n * qz q < 2 ^ 64 \<Longrightarrow>
    beginRead (reader_object q (ctr j)) (bmem s) n = Some (ok, tx, m) \<Longrightarrow>
    bc_step q src ctr dst s (s\<lparr>bmem := m, breader := (breader s)(j := if ok then Begun tx n else Idle)\<rparr>)"
| bc_copy_from: "breader s j = Begun tx n \<Longrightarrow>
    copyFrom (sizeofT q) tx (bmem s) (Some (dst j)) 0 n = Some (ok, m) \<Longrightarrow>
    bc_step q src ctr dst s (s\<lparr>bmem := m, breader := (breader s)(j := if ok then Copied n else Idle)\<rparr>)"
| bc_commit_read: "breader s j = Copied n \<Longrightarrow>
    commitRead (reader_object q (ctr j)) (bmem s) n = Some (ok, m) \<Longrightarrow>
    bc_step q src ctr dst s (s\<lparr>bmem := m, breader := (breader s)(j := Idle)\<rparr>)"

definition bc_start :: "mem \<Rightarrow> broadcast" where
  "bc_start m = \<lparr>bmem = m, bwriter = Idle, breader = (\<lambda>j. Idle), bsent = []\<rparr>"

text \<open>Every reader has its own counter and its own buffer.\<close>

definition bc_setup :: "MessageQueue \<Rightarrow> ptr \<Rightarrow> (nat \<Rightarrow> ptr) \<Rightarrow> (nat \<Rightarrow> ptr) \<Rightarrow> bool" where
  "bc_setup q src ctr dst \<longleftrightarrow> mq_wf q \<and> (\<forall>j. unsync_setup (reader_object q (ctr j)) src (dst j)) \<and>
     (\<forall>i j. i \<noteq> j \<longrightarrow> sep (ctr i) 8 (ctr j) 8 \<and> sep (ctr i) 8 (dst j) (qcap q * qz q) \<and>
        sep (dst i) (qcap q * qz q) (dst j) (qcap q * qz q))"

lemma bc_setupD:
  assumes "bc_setup q src ctr dst"
  shows "mq_wf q" "unsync_setup (reader_object q (ctr j)) src (dst j)"
    "i \<noteq> j \<Longrightarrow> sep (ctr i) 8 (ctr j) 8" "i \<noteq> j \<Longrightarrow> sep (ctr i) 8 (dst j) (qcap q * qz q)"
    "i \<noteq> j \<Longrightarrow> sep (dst i) (qcap q * qz q) (dst j) (qcap q * qz q)"
  using assms by (auto simp: bc_setup_def)

text \<open>The invariant: every reader is, with the writer, in a state of the two threads.\<close>

definition bc_pos :: "MessageQueue \<Rightarrow> ptr \<Rightarrow> (nat \<Rightarrow> ptr) \<Rightarrow> (nat \<Rightarrow> ptr) \<Rightarrow> u8 list list \<Rightarrow> broadcast \<Rightarrow> nat \<Rightarrow> bool" where
  "bc_pos q src ctr dst xs s j \<longleftrightarrow> (\<exists>r. unsync_pos (reader_object q (ctr j)) src (dst j) (xs @ bsent s) r
     (bmem s) (bwriter s) (breader s j))"

section \<open>A reader does not concern the others\<close>

definition only_reader :: "MessageQueue \<Rightarrow> ptr \<Rightarrow> ptr \<Rightarrow> mem \<Rightarrow> mem \<Rightarrow> bool" where
  "only_reader q c d m m' \<longleftrightarrow>
     (\<forall>ob x. \<not> in_range c 8 ob x \<and> \<not> in_range d (qcap q * qz q) ob x \<longrightarrow> m' ob x = m ob x)"

lemma only_reader_keeps:
  assumes "only_reader q c d m m'" and "sep c 8 p n" and "sep d (qcap q * qz q) p n"
  shows "rd_bytes m' p n = rd_bytes m p n"
  using assms unfolding only_reader_def
  by (intro rd_bytes_unchanged) (metis in_range_sep sep_commute)

lemma sep_shorter: "sep c k p n \<Longrightarrow> n' \<le> n \<Longrightarrow> sep c k p n'"
  by (auto simp: sep_def)

lemma pos_frame:
  assumes s: "bc_setup q src ctr dst" and ij: "i \<noteq> j" and o: "only_reader q (ctr i) (dst i) m m'"
    and p: "unsync_pos (reader_object q (ctr j)) src (dst j) h r m wph rph"
  shows "unsync_pos (reader_object q (ctr j)) src (dst j) h r m' wph rph"
proof -
  let ?q = "reader_object q (ctr j)" and ?N = "qcap q * qz q"
  note U = unsync_setupD [OF bc_setupD(2) [OF s], of i] and V = unsync_setupD [OF bc_setupD(2) [OF s], of j]
  note wi = mq_wf_sep [OF U(2), simplified]
  have di: "sep (dst i) ?N (qring q) (qS q)" "sep (dst i) ?N (qwp q) 8" "sep src ?N (ctr i) 8"
    using U(6,7) by (simp_all add: user_buf_def)
  note keep = only_reader_keeps [OF o]
  have wp: "load64 m' (qwp q) = load64 m (qwp q)"
    by (rule cell64.load_local, rule keep) (use wi di in \<open>simp_all add: sep_commute\<close>)
  have rp: "load64 m' (ctr j) = load64 m (ctr j)"
    by (rule cell64.load_local, rule keep) (use bc_setupD(3,4) [OF s] ij in \<open>simp_all add: sep_commute\<close>)
  have slot: "msg q m' k = msg q m k" for k
  proof (rule rd_bytes_unchanged)
    fix x assume "in_range (ring_slot q k) (qz q) (pobj (ring_slot q k)) x"
    then have r: "in_range (qring q) (qS q) (pobj (ring_slot q k)) x"
      using ring_slot_in_ring [OF U(2,3)] by simp
    show "m' (pobj (ring_slot q k)) x = m (pobj (ring_slot q k)) x"
      using o in_range_sep [OF wi(1) r] in_range_sep [OF _ r] di(1)
      by (simp add: only_reader_def sep_commute)
  qed
  have buf: "elems m' b (qz q) n = elems m b (qz q) n"
    if "sep (ctr i) 8 b ?N" "sep (dst i) ?N b ?N" "n \<le> qcap q" for b n
  proof (rule elems_cong, rule keep)
    have le: "n * qz q \<le> ?N" using that(3) by (rule mult_le_mono1)
    show "sep (ctr i) 8 b (n * qz q)" "sep (dst i) ?N b (n * qz q)"
      by (rule sep_shorter [OF that(1) le], rule sep_shorter [OF that(2) le])
  qed
  have "appender_ok ?q src m (length h) wph" using p by (simp add: unsync_pos_def)
  then have "appender_ok ?q src m' (length h) wph"
    by (rule appender_ok_cong)
      (use wp slot buf [of src] di two_endsD(7) [OF U(1)] in \<open>simp_all add: sep_commute\<close>)
  moreover have "follower_ok ?q (dst j) m h r (length h + pending wph) rph" using p by (simp add: unsync_pos_def)
  then have "follower_ok ?q (dst j) m' h r (length h + pending wph) rph"
    by (rule follower_ok_cong)
      (use rp buf [of "dst j"] bc_setupD(4,5) [OF s ij] in simp_all)
  ultimately show ?thesis
    using p wp rp by (simp add: unsync_pos_def rdc_def wrc_def ring_holds_def slot)
qed

section \<open>What a reader changes\<close>

lemma only_reader_same: "only_reader q c d m m"
  by (simp add: only_reader_def)

lemma only_reader_store: "only_reader q c d m (store64 m c v)"
  by (simp add: only_reader_def cell64.store_out)

lemma begin_read_only:
  assumes "mq_wf (reader_object q c)" and "beginRead (reader_object q c) m n = Some (ok, tx, m')"
  shows "only_reader q c d m m'"
  using assms(2) by (auto simp: beginRead_eq [OF assms(1)] only_reader_same only_reader_store split: if_splits)

lemma commit_read_only:
  assumes "mq_wf (reader_object q c)" and "commitRead (reader_object q c) m n = Some (ok, m')"
  shows "only_reader q c d m m'"
  using assms(2) by (auto simp: commitRead_eq [OF assms(1)] only_reader_store split: if_splits)

lemma copy_from_only:
  assumes s: "unsync_setup (reader_object q c) src d"
    and p: "unsync_pos (reader_object q c) src d h r m wph (Begun tx n)"
    and c: "copyFrom (sizeofT q) tx m (Some d) 0 n = Some (ok, m')"
  shows "only_reader q c d m m'"
proof -
  note S = unsync_setupD [OF s]
  from p have n: "unat n \<le> qcap q" and tx: "tx = ring_tx q (load64 m c) n"
    and al: "unat (load64 m c) = r * qz (reader_object q c)"
    by (auto simp: unsync_pos_def rdc_def)
  have nb: "unat n \<le> qcap (reader_object q c)" "user_buf (reader_object q c) d (unat n)"
    using user_buf_mono [OF S(7)] n by simp_all
  note ring = copyFrom_ring [OF S(2,3) al nb, where m = m, unfolded reader_object_simps reader_object_ops]
  obtain m1 where "copyFrom (sizeofT q) tx m (Some d) 0 n = Some (True, m1)"
    and "\<And>ob i. \<not> in_range d (unat n * qz q) ob i \<Longrightarrow> m1 ob i = m ob i"
    by (rule ring, rule that [unfolded tx])
  then show ?thesis using c n in_range_mono by (fastforce simp: only_reader_def)
qed

section \<open>Reachable states\<close>

definition bc_inv :: "MessageQueue \<Rightarrow> ptr \<Rightarrow> (nat \<Rightarrow> ptr) \<Rightarrow> (nat \<Rightarrow> ptr) \<Rightarrow> u8 list list \<Rightarrow> broadcast \<Rightarrow> bool" where
  "bc_inv q src ctr dst xs s \<longleftrightarrow> (\<forall>j. bc_pos q src ctr dst xs s j)"

lemma beginWrite_reader_object:
  assumes "mq_wf q" and "mq_wf (reader_object q c)" and "flavor q = kUnsynchronizedWrite"
  shows "beginWrite (reader_object q c) m n e = beginWrite q m n e"
  using assms by (simp add: beginWrite_eq)

text \<open>A step of reader \<open>j\<close>: its own position by the lemmas of the two threads, the others by the frame.\<close>

lemma bc_reader_step:
  assumes s: "bc_setup q src ctr dst" and inv: "bc_inv q src ctr dst xs st"
    and o: "only_reader q (ctr j) (dst j) (bmem st) m"
    and own: "\<exists>r. unsync_pos (reader_object q (ctr j)) src (dst j) (xs @ bsent st) r m (bwriter st) ph"
  shows "bc_inv q src ctr dst xs (st\<lparr>bmem := m, breader := (breader st)(j := ph)\<rparr>)"
  unfolding bc_inv_def bc_pos_def
proof (rule allI)
  fix i
  obtain r where r: "unsync_pos (reader_object q (ctr i)) src (dst i) (xs @ bsent st) r (bmem st)
      (bwriter st) (breader st i)"
    using inv by (auto simp: bc_inv_def bc_pos_def)
  show "\<exists>r. unsync_pos (reader_object q (ctr i)) src (dst i)
      (xs @ bsent (st\<lparr>bmem := m, breader := (breader st)(j := ph)\<rparr>)) r
      (bmem (st\<lparr>bmem := m, breader := (breader st)(j := ph)\<rparr>))
      (bwriter (st\<lparr>bmem := m, breader := (breader st)(j := ph)\<rparr>))
      (breader (st\<lparr>bmem := m, breader := (breader st)(j := ph)\<rparr>) i)"
  proof (cases "i = j")
    case True
    with own show ?thesis by simp
  next
    case False
    then show ?thesis using pos_frame [OF s _ o r] by auto
  qed
qed

lemma bc_step_inv:
  assumes s: "bc_setup q src ctr dst" and step: "bc_step q src ctr dst st st'"
    and inv: "bc_inv q src ctr dst xs st"
  shows "bc_inv q src ctr dst xs st'"
proof -
  note sj = bc_setupD(2) [OF s] and wj = unsync_setupD(2) [OF bc_setupD(2) [OF s]]
  have fl: "flavor q = kUnsynchronizedWrite" using unsync_setupD(5) [OF sj] by simp
  have pos: "\<exists>r. unsync_pos (reader_object q (ctr j)) src (dst j) (xs @ bsent st) r (bmem st)
      (bwriter st) (breader st j)" for j
    using inv by (simp add: bc_inv_def bc_pos_def)
  have wr: "bc_inv q src ctr dst xs (st\<lparr>bmem := m, bwriter := ph, bsent := bsent st @ h\<rparr>)"
    if "\<And>j r. unsync_pos (reader_object q (ctr j)) src (dst j) (xs @ bsent st) r (bmem st) (bwriter st)
        (breader st j) \<Longrightarrow> unsync_pos (reader_object q (ctr j)) src (dst j) ((xs @ bsent st) @ h) r m ph
        (breader st j)" for m ph h
    using pos that unfolding bc_inv_def bc_pos_def by fastforce
  from step show ?thesis
  proof cases
    case (bc_fill bs)
    then show ?thesis
      using wr [where m = "wr_bytes (bmem st) src bs" and ph = Idle and h = "[]"] pos_fill [OF sj, of _ _ _ _ _ bs]
      by (simp add: bc_inv_def bc_pos_def)
  next
    case (bc_begin_write n ok tx)
    then show ?thesis
      using wr [where m = "bmem st" and ph = "if ok then Begun tx n else Idle" and h = "[]"]
        pos_begin_write [OF sj, of _ _ _ _ _ n emptyMemTransaction ok tx]
      by (simp add: beginWrite_reader_object [OF bc_setupD(1) [OF s] wj fl])
  next
    case (bc_copy_to tx n ok m)
    have "ok \<and> unsync_pos (reader_object q (ctr j)) src (dst j) (xs @ bsent st) r m (Copied n) (breader st j)"
      if "unsync_pos (reader_object q (ctr j)) src (dst j) (xs @ bsent st) r (bmem st) (Begun tx n) (breader st j)"
      for j r
      using pos_copy_to [OF sj that] bc_copy_to(3) by auto
    then show ?thesis using wr [where m = m and ph = "Copied n" and h = "[]"] pos bc_copy_to by fastforce
  next
    case (bc_commit_write n ok m)
    then have "ok" "m = store64 (bmem st) (qwp q) (load64 (bmem st) (qwp q) + n * sizeofT q)"
      by (simp_all add: commitWrite_store [OF bc_setupD(1) [OF s]])
    then show ?thesis
      using wr [where m = m and ph = Idle and h = "elems (bmem st) src (qz q) (unat n)"] pos_commit_write [OF sj] bc_commit_write
      by (simp del: append_assoc)
  next
    case (bc_begin_read j n ok tx m)
    then obtain r where r: "unsync_pos (reader_object q (ctr j)) src (dst j) (xs @ bsent st) r (bmem st)
        (bwriter st) Idle" using pos [of j] by auto
    show ?thesis
      unfolding bc_begin_read(1)
      using pos_begin_read [OF sj r _ bc_begin_read(4)] bc_begin_read(3)
      by (intro bc_reader_step [OF s inv begin_read_only [OF wj bc_begin_read(4)]]) auto
  next
    case (bc_copy_from j tx n ok m)
    obtain r where r: "unsync_pos (reader_object q (ctr j)) src (dst j) (xs @ bsent st) r (bmem st)
        (bwriter st) (Begun tx n)" using pos [of j] bc_copy_from(2) by auto
    obtain m' where "copyFrom (sizeofT q) tx (bmem st) (Some (dst j)) 0 n = Some (True, m')"
      "unsync_pos (reader_object q (ctr j)) src (dst j) (xs @ bsent st) r m' (bwriter st) (Copied n)"
      using pos_copy_from [OF sj r] by auto
    then show ?thesis
      unfolding bc_copy_from(1) using bc_copy_from(3)
      by (intro bc_reader_step [OF s inv copy_from_only [OF sj r bc_copy_from(3)]]) auto
  next
    case (bc_commit_read j n ok m)
    then obtain r where r: "unsync_pos (reader_object q (ctr j)) src (dst j) (xs @ bsent st) r (bmem st)
        (bwriter st) (Copied n)" using pos [of j] by auto
    show ?thesis
      unfolding bc_commit_read(1)
      using pos_commit_read [OF sj r bc_commit_read(3)]
      by (intro bc_reader_step [OF s inv commit_read_only [OF wj bc_commit_read(3)]])
        (auto split: if_splits)
  qed
qed

lemma bc_reach_inv:
  assumes "(bc_step q src ctr dst)\<^sup>*\<^sup>* st st'" and "bc_setup q src ctr dst" and "bc_inv q src ctr dst xs st"
  shows "bc_inv q src ctr dst xs st'"
  using assms(1,3) by (induction rule: rtranclp_induct) (auto intro: bc_step_inv [OF assms(2)])

text \<open>Every read counter stands at a message of the log when the runs begin.\<close>

definition counters_in_log :: "MessageQueue \<Rightarrow> (nat \<Rightarrow> ptr) \<Rightarrow> mem \<Rightarrow> nat \<Rightarrow> bool" where
  "counters_in_log q ctr m l \<longleftrightarrow>
     (\<forall>j. \<exists>r \<le> l. rdc (reader_object q (ctr j)) m = r * qz q)"

lemma bc_start_inv:
  assumes "log_inv q m xs" and "counters_in_log q ctr m (length xs)"
  shows "bc_inv q src ctr dst xs (bc_start m)"
  using assms
  by (fastforce simp: bc_inv_def bc_pos_def bc_start_def unsync_pos_def counters_in_log_def log_inv_def
      ring_holds_def)

text \<open>
  C12. A writer of the unsynchronized flavor, which never waits, and any number of readers, their
  steps in any order: when \<open>commitRead\<close> confirms a read of reader \<open>j\<close>, the data in its buffer are
  the committed messages from its position on, unless the writer is between the copy and the commit
  of a batch that reaches around the ring into them; when it refuses, that reader goes on at the
  writer's position. The positions of all other readers stay as they were.
\<close>

theorem unsync_readers_concurrent:
  assumes "bc_setup q src ctr dst" and "log_inv q m0 xs" and "counters_in_log q ctr m0 (length xs)"
    and "(bc_step q src ctr dst)\<^sup>*\<^sup>* (bc_start m0) s"
    and "breader s j = Copied n" and "commitRead (reader_object q (ctr j)) (bmem s) n = Some (ok, m')"
  shows "\<exists>r. rdc (reader_object q (ctr j)) (bmem s) = r * qz q \<and> wrc q m' = length (xs @ bsent s) * qz q \<and>
    (if ok
     then rdc (reader_object q (ctr j)) m' = (r + unat n) * qz q \<and>
       (pending (bwriter s) = 0 \<or> length (xs @ bsent s) + pending (bwriter s) \<le> r + qcap q \<longrightarrow>
        elems (bmem s) (dst j) (qz q) (unat n) = take (unat n) (drop r (xs @ bsent s)))
     else rdc (reader_object q (ctr j)) m' = wrc q m') \<and>
    (\<forall>i. i \<noteq> j \<longrightarrow> rdc (reader_object q (ctr i)) m' = rdc (reader_object q (ctr i)) (bmem s))"
proof -
  let ?h = "xs @ bsent s" and ?q = "reader_object q (ctr j)"
  note sj = bc_setupD(2) [OF assms(1), of j]
  obtain r where p: "unsync_pos ?q src (dst j) ?h r (bmem s) (bwriter s) (Copied n)"
    using bc_reach_inv [OF assms(4,1) bc_start_inv [OF assms(2,3)]] assms(5)
    unfolding bc_inv_def bc_pos_def by metis
  note c = pos_commit_read [OF sj p assms(6)]
  from p have "rdc ?q (bmem s) = r * qz q"
    "length ?h + pending (bwriter s) \<le> r + qcap q \<Longrightarrow>
      elems (bmem s) (dst j) (qz q) (unat n) = take (unat n) (drop r ?h)"
    by (auto simp: unsync_pos_def)
  moreover from c have "wrc q m' = length ?h * qz q"
    "if ok then length ?h \<le> r + qcap q \<and> rdc ?q m' = (r + unat n) * qz q else rdc ?q m' = wrc q m'"
    by (auto simp: unsync_pos_def split: if_splits)
  moreover have "rdc (reader_object q (ctr i)) m' = rdc (reader_object q (ctr i)) (bmem s)"
    if "i \<noteq> j" for i
  proof -
    have "only_reader q (ctr j) (dst j) (bmem s) m'"
      by (rule commit_read_only [OF unsync_setupD(2) [OF sj] assms(6)])
    then have "rd_bytes m' (ctr i) 8 = rd_bytes (bmem s) (ctr i) 8"
      using bc_setupD(3,4) [OF assms(1)] that by (intro only_reader_keeps) (auto simp: sep_commute)
    then show ?thesis by (simp add: rdc_def load64_def)
  qed
  ultimately show ?thesis by (intro exI [of _ r]) (auto split: if_splits)
qed

end
