(* ===== verification/UnsyncReadersExamples.thy ===== *)
theory UnsyncReadersExamples
  imports ConcurrencyExamples UnsyncReaders
begin

text \<open>
  The witness for the readers of the unsynchronized flavor: reader 0 begins and copies a read of two
  messages; reader 1, five messages behind, is told so; then reader 0 commits.
\<close>

definition ex_ctr :: "nat \<Rightarrow> ptr" where
  "ex_ctr j = (if j = 0 then Ptr (Shm 0) 0 else Ptr (Heap (2 * j + 10)) 0)"

definition ex_dsts :: "nat \<Rightarrow> ptr" where
  "ex_dsts j = (if j = 0 then ex_dst else Ptr (Heap (2 * j + 11)) 0)"

lemma reader_object_0 [simp]: "reader_object ex_unsync (Ptr (Shm 0) 0) = ex_unsync"
  by (simp add: reader_object_def ex_q_def)

lemma ex_reader_wf: "mq_wf (reader_object ex_unsync (ex_ctr j))" "mq_whole (reader_object ex_unsync (ex_ctr j))"
  using ex_wf(1) [of kUnsynchronizedWrite]
  by (simp_all add: mq_wf_def mq_whole_def isValid_def sep_def ex_ctr_def)
    (simp_all add: reader_object_def ex_q_def)

lemma ex_bc_setup: "bc_setup ex_unsync ex_buf ex_ctr ex_dsts"
proof -
  have "2 * j + 10 \<noteq> Suc (2 * i + 10)" "2 * j \<noteq> Suc (2 * i)" for i j :: nat by presburger+
  then show ?thesis
    unfolding bc_setup_def unsync_setup_def two_ends_def user_buf_def
    by (simp add: ex_wf ex_reader_wf)
      (auto simp: sep_def ex_ctr_def ex_dsts_def ex_dst_def ex_buf_def)
qed

lemma ex_counters_in_log: "counters_in_log ex_unsync ex_ctr (ex_mem 6 10) (length ex_log)"
proof -
  have "load64 (ex_mem 6 10) (Ptr (Heap (2 * j + 10)) 0) = 0" for j
    by (simp add: load64_def rd_bytes_def ex_mem_def wr_bytes_def ex_buf_def upt_rec)
  then show ?thesis
    by (auto simp: counters_in_log_def ex_ctr_def rdc_def ex_loads ex_log_def intro: exI [of _ 3] exI [of _ 0])
qed

lemma ex_reader_1_behind:
  assumes "load64 m (Ptr (Shm 0) 8) = 10" and "load64 m (Ptr (Heap 12) 0) = 0"
  shows "beginRead (reader_object ex_unsync (ex_ctr 1)) m 1 =
    Some (False, emptyMemTransaction, store64 m (Ptr (Heap 12) 0) 10)"
  using assms by (simp add: beginRead_eq ex_reader_wf rdc_def wrc_def) (simp add: ex_ctr_def)

lemma ex_readers_overlap:
  "\<exists>s m'. (bc_step ex_unsync ex_buf ex_ctr ex_dsts)\<^sup>*\<^sup>* (bc_start (ex_mem 6 10)) s \<and>
    bwriter s = Idle \<and> breader s 0 = Copied 2 \<and> breader s 1 = Idle \<and> bsent s = [] \<and>
    rdc ex_unsync (bmem s) = 6 \<and> rdc (reader_object ex_unsync (ex_ctr 1)) (bmem s) = 10 \<and>
    commitRead ex_unsync (bmem s) 2 = Some (True, m')"
proof -
  let ?R = "bc_step ex_unsync ex_buf ex_ctr ex_dsts" and ?s0 = "bc_start (ex_mem 6 10)"
  let ?tx = "ring_tx ex_unsync 6 2" and ?c = "Ptr (Heap 12) 0"
  have "?R ?s0 (?s0\<lparr>bmem := ex_mem 6 10, breader := (breader ?s0)(0 := if True then Begun ?tx 2 else Idle)\<rparr>)"
    by (rule bc_begin_read)
      (simp_all add: bc_start_def ex_ctr_def ex_counters beginRead_eq ex_wf ex_loads)
  then obtain s1 where s1: "?R ?s0 s1" "breader s1 0 = Begun ?tx 2" "breader s1 1 = Idle"
    "bmem s1 = ex_mem 6 10" "bwriter s1 = Idle" "bsent s1 = []" by (simp add: bc_start_def)
  obtain m where m: "copyFrom (sizeofT ex_unsync) ?tx (ex_mem 6 10) (Some ex_dst) 0 2 = Some (True, m)"
    "\<And>ob i. \<not> in_range ex_dst 4 ob i \<Longrightarrow> m ob i = ex_mem 6 10 ob i"
    by (rule copyFrom_ring [where q = ex_unsync and pos = 6 and r = 3 and n = 2 and d = ex_dst
      and m = "ex_mem 6 10"], use that in \<open>simp_all add: ex_wf user_buf_def sep_def ex_dst_def\<close>)
  have out: "load64 m p = load64 (ex_mem 6 10) p" if "pobj p \<noteq> Heap 1" for p
    using that m(2) by (auto simp: load64_def rd_bytes_def in_range_def ex_dst_def)
  obtain s2 where s2: "?R s1 s2" "breader s2 0 = Copied 2" "breader s2 1 = Idle" "bmem s2 = m"
    "bwriter s2 = Idle" "bsent s2 = []"
    using bc_copy_from [of s1 0 ?tx 2 ex_unsync ex_dsts True m ex_buf ex_ctr] m(1) s1
    by (intro that [of "s1\<lparr>bmem := m, breader := (breader s1)(0 := Copied 2)\<rparr>"])
      (simp_all add: ex_dsts_def)
  have z: "load64 (ex_mem 6 10) ?c = 0"
    by (simp add: load64_def rd_bytes_def ex_mem_def wr_bytes_def ex_buf_def upt_rec)
  have late: "beginRead (reader_object ex_unsync (ex_ctr 1)) (bmem s2) 1 =
      Some (False, emptyMemTransaction, store64 m ?c 10)"
    unfolding s2(4) by (rule ex_reader_1_behind) (simp_all add: out ex_loads z)
  have "?R s2 (s2\<lparr>bmem := store64 m ?c 10, breader := (breader s2)(1 := if False then Begun emptyMemTransaction 1 else Idle)\<rparr>)"
    by (rule bc_begin_read, rule s2(3), simp, rule late)
  then obtain s3 where s3: "?R s2 s3" "breader s3 0 = Copied 2" "breader s3 1 = Idle"
    "bmem s3 = store64 m ?c 10" "bwriter s3 = Idle" "bsent s3 = []"
    using s2 by simp
  have ld: "load64 (store64 m ?c 10) (Ptr (Shm 0) k) = load64 (ex_mem 6 10) (Ptr (Shm 0) k)" for k
    by (simp add: cell64.load_store_sep sep_def out)
  have "?R\<^sup>*\<^sup>* ?s0 s3" using s1(1) s2(1) s3(1) by (blast intro: rtranclp.intros)
  moreover have "\<exists>m'. commitRead ex_unsync (bmem s3) 2 = Some (True, m')"
    by (simp add: s3(4) commitRead_eq ex_wf ld ex_loads)
  moreover have "rdc ex_unsync (bmem s3) = 6" by (simp add: s3(4) rdc_def ld ex_loads)
  moreover have "rdc (reader_object ex_unsync (ex_ctr 1)) (bmem s3) = 10"
    by (simp add: s3(4) rdc_def ex_ctr_def cell64.load_store_same)
  ultimately show ?thesis using s3(2,3,5,6) by blast
qed

theorem unsync_readers_concurrent_witness:
  "\<exists>s m'. (bc_step ex_unsync ex_buf ex_ctr ex_dsts)\<^sup>*\<^sup>* (bc_start (ex_mem 6 10)) s \<and>
    commitRead ex_unsync (bmem s) 2 = Some (True, m') \<and> elems (bmem s) ex_dst 2 2 = [[1, 2], [3, 4]] \<and>
    rdc ex_unsync m' = 10 \<and> rdc (reader_object ex_unsync (ex_ctr 1)) m' = 10"
proof -
  obtain s m' where s: "(bc_step ex_unsync ex_buf ex_ctr ex_dsts)\<^sup>*\<^sup>* (bc_start (ex_mem 6 10)) s"
    "bwriter s = Idle" "breader s 0 = Copied 2" "bsent s = []" "rdc ex_unsync (bmem s) = 6"
    "rdc (reader_object ex_unsync (ex_ctr 1)) (bmem s) = 10"
    "commitRead ex_unsync (bmem s) 2 = Some (True, m')" using ex_readers_overlap by blast
  have q0: "reader_object ex_unsync (ex_ctr 0) = ex_unsync" by (simp add: ex_ctr_def)
  have "elems (bmem s) ex_dst 2 2 = [[1, 2], [3, 4]] \<and> rdc ex_unsync m' = 10 \<and>
      rdc (reader_object ex_unsync (ex_ctr 1)) m' = 10"
    using unsync_readers_concurrent [OF ex_bc_setup ex_log_inv ex_counters_in_log s(1,3), unfolded q0, OF s(7)]
      s(2,4,5,6)
    by (auto simp: ex_log_def ex_dsts_def)
  with s(1,7) show ?thesis by blast
qed

end
