(* ===== verification/EventFlagThreads.thy ===== *)
theory EventFlagThreads
  imports EventFlag
begin

unbundle bit_operations_syntax

text \<open>
  Any number of threads that call \<open>wake\<close> and \<open>wait\<close> on the same event flag word. The atomic
  accesses and the system calls of EventFlag.cpp are the steps; between two steps of a thread the
  others run. The kernel's part is the documented one of \<open>FUTEX_WAIT_BITSET\<close> and
  \<open>FUTEX_WAKE_BITSET\<close>: comparing the word and going to sleep is one step, and a wake-up reaches
  every sleeping thread whose mask has a bit in common. A sleep may also end by an error
  (time-out, signal) or for no reason.
\<close>

section \<open>The threads\<close>

text \<open>
  Where a thread is: outside the calls; in \<open>wake\<close> before the system call; in \<open>waitHelper\<close> before the
  system call, asleep in it, or after it has returned 0.
\<close>

datatype ef_phase =
    Outside
  | Waking u32
  | Entering u32 u32
  | Asleep u32
  | Awake u32

text \<open>
  \<open>given\<close> are the bits that calls of \<open>wake\<close> have set, \<open>taken\<close> the ones calls of \<open>wait\<close> have found and
  cleared, with the thread.
\<close>

record ef_state =
  emem :: mem
  thread :: "nat \<Rightarrow> ef_phase"
  given :: "(nat \<times> u32) list"
  taken :: "(nat \<times> u32) list"

fun wake_up :: "u32 \<Rightarrow> ef_phase \<Rightarrow> ef_phase" where
  "wake_up bitmask (Asleep b) = (if b AND bitmask \<noteq> 0 then Awake b else Asleep b)"
| "wake_up bitmask ph = ph"

inductive ef_step :: "ptr \<Rightarrow> nat \<Rightarrow> ef_state \<Rightarrow> ef_state \<Rightarrow> bool" for p where
  wake_or: "thread s t = Outside \<Longrightarrow> bitmask \<noteq> 0 \<Longrightarrow>
    atomic_fetch_or (emem s) (Some p) bitmask = Some (old, m) \<Longrightarrow>
    ef_step p t s (s\<lparr>emem := m, given := (t, NOT old AND bitmask) # given s,
      thread := (thread s)(t := if NOT old AND bitmask \<noteq> 0 then Waking bitmask else Outside)\<rparr>)"
| wake_futex: "thread s t = Waking bitmask \<Longrightarrow>
    ef_step p t s (s\<lparr>thread := (\<lambda>u. wake_up bitmask (thread s u))(t := Outside)\<rparr>)"
| wait_and: "thread s t = Outside \<Longrightarrow> bitmask \<noteq> 0 \<Longrightarrow>
    atomic_fetch_and (emem s) (Some p) (NOT bitmask) = Some (old, m) \<Longrightarrow>
    ef_step p t s (s\<lparr>emem := m, taken := (t, old AND bitmask) # taken s,
      thread := (thread s)(t := if old AND bitmask \<noteq> 0 then Outside
        else Entering bitmask (old AND NOT bitmask))\<rparr>)"
| wait_futex: "thread s t = Entering bitmask efWord \<Longrightarrow>
    ef_step p t s (s\<lparr>thread := (thread s)(t := if load32 (emem s) p = efWord then Asleep bitmask else Outside)\<rparr>)"
| wait_error: "thread s t = Entering bitmask efWord \<or> thread s t = Asleep bitmask \<Longrightarrow>
    ef_step p t s (s\<lparr>thread := (thread s)(t := Outside)\<rparr>)"
| wait_spurious: "thread s t = Asleep bitmask \<Longrightarrow>
    ef_step p t s (s\<lparr>thread := (thread s)(t := Awake bitmask)\<rparr>)"
| wait_awake: "thread s t = Awake bitmask \<Longrightarrow>
    atomic_fetch_and (emem s) (Some p) (NOT bitmask) = Some (old, m) \<Longrightarrow>
    ef_step p t s (s\<lparr>emem := m, taken := (t, old AND bitmask) # taken s, thread := (thread s)(t := Outside)\<rparr>)"

definition ef_start :: "mem \<Rightarrow> ef_state" where
  "ef_start m = \<lparr>emem = m, thread = (\<lambda>_. Outside), given = [], taken = []\<rparr>"

inductive_cases ef_stepE: "ef_step p t s s'"

abbreviation ef_run :: "ptr \<Rightarrow> ef_state \<Rightarrow> ef_state \<Rightarrow> bool" where
  "ef_run p \<equiv> (\<lambda>s s'. \<exists>t. ef_step p t s s')\<^sup>*\<^sup>*"

section \<open>No wake-up is lost\<close>

text \<open>
  For each bit: a sleeping thread that asks for a bit that is set is announced, since a waker of the
  bit has still to make its system call; and a thread about to sleep expects none of its bits.
\<close>

definition announced :: "ptr \<Rightarrow> ef_state \<Rightarrow> nat \<Rightarrow> bool" where
  "announced p s k \<longleftrightarrow>
     (\<forall>t b w. thread s t = Entering b w \<longrightarrow> \<not> (bit w k \<and> bit b k)) \<and>
     (\<forall>t b. thread s t = Asleep b \<longrightarrow> bit b k \<longrightarrow> bit (load32 (emem s) p) k \<longrightarrow>
       (\<exists>u c. thread s u = Waking c \<and> bit c k))"

definition bits_set :: "(nat \<times> u32) list \<Rightarrow> nat \<Rightarrow> nat" where
  "bits_set ws k = length (filter (\<lambda>(t, w). bit w k) ws)"

definition balanced :: "ptr \<Rightarrow> mem \<Rightarrow> ef_state \<Rightarrow> nat \<Rightarrow> bool" where
  "balanced p m0 s k \<longleftrightarrow> of_bool (bit (load32 m0 p) k) + bits_set (given s) k =
     of_bool (bit (load32 (emem s) p) k) + bits_set (taken s) k"

lemma bits_set_simps [simp]:
  "bits_set [] k = 0" "bits_set ((t, w) # ws) k = of_bool (bit w k) + bits_set ws k"
  by (simp_all add: bits_set_def)

lemma fetch_or_word:
  assumes "atomic_fetch_or m (Some p) b = Some (old, m')"
  shows "old = load32 m p" "load32 m' p = old OR b"
  using assms by (auto simp: atomic_fetch_or_def cell32.load_store_same)

lemma fetch_and_word:
  assumes "atomic_fetch_and m (Some p) b = Some (old, m')"
  shows "old = load32 m p" "load32 m' p = old AND b"
  using assms by (auto simp: atomic_fetch_and_def cell32.load_store_same)

lemma u32_bit_less: "bit (w :: u32) k \<Longrightarrow> k < 32"
  using bit_imp_le_length [of w k] by simp

lemma wake_up_cases:
  "wake_up b ph = Asleep c \<longleftrightarrow> ph = Asleep c \<and> c AND b = 0"
  "wake_up b ph = Waking c \<longleftrightarrow> ph = Waking c"
  "wake_up b ph = Entering c w \<longleftrightarrow> ph = Entering c w"
  by (cases ph; auto)+

lemma no_common_bit: "w AND b = 0 \<Longrightarrow> bit w k \<Longrightarrow> \<not> bit b k" for w b :: u32
  by (metis bit_and_iff bit_0_eq bot_apply bot_bool_def)

lemma announcedD:
  "announced p s k \<Longrightarrow> thread s t = Asleep b \<Longrightarrow> bit b k \<Longrightarrow> bit (load32 (emem s) p) k \<Longrightarrow>
    \<exists>u c. thread s u = Waking c \<and> bit c k"
  unfolding announced_def by blast

text \<open>A step of a thread that is not in \<open>wake\<close> and sets no bit leaves the others announced.\<close>

lemma announced_other:
  assumes inv: "announced p s k" and s': "thread s' = (thread s)(t := ph)"
    and t: "\<And>c. thread s t \<noteq> Waking c"
    and word: "bit (load32 (emem s') p) k \<Longrightarrow> bit (load32 (emem s) p) k"
    and sleeps: "\<And>b. ph = Asleep b \<Longrightarrow> bit b k \<Longrightarrow> \<not> bit (load32 (emem s') p) k"
    and enters: "\<And>b w. ph = Entering b w \<Longrightarrow> \<not> (bit w k \<and> bit b k)"
  shows "announced p s' k"
proof -
  have "\<exists>u c. thread s' u = Waking c \<and> bit c k"
    if v: "thread s' v = Asleep b" "bit b k" "bit (load32 (emem s') p) k" for v b
  proof -
    have "v \<noteq> t" using v sleeps [of b] by (auto simp: s')
    then have "thread s v = Asleep b" using v(1) by (simp add: s')
    then obtain u c where "thread s u = Waking c" "bit c k"
      using announcedD [OF inv _ v(2) word [OF v(3)]] by blast
    then show ?thesis using t by (intro exI [of _ u] exI [of _ c]) (auto simp: s')
  qed
  moreover have "\<not> (bit w k \<and> bit b k)" if "thread s' v = Entering b w" for v b w
    using that inv enters by (cases "v = t") (auto simp: s' announced_def)
  ultimately show ?thesis by (auto simp: announced_def)
qed

lemma announced_step:
  assumes "ef_step p t s s'" and inv: "announced p s k"
  shows "announced p s' k"
  using assms(1)
proof cases
  case (wake_or b old m)
  note w = fetch_or_word [OF wake_or(4)]
  show ?thesis
  proof (cases "bit (NOT old AND b) k")
    case True
    then have "NOT old AND b \<noteq> 0" "bit b k" by (auto simp: bit_and_iff dest: no_common_bit)
    then show ?thesis using wake_or(1,2) inv by (auto simp: announced_def)
  next
    case False
    then have "bit (load32 m p) k = bit (load32 (emem s) p) k"
      using w by (auto simp: bit_or_iff bit_and_iff bit_not_iff dest: u32_bit_less)
    then show ?thesis using wake_or(1,2)
      by (intro announced_other [OF inv, of s' t "thread s' t"]) (simp_all split: if_splits)
  qed
next
  case (wake_futex c)
  have "\<exists>u d. thread s' u = Waking d \<and> bit d k"
    if v: "thread s' v = Asleep b" "bit b k" "bit (load32 (emem s') p) k" for v b
  proof -
    have b: "thread s v = Asleep b" "b AND c = 0"
      using v(1) wake_futex(1) by (auto simp: wake_up_cases split: if_splits)
    then obtain u d where u: "thread s u = Waking d" "bit d k"
      using announcedD [OF inv b(1) v(2)] v(3) wake_futex(1) by auto
    have "\<not> bit c k" using no_common_bit [OF b(2) v(2)] .
    then have "u \<noteq> t" using u wake_futex(2) by auto
    then show ?thesis using u wake_futex(1) by (intro exI [of _ u] exI [of _ d]) simp
  qed
  moreover have "\<not> (bit w k \<and> bit b k)" if "thread s' v = Entering b w" for v b w
    using that inv wake_futex(1) by (auto simp: announced_def wake_up_cases split: if_splits)
  ultimately show ?thesis by (auto simp: announced_def)
next
  case (wait_and b old m)
  then show ?thesis using fetch_and_word [OF wait_and(4)]
    by (intro announced_other [OF inv, of s' t "thread s' t"])
      (auto simp: bit_and_iff bit_not_iff split: if_splits)
next
  case (wait_futex b w)
  then show ?thesis using inv
    by (intro announced_other [OF inv, of s' t "thread s' t"]) (auto simp: announced_def split: if_splits)
next
  case (wait_error b w)
  then show ?thesis by (intro announced_other [OF inv, of s' t "thread s' t"]) auto
next
  case (wait_spurious b)
  then show ?thesis by (intro announced_other [OF inv, of s' t "thread s' t"]) auto
next
  case (wait_awake b old m)
  then show ?thesis using fetch_and_word [OF wait_awake(3)]
    by (intro announced_other [OF inv, of s' t "thread s' t"]) (auto simp: bit_and_iff)
qed

lemma balanced_step:
  assumes "ef_step p t s s'" and inv: "balanced p m0 s k"
  shows "balanced p m0 s' k"
  using assms(1)
proof cases
  case (wake_or b old m)
  have "of_bool (bit (old OR b) k) = (of_bool (bit old k) + of_bool (bit (NOT old AND b) k) :: nat)"
    by (auto simp: bit_or_iff bit_and_iff bit_not_iff dest: u32_bit_less)
  then show ?thesis using inv wake_or(1) fetch_or_word [OF wake_or(4)] by (simp add: balanced_def)
next
  case (wait_and b old m)
  have "(of_bool (bit old k) :: nat) = of_bool (bit (old AND NOT b) k) + of_bool (bit (old AND b) k)"
    by (auto simp: bit_and_iff bit_not_iff dest: u32_bit_less)
  then show ?thesis using inv wait_and(1) fetch_and_word [OF wait_and(4)] by (simp add: balanced_def)
next
  case (wait_awake b old m)
  have "(of_bool (bit old k) :: nat) = of_bool (bit (old AND NOT b) k) + of_bool (bit (old AND b) k)"
    by (auto simp: bit_and_iff bit_not_iff dest: u32_bit_less)
  then show ?thesis using inv wait_awake(1) fetch_and_word [OF wait_awake(3)] by (simp add: balanced_def)
qed (use inv in \<open>simp_all add: balanced_def\<close>)

lemma ef_reach_inv:
  assumes "ef_run p (ef_start m0) s"
  shows "announced p s k" "balanced p m0 s k"
proof -
  have "announced p (ef_start m0) k" "balanced p m0 (ef_start m0) k"
    by (simp_all add: ef_start_def announced_def balanced_def)
  with assms have "announced p s k \<and> balanced p m0 s k"
    by (induction rule: rtranclp_induct) (auto intro: announced_step balanced_step)
  then show "announced p s k" "balanced p m0 s k" by simp_all
qed

text \<open>
  C21. No wake-up is lost: whenever a thread sleeps although a bit it waits for is set, some thread
  stands between its \<open>fetch_or\<close> and its system call in \<open>wake\<close>, and that call wakes the sleeper. So
  the flag that every call of \<open>wake\<close> finds already set need not be announced again.
\<close>

theorem no_wake_up_lost:
  assumes "ef_run p (ef_start m0) s" and "thread s t = Asleep b"
    and "load32 (emem s) p AND b \<noteq> 0"
  shows "\<exists>u c s'. thread s u = Waking c \<and> c AND b \<noteq> 0 \<and> ef_step p u s s' \<and>
    thread s' u = Outside \<and> thread s' t = Awake b \<and> emem s' = emem s"
proof -
  obtain k where k: "bit (load32 (emem s) p) k" "bit b k"
    using assms(3) by (auto simp: bit_eq_iff bit_and_iff)
  then obtain u c where u: "thread s u = Waking c" "bit c k"
    using announcedD [OF ef_reach_inv(1) [OF assms(1)] assms(2) k(2,1)] by blast
  have "c AND b \<noteq> 0" "b AND c \<noteq> 0" using no_common_bit u(2) k(2) by blast+
  then show ?thesis using wake_futex [OF u(1), of p] u(1) assms(2)
    by (intro exI [of _ u] exI [of _ c]) force
qed

text \<open>
  C22. Every bit that a call of \<open>wake\<close> sets is reported by exactly one call of \<open>wait\<close>, whatever the
  interleaving: for each bit, what was set at the start and what the calls have set since is what
  the waits have reported and what is set now.
\<close>

theorem bits_reported_once:
  assumes "ef_run p (ef_start m0) s"
  shows "of_bool (bit (load32 m0 p) k) + bits_set (given s) k =
    of_bool (bit (load32 (emem s) p) k) + bits_set (taken s) k"
  using ef_reach_inv(2) [OF assms] by (simp add: balanced_def)

end
