(* ===== verification/EventFlagCalls.thy ===== *)
theory EventFlagCalls
  imports EventFlagThreads
begin

unbundle bit_operations_syntax

text \<open>
  The functions \<open>wake\<close> and \<open>wait\<close> of EventFlag.thy are sequences of the steps of one thread, with
  steps of the other threads at the system calls. So what is proved of all interleavings of the
  steps holds of the functions, on every system whose other threads do what the steps allow.
\<close>

section \<open>A system with other threads\<close>

definition few_active :: "ef_state \<Rightarrow> bool" where
  "few_active s \<longleftrightarrow> finite {u. thread s u \<noteq> Outside}"

definition still_at :: "ef_phase \<Rightarrow> ef_phase \<Rightarrow> bool" where
  "still_at ph ph' \<longleftrightarrow> ph' = ph \<or> (\<exists>b. ph = Asleep b \<and> ph' = Awake b)"

text \<open>
  What the others do while thread \<open>t\<close> is in a system call: steps of theirs, which leave \<open>t\<close> where it
  is or wake it, and which make of the memory what the system says.
\<close>

definition others :: "ptr \<Rightarrow> os \<Rightarrow> nat \<Rightarrow> ef_state \<Rightarrow> ef_state \<Rightarrow> bool" where
  "others p os t s s' \<longleftrightarrow> (\<lambda>a b. \<exists>u. u \<noteq> t \<and> ef_step p u a b)\<^sup>*\<^sup>* s s' \<and>
     (\<exists>h. emem s' = os_run os h (emem s)) \<and> still_at (thread s t) (thread s' t)"

definition others_step :: "ptr \<Rightarrow> os \<Rightarrow> nat \<Rightarrow> bool" where
  "others_step p os t \<longleftrightarrow> (\<forall>h s. few_active s \<longrightarrow>
     (\<exists>s'. others p os t s s' \<and> emem s' = os_run os h (emem s)))"

text \<open>The kernel puts nobody to sleep when the word is not the expected one.\<close>

definition kernel_compares :: "os \<Rightarrow> bool" where
  "kernel_compares os \<longleftrightarrow>
     (\<forall>h m p val l b. os_futexWait os h m p val l b = None \<longrightarrow> load32 m p = val)"

definition call_step :: "ptr \<Rightarrow> os \<Rightarrow> nat \<Rightarrow> ef_state \<Rightarrow> ef_state \<Rightarrow> bool" where
  "call_step p os t s s' \<longleftrightarrow> ef_step p t s s' \<or> others p os t s s'"

text \<open>The bits that a thread has found, empty results left out, newest first.\<close>

definition reports :: "nat \<Rightarrow> ef_state \<Rightarrow> u32 list" where
  "reports t s = map snd (filter (\<lambda>(u, b). u = t \<and> b \<noteq> 0) (taken s))"

text \<open>The bits that calls of \<open>wake\<close> of a thread have set, one entry for each call, newest first.\<close>

definition gifts :: "nat \<Rightarrow> ef_state \<Rightarrow> u32 list" where
  "gifts t s = map snd (filter (\<lambda>(u, b). u = t) (given s))"

text \<open>
  \<open>reaches p os t s ph m rs\<close>: steps from \<open>s\<close> lead to memory \<open>m\<close> with thread \<open>t\<close> at \<open>ph\<close>; \<open>rs\<close> is what
  it has found on the way, and it has set no bit.
\<close>

definition reaches :: "ptr \<Rightarrow> os \<Rightarrow> nat \<Rightarrow> ef_state \<Rightarrow> ef_phase \<Rightarrow> mem \<Rightarrow> u32 list \<Rightarrow> bool" where
  "reaches p os t s ph m rs \<longleftrightarrow>
     (\<exists>s'. (call_step p os t)\<^sup>*\<^sup>* s s' \<and> few_active s' \<and> thread s' t = ph \<and> emem s' = m \<and>
       reports t s' = rs @ reports t s \<and> gifts t s' = gifts t s)"

lemma few_active_step:
  assumes "ef_step p v s s'" and "few_active s"
  shows "few_active s'"
proof -
  have wk: "wake_up c ph = Outside \<longleftrightarrow> ph = Outside" for c ph by (cases ph) simp_all
  have "\<forall>u. u \<noteq> v \<longrightarrow> (thread s' u = Outside \<longleftrightarrow> thread s u = Outside)"
    using assms(1) by cases (simp_all add: wk)
  then have "{u. thread s' u \<noteq> Outside} \<subseteq> insert v {u. thread s u \<noteq> Outside}" by blast
  with assms(2) show ?thesis unfolding few_active_def by (blast intro: finite_subset)
qed

lemma reports_other:
  assumes "ef_step p u s s'" and "u \<noteq> t"
  shows "reports t s' = reports t s" "gifts t s' = gifts t s"
  using assms(1) by (cases, use assms(2) in \<open>simp_all add: reports_def gifts_def\<close>)+

lemma others_keep:
  assumes "others p os t s s'" and "few_active s"
  shows "few_active s'" "reports t s' = reports t s" "gifts t s' = gifts t s"
proof -
  have "(\<lambda>a b. \<exists>u. u \<noteq> t \<and> ef_step p u a b)\<^sup>*\<^sup>* s s'" using assms(1) by (simp add: others_def)
  then have "few_active s' \<and> reports t s' = reports t s \<and> gifts t s' = gifts t s"
    using assms(2)
    by (induction rule: rtranclp_induct) (auto intro: few_active_step simp: reports_other)
  then show "few_active s'" "reports t s' = reports t s" "gifts t s' = gifts t s" by simp_all
qed

lemma reaches_refl: "few_active s \<Longrightarrow> reaches p os t s (thread s t) (emem s) []"
  unfolding reaches_def by blast

lemma reaches_step:
  assumes r: "reaches p os t s ph m rs"
    and st: "\<And>s'. thread s' t = ph \<Longrightarrow> emem s' = m \<Longrightarrow>
      \<exists>s''. ef_step p t s' s'' \<and> thread s'' t = ph' \<and> emem s'' = m' \<and> reports t s'' = rs' @ reports t s' \<and>
      gifts t s'' = gifts t s'"
  shows "reaches p os t s ph' m' (rs' @ rs)"
proof -
  obtain s' where s': "(call_step p os t)\<^sup>*\<^sup>* s s'" "few_active s'" "thread s' t = ph" "emem s' = m"
    "reports t s' = rs @ reports t s" "gifts t s' = gifts t s"
    using r by (auto simp: reaches_def)
  with st obtain s'' where "ef_step p t s' s''" "thread s'' t = ph'" "emem s'' = m'"
    "reports t s'' = rs' @ reports t s'" "gifts t s'' = gifts t s'" by blast
  with s'(1,2,5,6) show ?thesis
    unfolding reaches_def call_step_def
    by (auto intro!: exI [of _ s''] intro: rtranclp.rtrancl_into_rtrancl few_active_step)
qed

lemma reaches_ran:
  assumes o: "others_step p os t" and r: "reaches p os t s ph (wmem w) rs"
  obtains ph' where "still_at ph ph'" "reaches p os t s ph' (wmem (ran os e w)) rs"
proof -
  obtain s' where s': "(call_step p os t)\<^sup>*\<^sup>* s s'" "few_active s'" "thread s' t = ph" "emem s' = wmem w"
    "reports t s' = rs @ reports t s" "gifts t s' = gifts t s"
    using r by (auto simp: reaches_def)
  obtain s'' where s'': "others p os t s' s''" "emem s'' = os_run os (e # hist w) (wmem w)"
    using o s'(2,4) unfolding others_step_def by metis
  have "reaches p os t s (thread s'' t) (wmem (ran os e w)) rs"
    unfolding reaches_def
    using s'(1,5,6) s'' others_keep [OF s''(1) s'(2)]
    by (intro exI [of _ s'']) (auto simp: call_step_def intro: rtranclp.rtrancl_into_rtrancl)
  moreover have "still_at ph (thread s'' t)" using s''(1) s'(3) by (simp add: others_def)
  ultimately show thesis by (rule that [rotated])
qed

lemma reaches_trans:
  assumes "reaches p os t s ph m rs"
    and "\<And>s'. few_active s' \<Longrightarrow> thread s' t = ph \<Longrightarrow> emem s' = m \<Longrightarrow> reaches p os t s' ph' m' rs'"
  shows "reaches p os t s ph' m' (rs' @ rs)"
proof -
  obtain s' where s': "(call_step p os t)\<^sup>*\<^sup>* s s'" "few_active s'" "thread s' t = ph" "emem s' = m"
    "reports t s' = rs @ reports t s" "gifts t s' = gifts t s"
    using assms(1) by (auto simp: reaches_def)
  from assms(2) [OF s'(2-4)] s'(1,5,6) show ?thesis
    unfolding reaches_def by (auto intro: rtranclp_trans)
qed

lemma still_at_simps [simp]:
  "still_at Outside ph \<longleftrightarrow> ph = Outside" "still_at (Waking b) ph \<longleftrightarrow> ph = Waking b"
  "still_at (Entering b v) ph \<longleftrightarrow> ph = Entering b v" "still_at (Awake b) ph \<longleftrightarrow> ph = Awake b"
  by (auto simp: still_at_def)

text \<open>A system call before which the thread is not asleep leaves it where it is.\<close>

lemma reaches_ran_awake:
  assumes "others_step p os t" and "reaches p os t s ph (wmem w) rs" and "\<And>b. ph \<noteq> Asleep b"
  shows "reaches p os t s ph (wmem (ran os e w)) rs"
  using reaches_ran [OF assms(1,2), of e] assms(3) unfolding still_at_def by metis

section \<open>The steps of each call\<close>

text \<open>One step of the thread, seen from where it is: the rule, the new memory and the report.\<close>

definition found :: "u32 \<Rightarrow> u32 list" where
  "found b = (if b = 0 then [] else [b])"

lemma found_0 [simp]: "found 0 = []" by (simp add: found_def)

lemma reaches_wait_and:
  assumes "reaches p os t s Outside m rs" and "b \<noteq> 0"
    and "atomic_fetch_and m (Some p) (NOT b) = Some (old, m')"
  shows "reaches p os t s (if old AND b \<noteq> 0 then Outside else Entering b (old AND NOT b)) m'
    (found (old AND b) @ rs)" (is "reaches p os t s ?ph m' (?rs @ rs)")
proof (rule reaches_step [OF assms(1)])
  fix s' :: ef_state assume a: "thread s' t = Outside" "emem s' = m"
  show "\<exists>s''. ef_step p t s' s'' \<and> thread s'' t = ?ph \<and> emem s'' = m' \<and> reports t s'' = ?rs @ reports t s' \<and>
      gifts t s'' = gifts t s'"
    by (rule exI, rule conjI, rule wait_and [OF a(1) assms(2) assms(3) [folded a(2)]])
      (simp add: reports_def gifts_def found_def)
qed

lemma reaches_wait_awake:
  assumes "reaches p os t s (Awake b) m rs"
    and "atomic_fetch_and m (Some p) (NOT b) = Some (old, m')"
  shows "reaches p os t s Outside m' (found (old AND b) @ rs)" (is "reaches p os t s _ m' (?rs @ rs)")
proof (rule reaches_step [OF assms(1)])
  fix s' :: ef_state assume a: "thread s' t = Awake b" "emem s' = m"
  show "\<exists>s''. ef_step p t s' s'' \<and> thread s'' t = Outside \<and> emem s'' = m' \<and> reports t s'' = ?rs @ reports t s' \<and>
      gifts t s'' = gifts t s'"
    by (rule exI, rule conjI, rule wait_awake [OF a(1) assms(2) [folded a(2)]])
      (simp add: reports_def gifts_def found_def)
qed

text \<open>The steps that touch neither the word nor the reports.\<close>

lemma reaches_thread:
  assumes "reaches p os t s ph m rs"
    and "\<And>s'. thread s' t = ph \<Longrightarrow> emem s' = m \<Longrightarrow> ef_step p t s' (s'\<lparr>thread := f s'\<rparr>) \<and> f s' t = ph'"
  shows "reaches p os t s ph' m rs"
proof (rule reaches_step [OF assms(1), where rs' = "[]", simplified])
  fix s' :: ef_state assume a: "thread s' t = ph" "emem s' = m"
  from assms(2) [OF this]
  show "\<exists>s''. ef_step p t s' s'' \<and> thread s'' t = ph' \<and> emem s'' = m \<and> reports t s'' = reports t s' \<and>
      gifts t s'' = gifts t s'"
    by (intro exI [of _ "s'\<lparr>thread := f s'\<rparr>"]) (simp add: a reports_def gifts_def)
qed

lemma reaches_asleep:
  assumes "reaches p os t s (Entering b v) m rs" and "load32 m p = v"
  shows "reaches p os t s (Asleep b) m rs"
  by (rule reaches_thread [OF assms(1)], rule conjI, erule wait_futex) (use assms(2) in simp)

lemma reaches_error:
  assumes "reaches p os t s (Entering b v) m rs"
  shows "reaches p os t s Outside m rs"
  by (rule reaches_thread [OF assms], rule conjI, rule wait_error, erule disjI1) simp

lemma reaches_spurious:
  assumes "reaches p os t s (Asleep b) m rs"
  shows "reaches p os t s (Awake b) m rs"
  by (rule reaches_thread [OF assms], rule conjI, erule wait_spurious) simp

section \<open>The calls\<close>

text \<open>
  A call of \<open>wake\<close> is the step that sets the bits, and when it has set a new one the system call, in which
  the others run, and the step of the kernel that wakes the sleepers.
\<close>

lemma wake_by_steps:
  assumes o: "others_step p os t" and few: "few_active s" and out: "thread s t = Outside"
    and m: "emem s = wmem w" and p: "mEfWordPtr ef = Some p" and b: "b \<noteq> 0"
    and c: "wake os ef b w = Some (st, w')"
  defines "new \<equiv> NOT (load32 (wmem w) p) AND b"
  defines "ret \<equiv> os_futexWake os (hist w) (store32 (wmem w) p (load32 (wmem w) p OR b)) p b"
  shows "\<exists>s'. (call_step p os t)\<^sup>*\<^sup>* s s' \<and> thread s' t = Outside \<and> emem s' = wmem w' \<and>
      reports t s' = reports t s \<and> gifts t s' = new # gifts t s"
    and "if new = 0 then hist w' = hist w \<and> st = NO_ERROR
      else hist w' = EvFutexWake p b ret # hist w \<and> st = (case ret of Some e \<Rightarrow> - e | None \<Rightarrow> NO_ERROR)"
proof -
  let ?m = "store32 (wmem w) p (load32 (wmem w) p OR b)"
  let ?s1 = "s\<lparr>emem := ?m, given := (t, new) # given s,
    thread := (thread s)(t := if new \<noteq> 0 then Waking b else Outside)\<rparr>"
  have f: "atomic_fetch_or (emem s) (Some p) b = Some (load32 (wmem w) p, ?m)"
    by (simp add: atomic_fetch_or_def m)
  have st1: "ef_step p t s ?s1" using wake_or [of s t b p, OF out b f] by (simp add: new_def)
  have few1: "few_active ?s1" by (rule few_active_step [OF st1 few])
  have r1: "reports t ?s1 = reports t s" "gifts t ?s1 = new # gifts t s" by (simp_all add: reports_def gifts_def)
  have w: "wake os ef b w = Some (if new = 0 then (NO_ERROR, w\<lparr>wmem := ?m\<rparr>)
      else (case ret of Some e \<Rightarrow> - e | None \<Rightarrow> NO_ERROR, ran os (EvFutexWake p b ret) (w\<lparr>wmem := ?m\<rparr>)))"
    using p b by (simp add: wake_def atomic_fetch_or_def sys_futexWake_def new_def ret_def Let_def)
  then show "if new = 0 then hist w' = hist w \<and> st = NO_ERROR
      else hist w' = EvFutexWake p b ret # hist w \<and> st = (case ret of Some e \<Rightarrow> - e | None \<Rightarrow> NO_ERROR)"
    using c by auto
  show "\<exists>s'. (call_step p os t)\<^sup>*\<^sup>* s s' \<and> thread s' t = Outside \<and> emem s' = wmem w' \<and>
      reports t s' = reports t s \<and> gifts t s' = new # gifts t s"
  proof (cases "new = 0")
    case True
    then show ?thesis using c w st1 r1 by (intro exI [of _ ?s1]) (auto simp: call_step_def)
  next
    case False
    then have w': "wmem w' = os_run os (EvFutexWake p b ret # hist w) ?m" using c w by auto
    obtain s2 where s2: "others p os t ?s1 s2" "emem s2 = wmem w'"
      using o few1 unfolding others_step_def w' by force
    have at: "thread s2 t = Waking b" using s2(1) False by (simp add: others_def)
    let ?s3 = "s2\<lparr>thread := (\<lambda>u. wake_up b (thread s2 u))(t := Outside)\<rparr>"
    have "call_step p os t s ?s1" "call_step p os t ?s1 s2" "call_step p os t s2 ?s3"
      using st1 s2(1) wake_futex [of s2 t b p, OF at] by (simp_all add: call_step_def)
    then have "(call_step p os t)\<^sup>*\<^sup>* s ?s3" by (rule rtranclp_trans [OF converse_rtranclp_into_rtranclp
        [OF _ r_into_rtranclp] r_into_rtranclp])
    then show ?thesis
      using s2(2) others_keep(2,3) [OF s2(1) few1] r1
      by (intro exI [of _ ?s3]) (simp add: reports_def gifts_def)
  qed
qed

lemma sys_futexWait_by_steps:
  assumes o: "others_step p os t" and k: "kernel_compares os"
    and r: "reaches p os t s (Entering b v) (wmem w) rs"
    and c: "sys_futexWait os p v l b w = (ret, w')"
  shows "reaches p os t s (if ret = None then Awake b else Outside) (wmem w') rs"
proof (cases ret)
  case None
  then have w': "w' = ran os (EvFutexWait p v l b None) w"
    and "os_futexWait os (hist w) (wmem w) p v l b = None"
    using c by (auto simp: sys_futexWait_def Let_def)
  then have "load32 (wmem w) p = v" using k unfolding kernel_compares_def by blast
  from reaches_asleep [OF r this] obtain ph where ph: "still_at (Asleep b) ph" "reaches p os t s ph (wmem w') rs"
    unfolding w' by (rule reaches_ran [OF o])
  show ?thesis
  proof (cases "ph = Awake b")
    case False
    then have "reaches p os t s (Asleep b) (wmem w') rs" using ph by (simp add: still_at_def)
    from reaches_spurious [OF this] show ?thesis by (simp add: None)
  qed (use ph None in simp)
next
  case (Some e)
  then have w': "w' = ran os (EvFutexWait p v l b (Some e)) w"
    using c by (auto simp: sys_futexWait_def Let_def)
  have "reaches p os t s (Entering b v) (wmem w') rs"
    unfolding w' by (rule reaches_ran_awake [OF o r]) simp
  from reaches_error [OF this] show ?thesis by (simp add: Some)
qed

lemma futexWaitFor_by_steps:
  assumes o: "others_step p os t" and k: "kernel_compares os"
    and r: "reaches p os t s (Entering b v) (wmem w) rs"
    and c: "futexWaitFor os p v b tm w = (ret, w')"
  shows "reaches p os t s (if ret = None then Awake b else Outside) (wmem w') rs"
proof (cases "tm = 0")
  case False
  then obtain l e where "sys_futexWait os p v (Some l) b (ran os e w) = (ret, w')"
    using c by (auto simp: futexWaitFor_def addNanosecondsToCurrentTime_def Let_def)
  moreover have "reaches p os t s (Entering b v) (wmem (ran os e w)) rs"
    by (rule reaches_ran_awake [OF o r]) simp
  ultimately show ?thesis by (rule sys_futexWait_by_steps [OF o k, rotated])
qed (use c sys_futexWait_by_steps [OF o k r] in \<open>simp add: futexWaitFor_def\<close>)

text \<open>\<open>waitHelper\<close> reports what it has found, in the first access or after the sleep.\<close>

lemma waitHelper_by_steps:
  assumes o: "others_step p os t" and k: "kernel_compares os"
    and r: "reaches p os t s Outside (wmem w) rs" and p: "mEfWordPtr ef = Some p" and b: "b \<noteq> 0"
    and c: "waitHelper os ef b (Some x) tm w = Some (st, Some v, w')"
  shows "reaches p os t s Outside (wmem w') (found v @ rs) \<and> (st \<noteq> NO_ERROR \<longrightarrow> v = 0)"
proof -
  obtain old m where f: "atomic_fetch_and (wmem w) (Some p) (NOT b) = Some (old, m)"
    by (simp add: atomic_fetch_and_def)
  note r1 = reaches_wait_and [OF r b f]
  show ?thesis
  proof (cases "old AND b = 0")
    case True
    obtain ret w3 where fw: "futexWaitFor os p (old AND NOT b) b tm (w\<lparr>wmem := m\<rparr>) = (ret, w3)"
      by fastforce
    have "reaches p os t s (Entering b (old AND NOT b)) (wmem (w\<lparr>wmem := m\<rparr>)) rs" using r1 True by simp
    note a = futexWaitFor_by_steps [OF o k this fw]
    show ?thesis
    proof (cases ret)
      case None
      obtain old' m' where g: "atomic_fetch_and (wmem w3) (Some p) (NOT b) = Some (old', m')"
        by (simp add: atomic_fetch_and_def)
      have "reaches p os t s Outside m' (found (old' AND b) @ rs)"
        using reaches_wait_awake [OF _ g] a None by simp
      then show ?thesis
        using c b p f fw g True None by (simp add: waitHelper_def Let_def split: if_splits) auto
    next
      case (Some e)
      then show ?thesis using c b p f fw True a by (simp add: waitHelper_def Let_def)
    qed
  next
    case False
    then show ?thesis using c r1 f b p by (simp add: waitHelper_def Let_def) auto
  qed
qed

lemma reaches_clock:
  assumes "others_step p os t" and "reaches p os t s Outside (wmem w) rs"
  shows "reaches p os t s Outside (wmem (snd (elapsedRealtimeNano os w))) rs"
  using reaches_ran_awake [OF assms] by (simp add: elapsedRealtimeNano_def Let_def)

lemma waitHelper_state:
  "waitHelper os ef b (Some x) tm w = Some (st, r, w') \<Longrightarrow> \<exists>v. r = Some v"
  by (auto simp: waitHelper_def Let_def bind_eq_Some_conv split: if_splits option.splits prod.splits)

lemma wait_loop_by_steps:
  assumes o: "others_step p os t" and k: "kernel_compares os"
    and p: "mEfWordPtr ef = Some p" and b: "b \<noteq> 0"
  shows "reaches p os t s Outside (wmem w) rs \<Longrightarrow>
    wait_loop n os ef b (Some x) sto tm prev w = Some (Done (st, Some v, w')) \<Longrightarrow>
    reaches p os t s Outside (wmem w') (found v @ rs)"
proof (induction n arbitrary: x tm prev w)
  case (Suc n)
  obtain now w1 where cl: "(if sto then elapsedRealtimeNano os w else (prev, w)) = (now, w1)" by fastforce
  have r1: "reaches p os t s Outside (wmem w1) rs"
    using reaches_clock [OF o Suc.prems(1)] Suc.prems(1) cl by (auto split: if_splits)
  let ?left = "if sto then tm - (now - prev) else tm"
  show ?case
  proof (cases "sto \<and> ?left \<le> 0")
    case True
    then show ?thesis using Suc.prems(2) r1 cl by (simp split: if_splits)
  next
    case False
    then obtain st1 e1 w2 where h: "waitHelper os ef b (Some x) ?left w1 = Some (st1, e1, w2)"
      and rest: "if st1 \<noteq> - EAGAIN \<and> st1 \<noteq> - EINTR then (st1, e1, w2) = (st, Some v, w')
        else wait_loop n os ef b e1 sto ?left now w2 = Some (Done (st, Some v, w'))"
      using Suc.prems(2) cl by (auto simp: Let_def bind_eq_Some_conv split: if_splits)
    obtain v1 where e1: "e1 = Some v1" using waitHelper_state [OF h] by blast
    note a = waitHelper_by_steps [OF o k r1 p b h [unfolded e1]]
    show ?thesis
    proof (cases "st1 \<noteq> - EAGAIN \<and> st1 \<noteq> - EINTR")
      case True
      then show ?thesis using a rest e1 by simp
    next
      case False
      then have "v1 = 0" using a by auto
      then have "reaches p os t s Outside (wmem w2) rs" using a by simp
      from Suc.IH [OF this, of v1 ?left now] show ?thesis using rest e1 False by auto
    qed
  qed
qed simp

text \<open>
  C23. Calls of \<open>wake\<close> and \<open>wait\<close> are sequences of steps of the calling thread, with what the
  system says of the other threads in between: when the others only do steps of theirs and the
  kernel compares the word before it puts a thread to sleep, the memory after the call is
  that of a state the steps lead to, in which the thread is outside the calls again. The steps of a \<open>wait\<close>
  have found exactly what it reports and have set nothing. Those of a \<open>wake\<close> have found nothing and have set the bits of
  the mask that were not set before; when there is one, the call has made the system call that wakes the
  sleepers for its mask, once, and returns the error of it or success, and otherwise it made none.
\<close>

theorem event_flag_calls_are_steps:
  assumes "others_step p os t" and "kernel_compares os" and "mEfWordPtr ef = Some p"
    and "few_active s" and "thread s t = Outside" and "emem s = wmem w" and "b \<noteq> 0"
  shows "(\<forall>n x tm retry st v w'. ef_wait n os ef b (Some x) tm retry w = Some (Done (st, Some v, w')) \<longrightarrow>
      (\<exists>s'. (call_step p os t)\<^sup>*\<^sup>* s s' \<and> thread s' t = Outside \<and> emem s' = wmem w' \<and>
        reports t s' = (if v = 0 then [] else [v]) @ reports t s \<and> gifts t s' = gifts t s)) \<and>
    (\<forall>st w'. wake os ef b w = Some (st, w') \<longrightarrow>
      (let new = NOT (load32 (wmem w) p) AND b;
           ret = os_futexWake os (hist w) (store32 (wmem w) p (load32 (wmem w) p OR b)) p b
       in (\<exists>s'. (call_step p os t)\<^sup>*\<^sup>* s s' \<and> thread s' t = Outside \<and> emem s' = wmem w' \<and>
            reports t s' = reports t s \<and> gifts t s' = new # gifts t s) \<and>
          (if new = 0 then hist w' = hist w \<and> st = NO_ERROR
           else hist w' = EvFutexWake p b ret # hist w \<and>
             st = (case ret of Some e \<Rightarrow> - e | None \<Rightarrow> NO_ERROR))))"
    (is "?wait \<and> ?wake")
proof (rule conjI)
  have r: "reaches p os t s Outside (wmem w) []"
    using reaches_refl [OF assms(4), of p os t] by (simp add: assms(5,6))
  have "reaches p os t s Outside (wmem w') (found v)"
    if c: "ef_wait n os ef b (Some x) tm retry w = Some (Done (st, Some v, w'))"
    for n x tm retry st v w'
  proof (cases retry)
    case True
    then obtain prev w1 sto where
      l: "wait_loop n os ef b (Some x) sto tm prev w1 = Some (Done (st, Some v, w'))"
      and "w1 = w \<or> w1 = snd (elapsedRealtimeNano os w)"
      using c by (auto simp: ef_wait_def Let_def split: if_splits prod.splits)
    then have "reaches p os t s Outside (wmem w1) []" using r reaches_clock [OF assms(1) r] by auto
    from wait_loop_by_steps [OF assms(1-3,7) this l] show ?thesis by simp
  next
    case False
    then have "waitHelper os ef b (Some x) tm w = Some (st, Some v, w')"
      using c by (auto simp: ef_wait_def)
    from waitHelper_by_steps [OF assms(1,2) r assms(3,7) this] show ?thesis by simp
  qed
  then show ?wait unfolding reaches_def found_def by blast
  show ?wake using wake_by_steps [OF assms(1,4-6,3,7)] unfolding Let_def by blast
qed

text \<open>The steps of a call are steps of the threads, so the invariants of the interleaving hold on.\<close>

lemma call_steps_run:
  assumes "(call_step p os t)\<^sup>*\<^sup>* s s'"
  shows "ef_run p s s'"
proof -
  have "ef_run p a b" if "call_step p os t a b" for a b
  proof -
    have "(\<lambda>a b. \<exists>u. u \<noteq> t \<and> ef_step p u a b)\<^sup>*\<^sup>* \<le> ef_run p" by (rule rtranclp_mono) auto
    then show ?thesis using that by (auto simp: call_step_def others_def intro: r_into_rtranclp)
  qed
  with assms show ?thesis by (induction rule: rtranclp_induct) (auto intro: rtranclp_trans)
qed

end
