(* ===== verification/EventFlagThreadExamples.thy ===== *)
theory EventFlagThreadExamples
  imports EventFlagCalls
begin

text \<open>
  Witnesses for the properties of an event flag that several threads use: a run in which a thread
  falls asleep before the bit is set, and a system in which others set it.
\<close>

unbundle bit_operations_syntax

section \<open>A sleeper and a waker\<close>

text \<open>Thread 0 falls asleep waiting for bit 0, and thread 1 sets it.\<close>

lemma ex_sleeper:
  "\<exists>s. ef_run (Ptr (Shm 0) 0) (ef_start (\<lambda>_ _. 0)) s \<and> thread s 0 = Asleep 1 \<and>
    thread s 1 = Waking 1 \<and> load32 (emem s) (Ptr (Shm 0) 0) = 1 \<and> given s = [(1, 1)] \<and> taken s = [(0, 0)]"
proof -
  let ?p = "Ptr (Shm 0) 0" and ?m = "\<lambda>_ _. 0 :: u8"
  let ?R = "\<lambda>s s'. \<exists>t. ef_step ?p t s s'" and ?s0 = "ef_start ?m"
  have z: "load32 ?m ?p = 0" by code_simp
  obtain m1 where m1: "atomic_fetch_and ?m (Some ?p) (NOT 1) = Some (0, m1)" "load32 m1 ?p = 0"
    by (simp add: atomic_fetch_and_def cell32.load_store_same z)
  obtain s1 where s1: "ef_step ?p 0 ?s0 s1" "thread s1 0 = Entering 1 0" "thread s1 1 = Outside" "emem s1 = m1"
    "given s1 = []" "taken s1 = [(0, 0)]"
    using wait_and [of ?s0 0 1 ?p 0 m1] m1(1) by (force simp: ef_start_def)
  obtain s2 where s2: "ef_step ?p 0 s1 s2" "thread s2 0 = Asleep 1" "thread s2 1 = Outside" "emem s2 = m1"
    "given s2 = []" "taken s2 = [(0, 0)]"
    using wait_futex [OF s1(2), of ?p] s1 m1(2) by force
  obtain m2 where m2: "atomic_fetch_or m1 (Some ?p) 1 = Some (0, m2)" "load32 m2 ?p = 1"
    using m1(2) by (simp add: atomic_fetch_or_def cell32.load_store_same)
  obtain s3 where s3: "ef_step ?p 1 s2 s3" "thread s3 0 = Asleep 1" "thread s3 1 = Waking 1" "emem s3 = m2"
    "given s3 = [(1, 1)]" "taken s3 = [(0, 0)]"
    using wake_or [of s2 1 1 ?p 0 m2] s2 m2(1) by force
  have "?R\<^sup>*\<^sup>* ?s0 s3" using s1(1) s2(1) s3(1) by (blast intro: rtranclp.intros)
  then show ?thesis using s3 m2(2) by blast
qed

theorem no_wake_up_lost_witness:
  "\<exists>s u s'. ef_run (Ptr (Shm 0) 0) (ef_start (\<lambda>_ _. 0)) s \<and> thread s 0 = Asleep 1 \<and>
    ef_step (Ptr (Shm 0) 0) u s s' \<and> thread s' u = Outside \<and> thread s' 0 = Awake 1"
proof -
  obtain s where s: "ef_run (Ptr (Shm 0) 0) (ef_start (\<lambda>_ _. 0)) s" "thread s 0 = Asleep 1"
    "load32 (emem s) (Ptr (Shm 0) 0) AND 1 \<noteq> 0" using ex_sleeper by auto
  then show ?thesis using no_wake_up_lost [OF s] by blast
qed

theorem bits_reported_once_witness:
  "\<exists>s. ef_run (Ptr (Shm 0) 0) (ef_start (\<lambda>_ _. 0)) s \<and> given s = [(1, 1)] \<and>
    of_bool (bit (load32 (\<lambda>_ _. 0) (Ptr (Shm 0) 0)) 0) + (1 :: nat) =
    of_bool (bit (load32 (emem s) (Ptr (Shm 0) 0)) 0)"
proof -
  obtain s where s: "ef_run (Ptr (Shm 0) 0) (ef_start (\<lambda>_ _. 0)) s"
    "given s = [(1, 1)]" "taken s = [(0, 0)]" using ex_sleeper by auto
  then show ?thesis using bits_reported_once [OF s(1), of 0] by (intro exI [of _ s]) simp
qed

section \<open>Calls on a system with other threads\<close>

text \<open>Another thread calls \<open>wake\<close> for bit 0 at every system call, so a wait for it returns.\<close>

definition waker_os :: os where
  "waker_os = \<lparr>os_run = (\<lambda>h m. store32 m (Ptr (Shm 0) 0) (load32 m (Ptr (Shm 0) 0) OR 1)),
     os_futexWait = (\<lambda>h m p v t b. if load32 m p = v then None else Some 11),
     os_futexWake = (\<lambda>h m p b. None), os_clock = (\<lambda>h. 0),
     os_gettime = (\<lambda>h. \<lparr>tv_sec = 0, tv_nsec = 0\<rparr>), os_mmap = (\<lambda>h n rw fd off. Inl 22),
     os_munmap = (\<lambda>h ob s n. None), os_new = (\<lambda>h. None), os_handleCreate = (\<lambda>h nf ni. False),
     os_dup = (\<lambda>h fd. - 1), os_ashmem = (\<lambda>h sz. - 1), os_pagesize = 4096\<rparr>"

lemma waker_os_ok: "others_step (Ptr (Shm 0) 0) waker_os t" "kernel_compares waker_os"
proof -
  have "\<exists>s'. others (Ptr (Shm 0) 0) waker_os t s s' \<and> emem s' = os_run waker_os h (emem s)"
    if few: "few_active s" for h s
  proof -
    obtain u where "u \<notin> insert t {u. thread s u \<noteq> Outside}"
      using ex_new_if_finite [of "insert t {u. thread s u \<noteq> Outside}"] few
      by (auto simp: few_active_def)
    then have u: "u \<noteq> t" "thread s u = Outside" by auto
    have "atomic_fetch_or (emem s) (Some (Ptr (Shm 0) 0)) 1 =
        Some (load32 (emem s) (Ptr (Shm 0) 0), os_run waker_os h (emem s))"
      by (simp add: atomic_fetch_or_def waker_os_def)
    then obtain s' where "ef_step (Ptr (Shm 0) 0) u s s'" "emem s' = os_run waker_os h (emem s)"
      "thread s' t = thread s t"
      using wake_or [OF u(2), of 1] u(1) by fastforce
    then show ?thesis using u(1) by (auto simp: others_def still_at_def)
  qed
  then show "others_step (Ptr (Shm 0) 0) waker_os t" by (simp add: others_step_def)
qed (simp add: kernel_compares_def waker_os_def)

lemma waker_os_wait:
  assumes "load32 (wmem w) (Ptr (Shm 0) 0) = 0"
  shows "\<exists>w'. waitHelper waker_os \<lparr>mEfWordNeedsUnmapping = False, mEfWordPtr = Some (Ptr (Shm 0) 0)\<rparr>
    1 (Some 0) 0 w = Some (0, Some 1, w')"
proof -
  let ?p = "Ptr (Shm 0) 0"
  obtain m where m: "atomic_fetch_and (wmem w) (Some ?p) (NOT 1) = Some (0, m)" "load32 m ?p = 0"
    by (simp add: atomic_fetch_and_def cell32.load_store_same assms)
  obtain w3 where w3: "futexWaitFor waker_os ?p 0 1 0 (w\<lparr>wmem := m\<rparr>) = (None, w3)" "load32 (wmem w3) ?p = 1"
    using m(2) by (simp add: futexWaitFor_def sys_futexWait_def waker_os_def ran_def Let_def
        cell32.load_store_same)
  obtain m' where m': "atomic_fetch_and (wmem w3) (Some ?p) (NOT 1) = Some (1, m')"
    by (simp add: atomic_fetch_and_def w3(2))
  show ?thesis using m(1) w3(1) m' by (simp add: waitHelper_def Let_def)
qed

text \<open>Thread 3 waits for bit 0, or wakes the threads that wait for bit 1.\<close>

theorem event_flag_calls_are_steps_witness:
  "\<exists>w' s' w'' s''. ef_wait 1 waker_os \<lparr>mEfWordNeedsUnmapping = False, mEfWordPtr = Some (Ptr (Shm 0) 0)\<rparr>
      1 (Some 0) 0 True \<lparr>wmem = (\<lambda>_ _. 0), hist = []\<rparr> = Some (Done (0, Some 1, w')) \<and>
    (call_step (Ptr (Shm 0) 0) waker_os 3)\<^sup>*\<^sup>* (ef_start (\<lambda>_ _. 0)) s' \<and> thread s' 3 = Outside \<and>
    emem s' = wmem w' \<and> reports 3 s' = [1] \<and>
    wake waker_os \<lparr>mEfWordNeedsUnmapping = False, mEfWordPtr = Some (Ptr (Shm 0) 0)\<rparr> 2
      \<lparr>wmem = (\<lambda>_ _. 0), hist = []\<rparr> = Some (0, w'') \<and>
    (call_step (Ptr (Shm 0) 0) waker_os 3)\<^sup>*\<^sup>* (ef_start (\<lambda>_ _. 0)) s'' \<and> emem s'' = wmem w'' \<and> gifts 3 s'' = [2] \<and>
    hist w'' = [EvFutexWake (Ptr (Shm 0) 0) 2 None]"
proof -
  let ?p = "Ptr (Shm 0) 0" and ?w = "\<lparr>wmem = (\<lambda>_ _. 0), hist = []\<rparr>"
  let ?ef = "\<lparr>mEfWordNeedsUnmapping = False, mEfWordPtr = Some ?p\<rparr>" and ?s0 = "ef_start (\<lambda>_ _. 0)"
  have z: "load32 (\<lambda>_ _. 0) ?p = 0" by code_simp
  then obtain w' where w': "ef_wait 1 waker_os ?ef 1 (Some 0) 0 True ?w = Some (Done (0, Some 1, w'))"
    using waker_os_wait [of ?w] by (auto simp: ef_wait_def)
  obtain w'' where w'': "wake waker_os ?ef 2 ?w = Some (0, w'')"
    by (simp add: wake_def atomic_fetch_or_def z sys_futexWake_def waker_os_def NO_ERROR_def Let_def)
  have start: "few_active ?s0" "thread ?s0 3 = Outside" "emem ?s0 = wmem ?w"
    and none: "reports 3 ?s0 = []" "gifts 3 ?s0 = []"
    by (simp_all add: few_active_def ef_start_def reports_def gifts_def)
  have p: "mEfWordPtr ?ef = Some ?p" by simp
  have b: "(1 :: u32) \<noteq> 0" "(2 :: u32) \<noteq> 0" by simp_all
  obtain s' where s': "(call_step ?p waker_os 3)\<^sup>*\<^sup>* ?s0 s'" "thread s' 3 = Outside" "emem s' = wmem w'"
    "reports 3 s' = (if (1 :: u32) = 0 then [] else [1]) @ reports 3 ?s0"
    using event_flag_calls_are_steps [OF waker_os_ok p start b(1)] w' by blast
  have ret: "os_futexWake waker_os h m q c = None" for h m q c by (simp add: waker_os_def)
  obtain s'' where s'': "(call_step ?p waker_os 3)\<^sup>*\<^sup>* ?s0 s''" "emem s'' = wmem w''" "gifts 3 s'' = [2]"
    "hist w'' = [EvFutexWake ?p 2 None]"
    using event_flag_calls_are_steps [OF waker_os_ok p start b(2)] w'' by (auto simp: none z ret Let_def)
  show ?thesis using w' s' w'' s'' none by auto
qed

end
