(* ===== verification/BlockingThreads.thy ===== *)
theory BlockingThreads
  imports EventFlagThreads BlockingQueue
begin

unbundle bit_operations_syntax

text \<open>
  The blocking calls of both ends of a synchronized queue at the same time: a writer that calls
  \<open>writeBlocking\<close> and a reader that calls \<open>readBlocking\<close>, again and again, with any number of
  messages and any time limit. An attempt to \<open>write\<close> or \<open>read\<close> is one step; the calls of \<open>wait\<close> and
  \<open>wake\<close> run step by step as in EventFlagThreads, so the other end may work between the failed
  attempt and the sleep, and between the transfer and its notification. The clock is not modelled:
  a time limit may be over at every place where the code looks at the clock.
\<close>

section \<open>The two ends and their steps\<close>

datatype side = WriterEnd | ReaderEnd

primrec other_end :: "side \<Rightarrow> side" where
  "other_end WriterEnd = ReaderEnd"
| "other_end ReaderEnd = WriterEnd"

text \<open>The thread of an end among the users of the event flag word.\<close>

primrec tid :: "side \<Rightarrow> nat" where
  "tid WriterEnd = 0"
| "tid ReaderEnd = 1"

text \<open>The queue, its event flag word and the two notifications, as both ends pass them.\<close>

record bq_setup =
  bq_queue :: MessageQueue
  bq_word :: ptr
  bq_readNotification :: u32
  bq_writeNotification :: u32

fun wait_mask :: "bq_setup \<Rightarrow> side \<Rightarrow> u32" where
  "wait_mask S WriterEnd = bq_readNotification S"
| "wait_mask S ReaderEnd = bq_writeNotification S"

fun wake_mask :: "bq_setup \<Rightarrow> side \<Rightarrow> u32" where
  "wake_mask S WriterEnd = bq_writeNotification S"
| "wake_mask S ReaderEnd = bq_readNotification S"

text \<open>\<open>write(data, count)\<close> or \<open>read(data, count)\<close>.\<close>

fun attempt :: "bq_setup \<Rightarrow> side \<Rightarrow> mem \<Rightarrow> ptr \<Rightarrow> u64 \<Rightarrow> (bool \<times> mem) option" where
  "attempt S WriterEnd m d n = mq_write (bq_queue S) m (Some d) n"
| "attempt S ReaderEnd m d n = mq_read (bq_queue S) m (Some d) n"

text \<open>
  Where an end is in its call, with the arguments: outside; before an attempt that is followed by a
  wait, or before the last one after the time limit; in \<open>wait\<close>; after a successful transfer before
  \<open>wake\<close>; in \<open>wake\<close> before the system call.
\<close>

datatype bq_phase =
    Between
  | Attempt ptr u64
  | LastAttempt ptr u64
  | Waiting ptr u64
  | Notify
  | Notifying

text \<open>\<open>sent\<close> and \<open>got\<close> are the messages transferred so far.\<close>

record bq_state =
  flag :: ef_state
  phase :: "side \<Rightarrow> bq_phase"
  sent :: "u8 list list"
  got :: "u8 list list"

definition bq_mem :: "bq_state \<Rightarrow> mem" where
  "bq_mem s = emem (flag s)"

text \<open>The bits that a step of \<open>wait\<close> reports: what it adds to \<open>taken\<close>.\<close>

definition reported :: "ef_state \<Rightarrow> ef_state \<Rightarrow> u32" where
  "reported f f' = (if taken f' = taken f then 0 else snd (hd (taken f')))"

text \<open>
  The first access of \<open>wake\<close> and of \<open>wait\<close> to the word, for the calls with the mask of the end.
\<close>

definition wake_begin :: "ptr \<Rightarrow> nat \<Rightarrow> u32 \<Rightarrow> ef_state \<Rightarrow> ef_state option" where
  "wake_begin p t bitmask f = map_option
     (\<lambda>(old, m). f\<lparr>emem := m, given := (t, NOT old AND bitmask) # given f,
       thread := (thread f)(t := if NOT old AND bitmask \<noteq> 0 then Waking bitmask else Outside)\<rparr>)
     (atomic_fetch_or (emem f) (Some p) bitmask)"

definition wait_begin :: "ptr \<Rightarrow> nat \<Rightarrow> u32 \<Rightarrow> ef_state \<Rightarrow> ef_state option" where
  "wait_begin p t bitmask f = map_option
     (\<lambda>(old, m). f\<lparr>emem := m, taken := (t, old AND bitmask) # taken f,
       thread := (thread f)(t := if old AND bitmask \<noteq> 0 then Outside
         else Entering bitmask (old AND NOT bitmask))\<rparr>)
     (atomic_fetch_and (emem f) (Some p) (NOT bitmask))"

text \<open>The call gets past the early returns, and its buffer is the caller's own.\<close>

definition call_ok :: "bq_setup \<Rightarrow> side \<Rightarrow> ptr \<Rightarrow> u64 \<Rightarrow> mem \<Rightarrow> bool" where
  "call_ok S x d n m \<longleftrightarrow> user_buf (bq_queue S) d (unat n) \<and> unat n \<le> qcap (bq_queue S) \<and>
     sep (bq_word S) 4 d (unat n * qz (bq_queue S)) \<and>
     (x = WriterEnd \<longrightarrow> wrc (bq_queue S) m + unat n * qz (bq_queue S) < 2 ^ 64)"

fun transferred :: "bq_setup \<Rightarrow> side \<Rightarrow> ptr \<Rightarrow> u64 \<Rightarrow> mem \<Rightarrow> bq_state \<Rightarrow> bq_state" where
  "transferred S WriterEnd d n m' s = s\<lparr>flag := (flag s)\<lparr>emem := m'\<rparr>,
     sent := sent s @ elems (bq_mem s) d (qz (bq_queue S)) (unat n)\<rparr>"
| "transferred S ReaderEnd d n m' s = s\<lparr>flag := (flag s)\<lparr>emem := m'\<rparr>,
     got := got s @ elems m' d (qz (bq_queue S)) (unat n)\<rparr>"

definition goes_to :: "bq_state \<Rightarrow> side \<Rightarrow> bq_phase \<Rightarrow> bq_state" where
  "goes_to s x ph = s\<lparr>phase := (phase s)(x := ph)\<rparr>"

inductive bq_step :: "bq_setup \<Rightarrow> side \<Rightarrow> bq_state \<Rightarrow> bq_state \<Rightarrow> bool" for S x where
  call: "phase s x = Between \<Longrightarrow> call_ok S x d n (bq_mem s) \<Longrightarrow>
    bq_step S x s (goes_to s x (Attempt d n))"
| succeed: "phase s x = Attempt d n \<or> phase s x = LastAttempt d n \<Longrightarrow>
    attempt S x (bq_mem s) d n = Some (True, m') \<Longrightarrow>
    bq_step S x s (goes_to (transferred S x d n m' s) x Notify)"
| retry: "phase s x = Attempt d n \<Longrightarrow> attempt S x (bq_mem s) d n = Some (False, m') \<Longrightarrow>
    bq_step S x s (goes_to (s\<lparr>flag := (flag s)\<lparr>emem := m'\<rparr>\<rparr>) x (Waiting d n))"
| give_up: "phase s x = LastAttempt d n \<Longrightarrow> attempt S x (bq_mem s) d n = Some (False, m') \<Longrightarrow>
    bq_step S x s (goes_to (s\<lparr>flag := (flag s)\<lparr>emem := m'\<rparr>\<rparr>) x Between)"
| time_over: "phase s x = Waiting d n \<Longrightarrow> thread (flag s) (tid x) = Outside \<Longrightarrow>
    bq_step S x s (goes_to s x (LastAttempt d n))"
| wait_over: "phase s x = Waiting d n \<Longrightarrow> thread (flag s) (tid x) = Outside \<Longrightarrow>
    bq_step S x s (goes_to s x Between)"
| wait_in: "phase s x = Waiting d n \<Longrightarrow> thread (flag s) (tid x) = Outside \<Longrightarrow>
    wait_begin (bq_word S) (tid x) (wait_mask S x) (flag s) = Some f' \<Longrightarrow>
    bq_step S x s (goes_to (s\<lparr>flag := f'\<rparr>) x
      (if reported (flag s) f' \<noteq> 0 then Attempt d n else Waiting d n))"
| wait_on: "phase s x = Waiting d n \<Longrightarrow> thread (flag s) (tid x) \<noteq> Outside \<Longrightarrow>
    ef_step (bq_word S) (tid x) (flag s) f' \<Longrightarrow>
    bq_step S x s (goes_to (s\<lparr>flag := f'\<rparr>) x
      (if reported (flag s) f' \<noteq> 0 then Attempt d n else Waiting d n))"
| wait_fails: "phase s x = Waiting d n \<Longrightarrow>
    thread (flag s) (tid x) = Entering b w \<or> thread (flag s) (tid x) = Asleep b \<Longrightarrow>
    bq_step S x s (goes_to (s\<lparr>flag := (flag s)\<lparr>thread := (thread (flag s))(tid x := Outside)\<rparr>\<rparr>) x
      Between)"
| notify_in: "phase s x = Notify \<Longrightarrow>
    wake_begin (bq_word S) (tid x) (wake_mask S x) (flag s) = Some f' \<Longrightarrow>
    bq_step S x s (goes_to (s\<lparr>flag := f'\<rparr>) x
      (if thread f' (tid x) = Outside then Between else Notifying))"
| notify_on: "phase s x = Notifying \<Longrightarrow> ef_step (bq_word S) (tid x) (flag s) f' \<Longrightarrow>
    bq_step S x s (goes_to (s\<lparr>flag := f'\<rparr>) x Between)"

abbreviation bq_run :: "bq_setup \<Rightarrow> bq_state \<Rightarrow> bq_state \<Rightarrow> bool" where
  "bq_run S \<equiv> (\<lambda>s s'. \<exists>x. bq_step S x s s')\<^sup>*\<^sup>*"

text \<open>Both ends outside their calls; the messages already in the queue count as sent.\<close>

definition bq_start :: "bq_setup \<Rightarrow> mem \<Rightarrow> bq_state" where
  "bq_start S m = \<lparr>flag = ef_start m, phase = (\<lambda>_. Between),
     sent = contents (bq_queue S) m, got = []\<rparr>"

text \<open>
  The ends use the same two notifications, which are not zero (the calls refuse a zero mask) and
  have no bit in common; the event flag word lies apart from the ring and the counters.
\<close>

definition setup_ok :: "bq_setup \<Rightarrow> bool" where
  "setup_ok S \<longleftrightarrow> flag_apart (bq_queue S) (bq_word S) \<and> bq_readNotification S \<noteq> 0 \<and>
     bq_writeNotification S \<noteq> 0 \<and> bq_readNotification S AND bq_writeNotification S = 0"

section \<open>The invariant\<close>

text \<open>A call of the end with these arguments could succeed now.\<close>

fun can_transfer :: "MessageQueue \<Rightarrow> side \<Rightarrow> u64 \<Rightarrow> mem \<Rightarrow> bool" where
  "can_transfer q WriterEnd n m \<longleftrightarrow> length (contents q m) + unat n \<le> qcap q"
| "can_transfer q ReaderEnd n m \<longleftrightarrow> unat n \<le> length (contents q m)"

fun phase_ok :: "bq_setup \<Rightarrow> side \<Rightarrow> bq_phase \<Rightarrow> ef_phase \<Rightarrow> mem \<Rightarrow> bool" where
  "phase_ok S x Between th m \<longleftrightarrow> th = Outside"
| "phase_ok S x (Attempt d n) th m \<longleftrightarrow> th = Outside \<and> call_ok S x d n m"
| "phase_ok S x (LastAttempt d n) th m \<longleftrightarrow> th = Outside \<and> call_ok S x d n m"
| "phase_ok S x (Waiting d n) th m \<longleftrightarrow> call_ok S x d n m \<and>
     (th = Outside \<or> (\<exists>w. th = Entering (wait_mask S x) w) \<or> th = Asleep (wait_mask S x) \<or>
      th = Awake (wait_mask S x))"
| "phase_ok S x Notify th m \<longleftrightarrow> th = Outside"
| "phase_ok S x Notifying th m \<longleftrightarrow> th = Waking (wake_mask S x)"

definition bits_for :: "bq_setup \<Rightarrow> side \<Rightarrow> bq_state \<Rightarrow> u32" where
  "bits_for S x s = load32 (bq_mem s) (bq_word S) AND wait_mask S x"

text \<open>
  An end in \<open>wait\<close> whose transfer could succeed has been notified, or is about to be.
\<close>

definition bq_inv :: "bq_setup \<Rightarrow> bq_state \<Rightarrow> bool" where
  "bq_inv S s \<longleftrightarrow> fifo_inv (bq_queue S) (bq_mem s) \<and>
     sent s = got s @ contents (bq_queue S) (bq_mem s) \<and>
     (\<forall>x. phase_ok S x (phase s x) (thread (flag s) (tid x)) (bq_mem s)) \<and>
     (\<forall>u. u \<notin> range tid \<longrightarrow> thread (flag s) u = Outside) \<and>
     (\<forall>k. announced (bq_word S) (flag s) k) \<and>
     (\<forall>x d n. phase s x = Waiting d n \<longrightarrow> can_transfer (bq_queue S) x n (bq_mem s) \<longrightarrow>
        phase s (other_end x) = Notify \<or> bits_for S x s \<noteq> 0)"


inductive_cases bq_stepE: "bq_step S x s s'"

lemma setup_okD:
  assumes "setup_ok S"
  shows "flag_apart (bq_queue S) (bq_word S)" "wait_mask S x \<noteq> 0" "wake_mask S x \<noteq> 0"
    "wait_mask S x AND wait_mask S (other_end x) = 0" "wake_mask S x = wait_mask S (other_end x)"
  using assms by (cases x; simp add: setup_ok_def and.commute)+

lemma other_end_simps [simp]:
  "other_end (other_end x) = x" "other_end x \<noteq> x" "x \<noteq> other_end x" "tid (other_end x) \<noteq> tid x"
  "tid x \<noteq> tid (other_end x)"
  by (cases x; simp)+

lemma side_cases: "y = x \<or> y = other_end x"
  by (cases x; cases y) auto

lemma tid_eq [simp]: "tid x = tid y \<longleftrightarrow> x = y"
  by (cases x; cases y) auto

lemma tid_other:
  assumes "u \<noteq> tid x" and "u \<in> range tid"
  shows "u = tid (other_end x)"
proof -
  obtain y where "u = tid y" using assms(2) by blast
  then show ?thesis using assms(1) side_cases [of y x] by auto
qed

subsection \<open>The attempts\<close>

lemma attempt_effect:
  assumes S: "setup_ok S" and inv: "fifo_inv (bq_queue S) m" and ok: "call_ok S x d n m"
    and att: "attempt S x m d n = Some (r, m')"
  shows "r \<longleftrightarrow> can_transfer (bq_queue S) x n m" "\<not> r \<Longrightarrow> m' = m" "fifo_inv (bq_queue S) m'"
    "load32 m' (bq_word S) = load32 m (bq_word S)"
    "x = ReaderEnd \<Longrightarrow> wrc (bq_queue S) m' = wrc (bq_queue S) m"
    "r \<Longrightarrow> x = WriterEnd \<Longrightarrow> contents (bq_queue S) m' =
      contents (bq_queue S) m @ elems m d (qz (bq_queue S)) (unat n)"
    "r \<Longrightarrow> x = ReaderEnd \<Longrightarrow> contents (bq_queue S) m =
      elems m' d (qz (bq_queue S)) (unat n) @ contents (bq_queue S) m'"
proof -
  let ?q = "bq_queue S" and ?p = "bq_word S"
  note fl = setup_okD(1) [OF S]
  from ok have buf: "user_buf ?q d (unat n)" and cap: "unat n \<le> qcap ?q"
    and sep: "sep ?p 4 d (unat n * qz ?q)"
    and wr: "x = WriterEnd \<Longrightarrow> wrc ?q m + unat n * qz ?q < 2 ^ 64"
    by (auto simp: call_ok_def)
  have size: "unat n * qz ?q < 2 ^ 64" using qcap_of_nat(2) [OF inv cap] by simp
  have "(r \<longleftrightarrow> can_transfer ?q x n m) \<and> (\<not> r \<longrightarrow> m' = m) \<and> fifo_inv ?q m' \<and>
    load32 m' ?p = load32 m ?p \<and> (x = ReaderEnd \<longrightarrow> wrc ?q m' = wrc ?q m) \<and>
    (r \<and> x = WriterEnd \<longrightarrow> contents ?q m' = contents ?q m @ elems m d (qz ?q) (unat n)) \<and>
    (r \<and> x = ReaderEnd \<longrightarrow> contents ?q m = elems m' d (qz ?q) (unat n) @ contents ?q m')"
  proof (cases "can_transfer ?q x n m")
    case True
    show ?thesis
    proof (cases x)
      case WriterEnd
      with True att mq_write_append [OF inv buf _ wr]
      have "r" "fifo_inv ?q m'" "contents ?q m' = contents ?q m @ elems m d (qz ?q) (unat n)"
        and out: "\<And>ob i. \<not> in_range (qring ?q) (qS ?q) ob i \<Longrightarrow> \<not> in_range (qwp ?q) 8 ob i \<Longrightarrow>
          m' ob i = m ob i"
        by auto
      moreover have "load32 m' ?p = load32 m ?p"
        using fl by (intro cell32.load_unchanged out) (auto simp: flag_apart_def dest: in_range_sep)
      ultimately show ?thesis using WriterEnd True by simp
    next
      case ReaderEnd
      with True att mq_read_take [OF inv buf]
      have "r" "fifo_inv ?q m'" "elems m' d (qz ?q) (unat n) = take (unat n) (contents ?q m)"
        "contents ?q m' = drop (unat n) (contents ?q m)" "wrc ?q m' = wrc ?q m"
        and out: "\<And>ob i. \<not> in_range d (unat n * qz ?q) ob i \<Longrightarrow> \<not> in_range (qrp ?q) 8 ob i \<Longrightarrow>
          m' ob i = m ob i"
        by auto
      moreover have "load32 m' ?p = load32 m ?p"
        using fl sep by (intro cell32.load_unchanged out) (auto simp: flag_apart_def dest: in_range_sep)
      ultimately show ?thesis using ReaderEnd True by simp
    qed
  next
    case False
    then have "attempt S x m d n = Some (False, m)"
      using write_full_fails [OF inv, of n "Some d"] read_short_fails [OF inv _ size, of "Some d"]
      by (cases x) auto
    with att inv False show ?thesis by simp
  qed
  then show "r \<longleftrightarrow> can_transfer ?q x n m" "\<not> r \<Longrightarrow> m' = m" "fifo_inv ?q m'"
    "load32 m' ?p = load32 m ?p" "x = ReaderEnd \<Longrightarrow> wrc ?q m' = wrc ?q m"
    "r \<Longrightarrow> x = WriterEnd \<Longrightarrow> contents ?q m' = contents ?q m @ elems m d (qz ?q) (unat n)"
    "r \<Longrightarrow> x = ReaderEnd \<Longrightarrow> contents ?q m = elems m' d (qz ?q) (unat n) @ contents ?q m'"
    by blast+
qed

text \<open>In a consistent state an attempt does not crash.\<close>

lemma attempt_runs:
  assumes inv: "fifo_inv (bq_queue S) m" and ok: "call_ok S x d n m"
  shows "\<exists>m'. attempt S x m d n = Some (can_transfer (bq_queue S) x n m, m')"
proof -
  from ok have buf: "user_buf (bq_queue S) d (unat n)" and cap: "unat n \<le> qcap (bq_queue S)"
    and wr: "x = WriterEnd \<Longrightarrow> wrc (bq_queue S) m + unat n * qz (bq_queue S) < 2 ^ 64"
    by (auto simp: call_ok_def)
  show ?thesis
    using mq_write_append [OF inv buf _ wr] mq_read_take [OF inv buf]
      write_full_fails [OF inv, of n "Some d"]
      read_short_fails [OF inv _ qcap_of_nat(2) [OF inv cap], of "Some d"]
    by (cases x; cases "can_transfer (bq_queue S) x n m") (force+)
qed

subsection \<open>Steps on the event flag word\<close>

lemma contents_flag_store:
  assumes "fifo_inv q m" and "flag_apart q p"
  shows "contents q (store32 m p v) = contents q m"
proof -
  have "rd_bytes (store32 m p v) (ring_slot q k) (qz q) = rd_bytes m (ring_slot q k) (qz q)" for k
  proof (rule rd_bytes_unchanged, rule cell32.store_out)
    fix i assume "in_range (ring_slot q k) (qz q) (pobj (ring_slot q k)) i"
    then have "in_range (qring q) (qS q) (pobj (ring_slot q k)) i"
      by (rule ring_slot_in_ring [OF fifo_invD(1,2) [OF assms(1)]])
    then show "\<not> in_range p 4 (pobj (ring_slot q k)) i"
      using assms(2) by (auto simp: flag_apart_def dest: in_range_sep)
  qed
  then show ?thesis by (simp add: contents_def flag_store_counters [OF assms(2)])
qed

lemma ef_step_memory:
  assumes "ef_step p t f f'"
  shows "emem f' = emem f \<or> (\<exists>v. emem f' = store32 (emem f) p v)"
  using assms by cases (auto simp: atomic_fetch_or_def atomic_fetch_and_def)

lemma ef_step_queue:
  assumes "ef_step p t f f'" and "fifo_inv q (emem f)" and "flag_apart q p"
  shows "fifo_inv q (emem f')" "contents q (emem f') = contents q (emem f)"
    "wrc q (emem f') = wrc q (emem f)"
  using ef_step_memory [OF assms(1)] assms(2,3)
  by (auto simp: flag_store_inv contents_flag_store flag_store_counters)

lemma ef_step_others:
  assumes "ef_step p t f f'" and "u \<noteq> t"
  shows "thread f' u = thread f u \<or> (\<exists>b. thread f u = Asleep b \<and> thread f' u = Awake b)"
  using assms
proof cases
  case (wake_futex b)
  then show ?thesis using assms(2) by (cases "thread f u") auto
qed auto

lemma wait_begin_step:
  assumes "thread f t = Outside" "b \<noteq> 0" "wait_begin p t b f = Some f'"
  shows "ef_step p t f f'"
  using assms by (auto simp: wait_begin_def intro: ef_step.wait_and simp del: fun_upd_apply)

lemma wake_begin_step:
  assumes "thread f t = Outside" "b \<noteq> 0" "wake_begin p t b f = Some f'"
  shows "ef_step p t f f'"
  using assms by (auto simp: wake_begin_def intro: ef_step.wake_or simp del: fun_upd_apply)

lemma and_disjoint: "b AND c = 0 \<Longrightarrow> (v AND NOT b) AND c = v AND c" for b c v :: u32
  by (rule bit_eqI) (use no_common_bit in \<open>auto simp: bit_simps\<close>)

lemma and_not_none: "v AND b = 0 \<Longrightarrow> v AND NOT b = v" for b v :: u32
  by (rule bit_eqI) (use no_common_bit in \<open>auto simp: bit_simps\<close>)

text \<open>One step of \<open>wait\<close> with mask \<open>b\<close>.\<close>

lemma wait_step_effect:
  assumes b: "b \<noteq> 0"
    and st: "thread f t = Outside \<and> wait_begin p t b f = Some f' \<or>
      ((\<exists>w. thread f t = Entering b w) \<or> thread f t = Asleep b \<or> thread f t = Awake b) \<and> ef_step p t f f'"
  shows "ef_step p t f f'" "reported f f' \<noteq> 0 \<Longrightarrow> thread f' t = Outside"
    "reported f f' = 0 \<Longrightarrow> load32 (emem f') p = load32 (emem f) p"
    "thread f' t = Outside \<or> (\<exists>w. thread f' t = Entering b w) \<or> thread f' t = Asleep b \<or> thread f' t = Awake b"
    "b AND c = 0 \<Longrightarrow> load32 (emem f') p AND c = load32 (emem f) p AND c"
    "reported f f' \<noteq> 0 \<longleftrightarrow> taken f' \<noteq> taken f \<and> load32 (emem f) p AND b \<noteq> 0"
proof -
  let ?v = "load32 (emem f) p"
  show step: "ef_step p t f f'" using st wait_begin_step b by blast
  have "(emem f' = emem f \<and> taken f' = taken f \<or>
      load32 (emem f') p = ?v AND NOT b \<and> taken f' = (t, ?v AND b) # taken f \<and>
      (?v AND b \<noteq> 0 \<longrightarrow> thread f' t = Outside)) \<and>
    (thread f' t = Outside \<or> (\<exists>w. thread f' t = Entering b w) \<or> thread f' t = Asleep b \<or> thread f' t = Awake b)"
    using st
  proof
    assume "thread f t = Outside \<and> wait_begin p t b f = Some f'"
    then show ?thesis
      by (auto simp: wait_begin_def atomic_fetch_and_def cell32.load_store_same split: if_splits)
  next
    assume a: "((\<exists>w. thread f t = Entering b w) \<or> thread f t = Asleep b \<or> thread f t = Awake b) \<and>
      ef_step p t f f'"
    then have "ef_step p t f f'" by simp
    then show ?thesis
      by cases (use a in \<open>auto simp: atomic_fetch_and_def cell32.load_store_same split: if_splits\<close>)
  qed
  then show "reported f f' \<noteq> 0 \<Longrightarrow> thread f' t = Outside"
    "reported f f' = 0 \<Longrightarrow> load32 (emem f') p = ?v"
    "thread f' t = Outside \<or> (\<exists>w. thread f' t = Entering b w) \<or> thread f' t = Asleep b \<or> thread f' t = Awake b"
    "b AND c = 0 \<Longrightarrow> load32 (emem f') p AND c = ?v AND c"
    "reported f f' \<noteq> 0 \<longleftrightarrow> taken f' \<noteq> taken f \<and> ?v AND b \<noteq> 0"
    by (auto simp: reported_def and_disjoint and_not_none split: if_splits)
qed


subsection \<open>Preservation\<close>

lemma bq_invD:
  assumes "bq_inv S s"
  shows "fifo_inv (bq_queue S) (bq_mem s)" "sent s = got s @ contents (bq_queue S) (bq_mem s)"
    "phase_ok S x (phase s x) (thread (flag s) (tid x)) (bq_mem s)"
    "u \<notin> range tid \<Longrightarrow> thread (flag s) u = Outside" "announced (bq_word S) (flag s) k"
    "phase s x = Waiting d n \<Longrightarrow> can_transfer (bq_queue S) x n (bq_mem s) \<Longrightarrow>
      phase s (other_end x) = Notify \<or> bits_for S x s \<noteq> 0"
  using assms by (auto simp: bq_inv_def)

lemma goes_to_simps [simp]:
  "flag (goes_to s x ph) = flag s" "sent (goes_to s x ph) = sent s" "got (goes_to s x ph) = got s"
  "phase (goes_to s x ph) = (phase s)(x := ph)" "bq_mem (goes_to s x ph) = bq_mem s"
  "bq_mem (s\<lparr>flag := f\<rparr>) = emem f" "bits_for S y (goes_to s x ph) = bits_for S y s"
  "bits_for S y (s\<lparr>flag := f\<rparr>) = load32 (emem f) (bq_word S) AND wait_mask S y"
  by (simp_all add: goes_to_def bq_mem_def bits_for_def)

lemma can_transfer_cong: "contents q m' = contents q m \<Longrightarrow> can_transfer q x n m' = can_transfer q x n m"
  by (cases x) simp_all

lemma phase_ok_cong:
  assumes "x = WriterEnd \<Longrightarrow> wrc (bq_queue S) m' = wrc (bq_queue S) m"
  shows "phase_ok S x ph th m' = phase_ok S x ph th m"
  using assms by (cases ph) (auto simp: call_ok_def)

lemma phase_ok_woken: "phase_ok S x ph (Asleep b) m \<Longrightarrow> phase_ok S x ph (Awake b) m"
  by (cases ph) auto

text \<open>A step of an end on the event flag word.\<close>

lemma bq_inv_flag_step:
  assumes S: "setup_ok S" and inv: "bq_inv S s" and step: "ef_step (bq_word S) (tid x) (flag s) f'"
    and own: "phase_ok S x ph (thread f' (tid x)) (bq_mem s)"
    and key: "\<And>d n. ph = Waiting d n \<Longrightarrow> phase s x = Waiting d n \<and>
      load32 (emem f') (bq_word S) = load32 (bq_mem s) (bq_word S)"
    and rest: "\<And>d n. phase s (other_end x) = Waiting d n \<Longrightarrow>
      phase s x = Notify \<or> bits_for S (other_end x) s \<noteq> 0 \<Longrightarrow>
      load32 (emem f') (bq_word S) AND wait_mask S (other_end x) \<noteq> 0"
  shows "bq_inv S (goes_to (s\<lparr>flag := f'\<rparr>) x ph)"
proof -
  let ?q = "bq_queue S" and ?s = "goes_to (s\<lparr>flag := f'\<rparr>) x ph"
  note i = bq_invD [OF inv]
  have q: "fifo_inv ?q (emem f')" "contents ?q (emem f') = contents ?q (bq_mem s)"
    "wrc ?q (emem f') = wrc ?q (bq_mem s)"
    using ef_step_queue [OF step, of ?q] i(1) setup_okD(1) [OF S] by (simp_all add: bq_mem_def)
  have "phase_ok S y (phase ?s y) (thread f' (tid y)) (emem f')" for y
  proof (cases "y = x")
    case True
    then show ?thesis using own phase_ok_cong [where m = "bq_mem s" and m' = "emem f'", OF q(3)] by simp
  next
    case False
    then show ?thesis
      using ef_step_others [OF step, of "tid y"] i(3) [of y]
        phase_ok_cong [where m = "bq_mem s" and m' = "emem f'", OF q(3)]
      by (auto intro: phase_ok_woken)
  qed
  moreover have "thread f' u = Outside" if "u \<notin> range tid" for u
    using ef_step_others [OF step, of u] i(4) [OF that] that by auto
  moreover have "announced (bq_word S) f' k" for k
    using announced_step [OF step i(5)] .
  moreover have "phase ?s (other_end y) = Notify \<or> bits_for S y ?s \<noteq> 0"
    if w: "phase ?s y = Waiting d n" and c: "can_transfer ?q y n (bq_mem s)" for y d n
  proof (cases "y = x")
    case True
    then show ?thesis using w c key [of d n] i(6) [of x d n] by (auto simp: bits_for_def)
  next
    case False
    then have y: "y = other_end x" using side_cases by blast
    then show ?thesis using w c rest i(6) [of y d n] by auto
  qed
  ultimately show ?thesis
    using q i(2) can_transfer_cong [OF q(2)] by (simp add: bq_inv_def)
qed

text \<open>A step of an end that leaves the threads and the event flag word as they are.\<close>

lemma bq_inv_queue_step:
  assumes S: "setup_ok S" and inv: "bq_inv S s"
    and f': "thread f' = thread (flag s)" "load32 (emem f') (bq_word S) = load32 (bq_mem s) (bq_word S)"
    and q: "fifo_inv (bq_queue S) (emem f')" "snt = gt @ contents (bq_queue S) (emem f')"
    and wr: "x = ReaderEnd \<Longrightarrow> wrc (bq_queue S) (emem f') = wrc (bq_queue S) (bq_mem s)"
    and own: "phase_ok S x ph (thread f' (tid x)) (emem f')"
    and key: "\<And>d n. ph = Waiting d n \<Longrightarrow> \<not> can_transfer (bq_queue S) x n (emem f')"
    and rest: "ph = Notify \<or> phase s x \<noteq> Notify \<and> contents (bq_queue S) (emem f') = contents (bq_queue S) (bq_mem s)"
  shows "bq_inv S (goes_to (s\<lparr>flag := f', sent := snt, got := gt\<rparr>) x ph)" (is "bq_inv S ?s")
proof -
  let ?q = "bq_queue S"
  note i = bq_invD [OF inv]
  have mem: "bq_mem ?s = emem f'" "bits_for S y ?s = bits_for S y s" for y
    using f' by (simp_all add: bq_mem_def bits_for_def)
  have "phase_ok S y (phase ?s y) (thread f' (tid y)) (emem f')" for y
  proof (cases "y = x")
    case True
    then show ?thesis using own by simp
  next
    case False
    then have "y = WriterEnd \<Longrightarrow> wrc ?q (emem f') = wrc ?q (bq_mem s)"
      using wr by (cases x; cases y) auto
    from phase_ok_cong [OF this] False show ?thesis using i(3) [of y] f'(1) by simp
  qed
  moreover have "announced (bq_word S) f' k" for k
    using i(5) [of k] f' by (simp add: announced_def bq_mem_def)
  moreover have "phase ?s (other_end y) = Notify \<or> bits_for S y ?s \<noteq> 0"
    if w: "phase ?s y = Waiting d n" and c: "can_transfer ?q y n (emem f')" for y d n
  proof (cases "y = x")
    case True
    then show ?thesis using w c key [of d n] by auto
  next
    case False
    then have y: "y = other_end x" using side_cases by blast
    then show ?thesis
      using w c rest i(6) [of y d n] can_transfer_cong [of ?q "emem f'" "bq_mem s" y n] mem(2) [of y]
      by auto
  qed
  ultimately show ?thesis using q i(4) f'(1) mem(1) by (simp add: bq_inv_def)
qed

lemma bq_inv_attempt:
  assumes S: "setup_ok S" and inv: "bq_inv S s"
    and ph: "phase s x = Attempt d n \<or> phase s x = LastAttempt d n"
    and att: "attempt S x (bq_mem s) d n = Some (r, m')"
  shows "r \<Longrightarrow> bq_inv S (goes_to (transferred S x d n m' s) x Notify)"
    "\<not> r \<Longrightarrow> m' = bq_mem s" "r \<longleftrightarrow> can_transfer (bq_queue S) x n (bq_mem s)"
proof -
  note i = bq_invD [OF inv]
  have ok: "call_ok S x d n (bq_mem s)" and th: "thread (flag s) (tid x) = Outside"
    using ph i(3) [of x] by auto
  note e = attempt_effect [OF S i(1) ok att]
  show "\<not> r \<Longrightarrow> m' = bq_mem s" "r \<longleftrightarrow> can_transfer (bq_queue S) x n (bq_mem s)"
    using e(1,2) by auto
  assume r: "r"
  note mk = bq_inv_queue_step [OF S inv, of "(flag s)\<lparr>emem := m'\<rparr>"]
  show "bq_inv S (goes_to (transferred S x d n m' s) x Notify)"
  proof (cases x)
    case WriterEnd
    then have c: "contents (bq_queue S) m' =
        contents (bq_queue S) (bq_mem s) @ elems (bq_mem s) d (qz (bq_queue S)) (unat n)"
      using e(6) [OF r] by blast
    have "bq_inv S (goes_to (s\<lparr>flag := (flag s)\<lparr>emem := m'\<rparr>,
        sent := sent s @ elems (bq_mem s) d (qz (bq_queue S)) (unat n), got := got s\<rparr>) x Notify)"
      by (rule mk) (use e(3,4) th WriterEnd in \<open>simp_all add: i(2) c\<close>)
    then show ?thesis using WriterEnd by simp
  next
    case ReaderEnd
    then have c: "contents (bq_queue S) (bq_mem s) =
        elems m' d (qz (bq_queue S)) (unat n) @ contents (bq_queue S) m'"
      using e(7) [OF r] by blast
    have "bq_inv S (goes_to (s\<lparr>flag := (flag s)\<lparr>emem := m'\<rparr>, sent := sent s,
        got := got s @ elems m' d (qz (bq_queue S)) (unat n)\<rparr>) x Notify)"
      by (rule mk) (use e(3,4,5) th ReaderEnd in \<open>simp_all add: i(2) c\<close>)
    then show ?thesis using ReaderEnd by simp
  qed
qed

lemma flag_same: "s\<lparr>flag := (flag s)\<lparr>emem := bq_mem s\<rparr>\<rparr> = s"
  by (simp add: bq_mem_def)

lemma bq_inv_same:
  assumes "setup_ok S" "bq_inv S s" "phase_ok S x ph (thread (flag s) (tid x)) (bq_mem s)"
    and "\<And>d n. ph = Waiting d n \<Longrightarrow> \<not> can_transfer (bq_queue S) x n (bq_mem s)" "phase s x \<noteq> Notify"
  shows "bq_inv S (goes_to s x ph)"
proof -
  note i = bq_invD(1,2) [OF assms(2)]
  have "bq_inv S (goes_to (s\<lparr>flag := flag s, sent := sent s, got := got s\<rparr>) x ph)"
    by (rule bq_inv_queue_step [OF assms(1,2)])
      (use assms(3-) i(1) in \<open>simp_all add: bq_mem_def i(2) [unfolded bq_mem_def]\<close>)
  then show ?thesis by simp
qed

lemma bq_inv_wait:
  assumes S: "setup_ok S" and inv: "bq_inv S s" and ph: "phase s x = Waiting d n"
    and st: "thread (flag s) (tid x) = Outside \<and>
        wait_begin (bq_word S) (tid x) (wait_mask S x) (flag s) = Some f' \<or>
      thread (flag s) (tid x) \<noteq> Outside \<and> ef_step (bq_word S) (tid x) (flag s) f'"
  shows "bq_inv S (goes_to (s\<lparr>flag := f'\<rparr>) x
    (if reported (flag s) f' \<noteq> 0 then Attempt d n else Waiting d n))"
proof -
  have ok: "phase_ok S x (Waiting d n) (thread (flag s) (tid x)) (bq_mem s)"
    using bq_invD(3) [OF inv, of x] ph by simp
  note e = wait_step_effect [OF setup_okD(2) [OF S, of x], of "flag s" "tid x" "bq_word S" f']
  have st': "thread (flag s) (tid x) = Outside \<and>
        wait_begin (bq_word S) (tid x) (wait_mask S x) (flag s) = Some f' \<or>
      ((\<exists>w. thread (flag s) (tid x) = Entering (wait_mask S x) w) \<or>
        thread (flag s) (tid x) = Asleep (wait_mask S x) \<or> thread (flag s) (tid x) = Awake (wait_mask S x)) \<and>
      ef_step (bq_word S) (tid x) (flag s) f'"
    using st ok by auto
  note e = e [OF st']
  show ?thesis
  proof (rule bq_inv_flag_step [OF S inv e(1)])
    show "phase_ok S x (if reported (flag s) f' \<noteq> 0 then Attempt d n else Waiting d n)
      (thread f' (tid x)) (bq_mem s)"
      using ok e(2,4) by auto
  next
    fix d' n'
    assume "(if reported (flag s) f' \<noteq> 0 then Attempt d n else Waiting d n) = Waiting d' n'"
    then show "phase s x = Waiting d' n' \<and>
      load32 (emem f') (bq_word S) = load32 (bq_mem s) (bq_word S)"
      using ph e(3) by (auto simp: bq_mem_def split: if_splits)
  next
    assume "phase s x = Notify \<or> bits_for S (other_end x) s \<noteq> 0"
    then show "load32 (emem f') (bq_word S) AND wait_mask S (other_end x) \<noteq> 0"
      using ph e(5) [OF setup_okD(4) [OF S]] by (simp add: bits_for_def bq_mem_def)
  qed
qed

lemma wake_begin_bits:
  assumes "wake_begin p t b f = Some f'" and "b \<noteq> 0"
  shows "load32 (emem f') p AND b \<noteq> 0"
proof -
  have "(v OR b) AND b = b" for v by (rule bit_eqI) (auto simp: bit_simps)
  then show ?thesis
    using assms by (auto simp: wake_begin_def atomic_fetch_or_def cell32.load_store_same)
qed

lemma bq_inv_step:
  assumes S: "setup_ok S" and step: "bq_step S x s s'" and inv: "bq_inv S s"
  shows "bq_inv S s'"
  using step
proof cases
  case (call d n)
  then show ?thesis
    using bq_invD(3) [OF inv, of x] bq_inv_same [OF S inv, of x "Attempt d n"] by auto
next
  case (succeed d n m')
  then show ?thesis using bq_inv_attempt [OF S inv succeed(2,3)] by simp
next
  case (retry d n m')
  then have "m' = bq_mem s" "\<not> can_transfer (bq_queue S) x n (bq_mem s)"
    using bq_inv_attempt [OF S inv _ retry(3)] by auto
  then show ?thesis
    using bq_inv_same [OF S inv, of x "Waiting d n"] retry bq_invD(3) [OF inv, of x] by (simp add: flag_same)
next
  case (give_up d n m')
  then have "m' = bq_mem s" using bq_inv_attempt [OF S inv _ give_up(3)] by auto
  then show ?thesis
    using bq_inv_same [OF S inv, of x Between] give_up bq_invD(3) [OF inv, of x] by (simp add: flag_same)
next
  case (time_over d n)
  then show ?thesis
    using bq_invD(3) [OF inv, of x] bq_inv_same [OF S inv, of x "LastAttempt d n"] by auto
next
  case (wait_over d n)
  then show ?thesis using bq_inv_same [OF S inv, of x Between] by auto
next
  case (wait_in d n f')
  then show ?thesis using bq_inv_wait [OF S inv wait_in(2), of f'] by simp
next
  case (wait_on d n f')
  then show ?thesis using bq_inv_wait [OF S inv wait_on(2), of f'] by simp
next
  case (wait_fails d n b w)
  note st = wait_error [OF wait_fails(3), of "bq_word S"]
  show ?thesis
    unfolding wait_fails(1)
  proof (rule bq_inv_flag_step [OF S inv st])
    assume "phase s x = Notify \<or> bits_for S (other_end x) s \<noteq> 0"
    then show "load32 (emem ((flag s)\<lparr>thread := (thread (flag s))(tid x := Outside)\<rparr>)) (bq_word S) AND
      wait_mask S (other_end x) \<noteq> 0"
      using wait_fails(2) by (simp add: bits_for_def bq_mem_def)
  qed simp_all
next
  case (notify_in f')
  have th: "thread (flag s) (tid x) = Outside" using notify_in(2) bq_invD(3) [OF inv, of x] by simp
  note st = wake_begin_step [OF th setup_okD(3) [OF S] notify_in(3)]
  have w: "thread f' (tid x) = Outside \<or> thread f' (tid x) = Waking (wake_mask S x)"
    using notify_in(3) by (auto simp: wake_begin_def split: if_splits)
  have bits: "load32 (emem f') (bq_word S) AND wait_mask S (other_end x) \<noteq> 0"
    using wake_begin_bits [OF notify_in(3) setup_okD(3) [OF S]] setup_okD(5) [OF S, of x] by simp
  show ?thesis
    unfolding notify_in(1) by (rule bq_inv_flag_step [OF S inv st]) (use w bits in auto)
next
  case (notify_on f')
  have th: "thread (flag s) (tid x) = Waking (wake_mask S x)"
    using notify_on(2) bq_invD(3) [OF inv, of x] by simp
  have "emem f' = bq_mem s" "thread f' (tid x) = Outside"
    using notify_on(3) by (cases; use th in \<open>simp add: bq_mem_def\<close>)+
  then show ?thesis
    unfolding notify_on(1)
    by (intro bq_inv_flag_step [OF S inv notify_on(3)])
      (use notify_on(2) in \<open>auto simp: bits_for_def bq_mem_def\<close>)
qed

text \<open>What a step of an end leaves as it is for the other one.\<close>

lemma transferred_simps [simp]:
  "phase (transferred S x d n m' s) = phase s" "bq_mem (transferred S x d n m' s) = m'"
  "thread (flag (transferred S x d n m' s)) = thread (flag s)"
  by (cases x; simp add: bq_mem_def)+

lemma other_step_phase:
  assumes "bq_step S y s s'" and "y \<noteq> x"
  shows "phase s' x = phase s x"
  using assms by cases simp_all

lemma other_step_thread:
  assumes S: "setup_ok S" and inv: "bq_inv S s" and step: "bq_step S y s s'" and y: "y \<noteq> x"
  shows "thread (flag s') (tid x) = thread (flag s) (tid x) \<or>
    (\<exists>b. thread (flag s) (tid x) = Asleep b \<and> thread (flag s') (tid x) = Awake b)"
  using step
proof cases
  case (succeed d n m')
  then show ?thesis by (cases y) (simp_all add: goes_to_def)
next
  case (wait_in d n f')
  then show ?thesis
    using ef_step_others [OF wait_begin_step [OF wait_in(3) setup_okD(2) [OF S] wait_in(4)], of "tid x"] y
    by simp
next
  case (wait_on d n f')
  then show ?thesis using ef_step_others [OF wait_on(4), of "tid x"] y by simp
next
  case (wait_fails d n b w)
  then show ?thesis using y by simp
next
  case (notify_in f')
  then have "thread (flag s) (tid y) = Outside" using bq_invD(3) [OF inv, of y] by simp
  then show ?thesis
    using ef_step_others [OF wake_begin_step [OF _ setup_okD(3) [OF S] notify_in(3)], of "tid x"] y notify_in(1)
    by simp
next
  case (notify_on f')
  then show ?thesis using ef_step_others [OF notify_on(3), of "tid x"] y by simp
qed (simp_all add: goes_to_def)

lemma bq_inv_start: "fifo_inv (bq_queue S) m \<Longrightarrow> bq_inv S (bq_start S m)"
  by (simp add: bq_inv_def bq_start_def bq_mem_def ef_start_def announced_def)

lemma bq_reach_inv:
  assumes "bq_run S (bq_start S m) s" and "setup_ok S" and "fifo_inv (bq_queue S) m"
  shows "bq_inv S s"
  using assms(1)
  by (induction rule: rtranclp_induct) (use assms(2,3) in \<open>auto intro: bq_inv_start bq_inv_step\<close>)


section \<open>What the two ends can rely on\<close>

text \<open>
  C20. A writer and a reader that block on the same queue work on a FIFO, however their attempts, waits
  and notifications interleave: the messages sent are, in order, the ones the reader has got and the
  ones still in the queue; the counters stay consistent; no attempt crashes.
\<close>

theorem blocking_ends_in_order:
  assumes "bq_run S (bq_start S m) s" and "setup_ok S" and "fifo_inv (bq_queue S) m"
  shows "fifo_inv (bq_queue S) (bq_mem s) \<and> sent s = got s @ contents (bq_queue S) (bq_mem s) \<and>
    (\<forall>x d n. phase s x = Attempt d n \<or> phase s x = LastAttempt d n \<longrightarrow>
      (\<exists>m'. attempt S x (bq_mem s) d n = Some (can_transfer (bq_queue S) x n (bq_mem s), m')))"
proof -
  note i = bq_invD [OF bq_reach_inv [OF assms]]
  have "call_ok S x d n (bq_mem s)" if "phase s x = Attempt d n \<or> phase s x = LastAttempt d n" for x d n
    using that i(3) [of x] by auto
  then show ?thesis using i(1,2) attempt_runs [OF i(1)] by blast
qed

lemma asleep_notified:
  assumes S: "setup_ok S" and inv: "bq_inv S s" and ph: "phase s x = Waiting d n"
    and sl: "thread (flag s) (tid x) = Asleep b" and can: "can_transfer (bq_queue S) x n (bq_mem s)"
  shows "phase s (other_end x) = Notify \<or> phase s (other_end x) = Notifying"
proof (rule ccontr)
  assume no: "\<not> ?thesis"
  note i = bq_invD [OF inv]
  have b: "b = wait_mask S x" using i(3) [of x] ph sl by auto
  have "bits_for S x s \<noteq> 0" using i(6) [OF ph can] no by blast
  then obtain k where k: "bit (load32 (bq_mem s) (bq_word S)) k" "bit b k"
    by (auto simp: bits_for_def b bit_eq_iff bit_and_iff)
  obtain u c where u: "thread (flag s) u = Waking c"
    using announcedD [OF i(5) sl k(2)] k(1) by (auto simp: bq_mem_def)
  have "u \<noteq> tid x" using u sl by auto
  moreover have "u \<in> range tid"
    by (rule ccontr) (use u i(4) [of u] in simp)
  ultimately have "u = tid (other_end x)" by (rule tid_other)
  then have "phase_ok S (other_end x) (phase s (other_end x)) (Waking c) (bq_mem s)"
    using u i(3) [of "other_end x"] by simp
  then have "phase s (other_end x) = Notifying" by (cases "phase s (other_end x)") simp_all
  with no show False by blast
qed

text \<open>
  C38. Neither end sleeps without need: an end that sleeps in a blocking call whose transfer could
  succeed has the other one on the way to notify it. So both sleep only when the queue has no
  room for the writer's messages and too few for the reader, and then the two calls together ask for
  at least two messages more than the queue can hold: smaller calls never block each other for good.
\<close>

theorem blocked_ends_sleep_with_reason:
  assumes run: "bq_run S (bq_start S m) s" and S: "setup_ok S" and m: "fifo_inv (bq_queue S) m"
    and ph: "phase s x = Waiting d n" and sl: "thread (flag s) (tid x) = Asleep b"
  shows "(can_transfer (bq_queue S) x n (bq_mem s) \<longrightarrow>
      phase s (other_end x) = Notify \<or> phase s (other_end x) = Notifying) \<and>
    (\<forall>d' n' b'. phase s (other_end x) = Waiting d' n' \<and> thread (flag s) (tid (other_end x)) = Asleep b' \<longrightarrow>
      \<not> can_transfer (bq_queue S) x n (bq_mem s) \<and> \<not> can_transfer (bq_queue S) (other_end x) n' (bq_mem s) \<and>
      qcap (bq_queue S) + 2 \<le> unat n + unat n')"
proof -
  note inv = bq_reach_inv [OF run S m]
  note here = asleep_notified [OF S inv ph sl]
  have there: "\<not> can_transfer (bq_queue S) (other_end x) n' (bq_mem s)"
    if "phase s (other_end x) = Waiting d' n'" "thread (flag s) (tid (other_end x)) = Asleep b'" for d' n' b'
    using asleep_notified [OF S inv that] ph by auto
  have "qcap (bq_queue S) + 2 \<le> unat n + unat n'"
    if "\<not> can_transfer (bq_queue S) x n (bq_mem s)" "\<not> can_transfer (bq_queue S) (other_end x) n' (bq_mem s)" for n'
    using that by (cases x) auto
  moreover have "\<not> can_transfer (bq_queue S) x n (bq_mem s)"
    if "phase s (other_end x) = Waiting d' n'" for d' n'
    using that here by auto
  ultimately show ?thesis using here there by blast
qed

end
