(* ===== verification/BlockingLiveness.thy ===== *)
theory BlockingLiveness
  imports BlockingThreads
begin

unbundle bit_operations_syntax

text \<open>
  Progress of the two ends of BlockingThreads under a fair schedule: a blocked call whose transfer
  has become possible does not stay blocked.
\<close>

section \<open>Fair runs\<close>

text \<open>
  \<open>ends i\<close> is the end that runs at time \<open>i\<close>. Outside a call and asleep it may let its turn pass;
  everywhere else a turn is a step. Every end has its turn again and again.
\<close>

definition may_pass :: "side \<Rightarrow> bq_state \<Rightarrow> bool" where
  "may_pass x s \<longleftrightarrow> phase s x = Between \<or> (\<exists>b. thread (flag s) (tid x) = Asleep b)"

definition bq_fair_run :: "bq_setup \<Rightarrow> (nat \<Rightarrow> side) \<Rightarrow> (nat \<Rightarrow> bq_state) \<Rightarrow> bool" where
  "bq_fair_run S ends f \<longleftrightarrow>
     (\<forall>i. bq_step S (ends i) (f i) (f (Suc i)) \<or> may_pass (ends i) (f i) \<and> f (Suc i) = f i) \<and>
     (\<forall>x i. \<exists>j\<ge>i. ends j = x)"

text \<open>
  What holds until the turn of an end and is then turned into something else: the proof rule for
  progress under a fair schedule.
\<close>

lemma ensures:
  fixes ends :: "nat \<Rightarrow> 'e"
  assumes fair: "\<And>i. \<exists>j\<ge>i. ends j = x" and start: "P i"
    and keep: "\<And>j. i \<le> j \<Longrightarrow> P j \<Longrightarrow> P (Suc j) \<or> Q (Suc j)"
    and turn: "\<And>j. i \<le> j \<Longrightarrow> P j \<Longrightarrow> ends j = x \<Longrightarrow> Q (Suc j)"
  shows "\<exists>j\<ge>i. Q j"
proof (rule ccontr)
  assume no: "\<not> ?thesis"
  have all: "P j" if "i \<le> j" for j
    using that
  proof (induction rule: dec_induct)
    case (step j)
    then show ?case using keep [of j] no by (meson le_SucI)
  qed (rule start)
  obtain j where "i \<le> j" "ends j = x" using fair by blast
  then show False using turn [of j] all no by (meson le_SucI)
qed

lemma bq_fair_run_inv:
  assumes "bq_fair_run S ends f" and "setup_ok S" and "bq_inv S (f 0)"
  shows "bq_inv S (f i)"
  using assms by (induction i) (auto simp: bq_fair_run_def dest: bq_inv_step [rotated]  intro: bq_inv_step)

section \<open>An end that is ready to transfer\<close>

definition in_call :: "side \<Rightarrow> ptr \<Rightarrow> u64 \<Rightarrow> bq_state \<Rightarrow> bool" where
  "in_call x d n s \<longleftrightarrow> phase s x = Waiting d n \<or> phase s x = Attempt d n \<or> phase s x = LastAttempt d n"

text \<open>A step of the other end leaves the phase alone and does not make the transfer impossible.\<close>


lemma step_queue:
  assumes S: "setup_ok S" and inv: "bq_inv S s" and step: "bq_step S y s s'"
  shows "contents (bq_queue S) (bq_mem s') = contents (bq_queue S) (bq_mem s) \<or>
    (y = WriterEnd \<and> length (contents (bq_queue S) (bq_mem s)) \<le> length (contents (bq_queue S) (bq_mem s'))) \<or>
    (y = ReaderEnd \<and> length (contents (bq_queue S) (bq_mem s')) \<le> length (contents (bq_queue S) (bq_mem s)))"
proof -
  note i = bq_invD [OF inv]
  have flag_step: "contents (bq_queue S) (emem f') = contents (bq_queue S) (bq_mem s)"
    if "ef_step (bq_word S) (tid y) (flag s) f'" for f'
    using ef_step_queue(2) [OF that, of "bq_queue S"] i(1) setup_okD(1) [OF S] by (simp add: bq_mem_def)
  show ?thesis
    using step
  proof cases
    case (succeed d n m')
    then have "call_ok S y d n (bq_mem s)" using i(3) [of y] by auto
    note e = attempt_effect [OF S i(1) this succeed(3)]
    have "bq_mem s' = m'" unfolding succeed(1) by (cases y) (simp_all add: bq_mem_def goes_to_def)
    then show ?thesis using e(6,7) by (cases y) simp_all
  next
    case (retry d n m')
    then have "m' = bq_mem s" using bq_inv_attempt(2) [OF S inv _ retry(3)] by blast
    then show ?thesis using retry(1) by simp
  next
    case (give_up d n m')
    then have "m' = bq_mem s" using bq_inv_attempt(2) [OF S inv _ give_up(3)] by blast
    then show ?thesis using give_up(1) by simp
  next
    case (wait_in d n f')
    then show ?thesis
      using flag_step [OF wait_begin_step [OF wait_in(3) setup_okD(2) [OF S] wait_in(4)]] by simp
  next
    case (wait_on d n f')
    then show ?thesis using flag_step by simp
  next
    case (notify_in f')
    then have "thread (flag s) (tid y) = Outside" using i(3) [of y] by simp
    then show ?thesis
      using flag_step [OF wake_begin_step [OF _ setup_okD(3) [OF S] notify_in(3)]] notify_in(1) by simp
  next
    case (notify_on f')
    then show ?thesis using flag_step by simp
  qed (simp_all add: bq_mem_def)
qed

lemma other_step_can:
  assumes S: "setup_ok S" and inv: "bq_inv S s" and step: "bq_step S y s s'" and y: "y \<noteq> x"
    and can: "can_transfer (bq_queue S) x n (bq_mem s)"
  shows "can_transfer (bq_queue S) x n (bq_mem s')"
  using step_queue [OF S inv step] y can by (cases x; cases y) auto

text \<open>The bits of an end are cleared by nobody else.\<close>

lemma other_step_bits:
  assumes S: "setup_ok S" and inv: "bq_inv S s" and step: "bq_step S (other_end x) s s'"
  shows "phase s (other_end x) = Notify \<Longrightarrow> bits_for S x s' \<noteq> 0"
    "bits_for S x s \<noteq> 0 \<Longrightarrow> bits_for S x s' \<noteq> 0"
proof -
  let ?y = "other_end x"
  note i = bq_invD [OF inv]
  have "bits_for S x s' = bits_for S x s \<and> phase s ?y \<noteq> Notify \<or> bits_for S x s' \<noteq> 0"
    using step
  proof cases
    case (succeed d n m')
    then have "call_ok S ?y d n (bq_mem s)" using i(3) [of ?y] by auto
    from attempt_effect(4) [OF S i(1) this succeed(3)]
    have "bits_for S x (transferred S ?y d n m' s) = bits_for S x s"
      by (cases x) (simp_all add: bits_for_def bq_mem_def)
    then show ?thesis using succeed(1,2) by auto
  next
    case (retry d n m')
    then have "m' = bq_mem s" using bq_inv_attempt(2) [OF S inv _ retry(3)] by blast
    then show ?thesis using retry(1,2) by (simp add: bits_for_def)
  next
    case (give_up d n m')
    then have "m' = bq_mem s" using bq_inv_attempt(2) [OF S inv _ give_up(3)] by blast
    then show ?thesis using give_up(1,2) by (simp add: bits_for_def)
  next
    case (wait_in d n f')
    then show ?thesis
      using wait_step_effect(5) [OF setup_okD(2) [OF S, of ?y], of "flag s" "tid ?y" "bq_word S" f'
          "wait_mask S x"] setup_okD(4) [OF S, of ?y]
      by (simp add: bits_for_def bq_mem_def)
  next
    case (wait_on d n f')
    then show ?thesis
      using wait_step_effect(5) [OF setup_okD(2) [OF S, of ?y], of "flag s" "tid ?y" "bq_word S" f'
          "wait_mask S x"] setup_okD(4) [OF S, of ?y] i(3) [of ?y]
      by (auto simp: bits_for_def bq_mem_def)
  next
    case (notify_in f')
    then show ?thesis
      using wake_begin_bits [OF notify_in(3) setup_okD(3) [OF S]] setup_okD(5) [OF S, of ?y] by simp
  next
    case (notify_on f')
    have th: "thread (flag s) (tid ?y) = Waking (wake_mask S ?y)" using notify_on(2) i(3) [of ?y] by simp
    have "emem f' = bq_mem s" using notify_on(3) by cases (use th in \<open>simp_all add: bq_mem_def\<close>)
    then show ?thesis using notify_on(1,2) by (simp add: bits_for_def)
  qed (simp_all add: bits_for_def bq_mem_def)
  then show "phase s ?y = Notify \<Longrightarrow> bits_for S x s' \<noteq> 0"
    "bits_for S x s \<noteq> 0 \<Longrightarrow> bits_for S x s' \<noteq> 0" by auto
qed

text \<open>A turn of the end itself while the transfer is possible.\<close>

lemma own_step:
  assumes S: "setup_ok S" and inv: "bq_inv S s" and call: "in_call x d n s"
    and can: "can_transfer (bq_queue S) x n (bq_mem s)" and step: "bq_step S x s s'"
  shows "phase s' x = Notify \<or> phase s x = Waiting d n \<and>
    (phase s' x = Between \<or> in_call x d n s' \<and>
      contents (bq_queue S) (bq_mem s') = contents (bq_queue S) (bq_mem s))"
proof -
  note i = bq_invD [OF inv]
  have flag_step: "contents (bq_queue S) (emem f') = contents (bq_queue S) (bq_mem s)"
    if "ef_step (bq_word S) (tid x) (flag s) f'" for f'
    using ef_step_queue(2) [OF that, of "bq_queue S"] i(1) setup_okD(1) [OF S] by (simp add: bq_mem_def)
  show ?thesis
    using step
  proof cases
    case (retry d' n' m')
    then have "n' = n" using call by (simp add: in_call_def)
    then show ?thesis using bq_inv_attempt(3) [OF S inv _ retry(3)] retry(2) can by simp
  next
    case (give_up d' n' m')
    then have "n' = n" using call by (simp add: in_call_def)
    then show ?thesis using bq_inv_attempt(3) [OF S inv _ give_up(3)] give_up(2) can by simp
  next
    case (wait_in d' n' f')
    then show ?thesis
      using call flag_step [OF wait_begin_step [OF wait_in(3) setup_okD(2) [OF S] wait_in(4)]]
      by (auto simp: in_call_def)
  next
    case (wait_on d' n' f')
    then show ?thesis using call flag_step [OF wait_on(4)] by (auto simp: in_call_def)
  qed (use call in \<open>auto simp: in_call_def\<close>)
qed

text \<open>A turn of the end itself in \<open>wait\<close> with a bit set.\<close>

lemma own_wait_step:
  assumes S: "setup_ok S" and inv: "bq_inv S s" and ph: "phase s x = Waiting d n"
    and bits: "bits_for S x s \<noteq> 0" and step: "bq_step S x s s'"
    and stay: "phase s' x = Waiting d n"
  shows "bits_for S x s' \<noteq> 0"
    "thread (flag s) (tid x) = Asleep (wait_mask S x) \<or>
     thread (flag s) (tid x) \<noteq> Outside \<and> thread (flag s') (tid x) = Outside"
proof -
  let ?b = "wait_mask S x" and ?f = "flag s"
  have ok: "phase_ok S x (Waiting d n) (thread ?f (tid x)) (bq_mem s)"
    using bq_invD(3) [OF inv, of x] ph by simp
  have "bits_for S x s' \<noteq> 0 \<and> (thread ?f (tid x) = Asleep ?b \<or>
      thread ?f (tid x) \<noteq> Outside \<and> thread (flag s') (tid x) = Outside)"
    using step
  proof cases
    case (wait_in d' n' f')
    then have "taken f' \<noteq> taken ?f" by (auto simp: wait_begin_def)
    then have "reported ?f f' \<noteq> 0"
      using wait_step_effect(6) [OF setup_okD(2) [OF S, of x], of ?f "tid x" "bq_word S" f'] wait_in bits
      by (simp add: bits_for_def bq_mem_def)
    then show ?thesis using stay wait_in(1) by simp
  next
    case (wait_on d' n' f')
    have st: "thread ?f (tid x) = Outside \<and> wait_begin (bq_word S) (tid x) ?b ?f = Some f' \<or>
      ((\<exists>w. thread ?f (tid x) = Entering ?b w) \<or> thread ?f (tid x) = Asleep ?b \<or>
        thread ?f (tid x) = Awake ?b) \<and> ef_step (bq_word S) (tid x) ?f f'"
      using ok wait_on(3,4) by auto
    note e = wait_step_effect [OF setup_okD(2) [OF S, of x] st]
    have r: "reported ?f f' = 0" using stay wait_on(1) by (auto split: if_splits)
    then have load: "load32 (emem f') (bq_word S) = load32 (bq_mem s) (bq_word S)" and t: "taken f' = taken ?f"
      using e(3,6) bits by (auto simp: bits_for_def bq_mem_def)
    have "thread ?f (tid x) = Asleep ?b \<or> thread f' (tid x) = Outside"
      using wait_on(4)
    proof cases
      case (wait_futex b w)
      then have "b = ?b" using ok by auto
      have "\<not> (bit w k \<and> bit b k)" for k
        using bq_invD(5) [OF inv, of k] wait_futex(2) unfolding announced_def by blast
      then have "w AND ?b = 0" by (intro bit_eqI) (auto simp: \<open>b = ?b\<close> bit_simps)
      then have "load32 (emem ?f) (bq_word S) \<noteq> w" using bits by (auto simp: bits_for_def bq_mem_def)
      then show ?thesis using wait_futex(1) by simp
    qed (use ok wait_on(3) t in auto)
    then show ?thesis using load bits wait_on(1,3) by (auto simp: bits_for_def)
  qed (use ph stay in auto)
  then show "bits_for S x s' \<noteq> 0" "thread ?f (tid x) = Asleep ?b \<or>
     thread ?f (tid x) \<noteq> Outside \<and> thread (flag s') (tid x) = Outside" by auto
qed


section \<open>A blocked call ends\<close>

lemma fair_runD:
  assumes "bq_fair_run S ends f"
  shows "\<exists>j\<ge>i. ends j = x" "bq_step S (ends i) (f i) (f (Suc i)) \<or> may_pass (ends i) (f i) \<and> f (Suc i) = f i"
  using assms by (auto simp: bq_fair_run_def)

text \<open>What holds of an end in a blocking call whose transfer is possible, from one time to the next.\<close>

lemma ready_step:
  assumes S: "setup_ok S" and inv: "bq_inv S (f i)" and run: "bq_fair_run S ends f"
    and call: "in_call x d n (f i)" and can: "can_transfer (bq_queue S) x n (bq_mem (f i))"
  shows "phase (f (Suc i)) x = Notify \<or> phase (f i) x = Waiting d n \<and> phase (f (Suc i)) x = Between \<or>
    in_call x d n (f (Suc i)) \<and> can_transfer (bq_queue S) x n (bq_mem (f (Suc i))) \<and>
    (phase (f i) x \<noteq> Waiting d n \<longrightarrow> ends i \<noteq> x \<and> phase (f (Suc i)) x = phase (f i) x)"
  using fair_runD(2) [OF run, of i]
proof
  assume step: "bq_step S (ends i) (f i) (f (Suc i))"
  show ?thesis
  proof (cases "ends i = x")
    case True
    then have own: "bq_step S x (f i) (f (Suc i))" using step by simp
    show ?thesis
      using own_step [OF S inv call can own]
        can_transfer_cong [of "bq_queue S" "bq_mem (f (Suc i))" "bq_mem (f i)" x n] can
      by blast
  next
    case False
    then show ?thesis
      using other_step_phase [OF step] other_step_can [OF S inv step _ can] call by (auto simp: in_call_def)
  qed
next
  assume pass: "may_pass (ends i) (f i) \<and> f (Suc i) = f i"
  have "ends i \<noteq> x" if "phase (f i) x \<noteq> Waiting d n"
    using that call pass bq_invD(3) [OF inv, of x] by (auto simp: in_call_def may_pass_def)
  then show ?thesis using pass call can by auto
qed

lemma notify_turn:
  assumes "bq_step S y s s'"
  shows "phase s y = Notify \<Longrightarrow> phase s' y = Between \<or> phase s' y = Notifying"
    "phase s y = Notifying \<Longrightarrow> phase s' y = Between"
  using assms by (auto elim!: bq_stepE split: if_splits)

definition asleep :: "side \<Rightarrow> bq_state \<Rightarrow> bool" where
  "asleep x s \<longleftrightarrow> (\<exists>b. thread (flag s) (tid x) = Asleep b)"

lemma waiting_turn:
  assumes S: "setup_ok S" and inv: "bq_inv S (f i)" and run: "bq_fair_run S ends f"
    and ph: "phase (f i) x = Waiting d n" "phase (f (Suc i)) x = Waiting d n"
    and bits: "bits_for S x (f i) \<noteq> 0"
  shows "bits_for S x (f (Suc i)) \<noteq> 0"
    "\<not> asleep x (f i) \<Longrightarrow> \<not> asleep x (f (Suc i))"
    "\<not> asleep x (f i) \<Longrightarrow> ends i = x \<Longrightarrow>
      thread (flag (f i)) (tid x) \<noteq> Outside \<and> thread (flag (f (Suc i))) (tid x) = Outside"
    "thread (flag (f i)) (tid x) = Outside \<Longrightarrow> ends i \<noteq> x \<Longrightarrow> thread (flag (f (Suc i))) (tid x) = Outside"
proof -
  have "bits_for S x (f (Suc i)) \<noteq> 0 \<and> (\<not> asleep x (f i) \<longrightarrow> \<not> asleep x (f (Suc i))) \<and>
    (\<not> asleep x (f i) \<longrightarrow> ends i = x \<longrightarrow>
      thread (flag (f i)) (tid x) \<noteq> Outside \<and> thread (flag (f (Suc i))) (tid x) = Outside) \<and>
    (thread (flag (f i)) (tid x) = Outside \<longrightarrow> ends i \<noteq> x \<longrightarrow> thread (flag (f (Suc i))) (tid x) = Outside)"
    using fair_runD(2) [OF run, of i]
  proof
    assume step: "bq_step S (ends i) (f i) (f (Suc i))"
    show ?thesis
    proof (cases "ends i = x")
      case True
      then have "bq_step S x (f i) (f (Suc i))" using step by simp
      from own_wait_step [OF S inv ph(1) bits this ph(2)] True show ?thesis by (auto simp: asleep_def)
    next
      case False
      then have e: "ends i = other_end x" using side_cases by blast
      from other_step_thread [OF S inv step False] show ?thesis
        using other_step_bits(2) [OF S inv step [unfolded e] bits] False
        by (elim disjE exE) (simp_all add: asleep_def)
    qed
  next
    assume "may_pass (ends i) (f i) \<and> f (Suc i) = f i"
    then show ?thesis using bits ph by (auto simp: asleep_def may_pass_def)
  qed
  then show "bits_for S x (f (Suc i)) \<noteq> 0"
    "\<not> asleep x (f i) \<Longrightarrow> \<not> asleep x (f (Suc i))"
    "\<not> asleep x (f i) \<Longrightarrow> ends i = x \<Longrightarrow>
      thread (flag (f i)) (tid x) \<noteq> Outside \<and> thread (flag (f (Suc i))) (tid x) = Outside"
    "thread (flag (f i)) (tid x) = Outside \<Longrightarrow> ends i \<noteq> x \<Longrightarrow> thread (flag (f (Suc i))) (tid x) = Outside"
    by blast+
qed

text \<open>The end cannot wait for ever: the steps of a waiting end with a bit set lead out of \<open>wait\<close>.\<close>

lemma not_waiting_for_ever:
  assumes S: "setup_ok S" and inv: "\<And>j. bq_inv S (f j)" and run: "bq_fair_run S ends f"
    and wait: "\<And>j. i \<le> j \<Longrightarrow> phase (f j) x = Waiting d n"
    and can: "\<And>j. i \<le> j \<Longrightarrow> can_transfer (bq_queue S) x n (bq_mem (f j))"
  shows False
proof -
  let ?y = "other_end x"
  note turns = fair_runD(1) [OF run]
  have y_phase: "phase (f (Suc j)) ?y = phase (f j) ?y" if "ends j = x" for j
    using fair_runD(2) [OF run, of j] that other_step_phase [of S x "f j" "f (Suc j)" ?y] by auto
  have y_moves: "bq_step S ?y (f j) (f (Suc j))" if "ends j = ?y" "phase (f j) ?y = Notify \<or> phase (f j) ?y = Notifying" for j
    using fair_runD(2) [OF run, of j] that bq_invD(3) [OF inv, of ?y j] by (auto simp: may_pass_def)
  have "\<exists>j\<ge>i. bits_for S x (f j) \<noteq> 0"
  proof (cases "bits_for S x (f i) = 0")
    case True
    then have "phase (f i) ?y = Notify" using bq_invD(6) [OF inv wait [of i] can [of i]] by auto
    then show ?thesis
    proof (rule ensures [where ends = ends and x = ?y, OF turns])
      fix j assume j: "phase (f j) ?y = Notify"
      show bits: "bits_for S x (f (Suc j)) \<noteq> 0" if "ends j = ?y"
        using other_step_bits(1) [OF S inv y_moves [OF that] j] j by simp
      show "phase (f (Suc j)) ?y = Notify \<or> bits_for S x (f (Suc j)) \<noteq> 0"
        using j y_phase [of j] bits side_cases [of "ends j" x] by auto
    qed
  qed auto
  then obtain j0 where j0: "i \<le> j0" "bits_for S x (f j0) \<noteq> 0" by blast
  have bits: "bits_for S x (f j) \<noteq> 0" if "j0 \<le> j" for j
    using that
  proof (induction rule: dec_induct)
    case (step j)
    then show ?case using waiting_turn(1) [OF S inv run wait wait] j0(1) by simp
  qed (rule j0(2))
  note turn = waiting_turn [OF S inv run wait wait bits]
  have notified: "phase (f j) ?y = Notify \<or> phase (f j) ?y = Notifying" if "i \<le> j" "asleep x (f j)" for j
    using that asleep_notified [OF S inv wait [of j] _ can [of j]] by (auto simp: asleep_def)
  have "\<exists>j\<ge>j0. \<not> asleep x (f j)"
  proof (rule ccontr)
    assume no: "\<not> ?thesis"
    then have told: "phase (f j) ?y = Notify \<or> phase (f j) ?y = Notifying" if "j0 \<le> j" for j
      using notified [of j] j0(1) that by auto
    have "\<exists>j\<ge>j0. phase (f j) ?y = Notifying"
    proof (rule ensures [where ends = ends and x = ?y and P = "\<lambda>j. True", OF turns])
      fix j assume j: "j0 \<le> j" "ends j = ?y"
      then show "phase (f (Suc j)) ?y = Notifying"
        using notify_turn [OF y_moves [OF j(2) told [OF j(1)]]] told [of j] told [of "Suc j"] by auto
    qed simp_all
    then obtain j1 where j1: "j0 \<le> j1" "phase (f j1) ?y = Notifying" by blast
    have "\<exists>j\<ge>j1. False"
    proof (rule ensures [where ends = ends and x = ?y and P = "\<lambda>j. phase (f j) ?y = Notifying", OF turns])
      fix j assume j: "j1 \<le> j" "phase (f j) ?y = Notifying"
      show turn: False if "ends j = ?y"
        using notify_turn(2) [OF y_moves [OF that] j(2)] told [of "Suc j"] j j1(1) by auto
      show "phase (f (Suc j)) ?y = Notifying \<or> False"
        using j(2) y_phase [of j] turn side_cases [of "ends j" x] by auto
    qed (rule j1(2))
    then show False by blast
  qed
  then obtain j1 where j1: "j0 \<le> j1" "\<not> asleep x (f j1)" by blast
  have "\<exists>j\<ge>j1. thread (flag (f j)) (tid x) = Outside"
    by (rule ensures [where ends = ends and x = x and P = "\<lambda>j. \<not> asleep x (f j)", OF turns])
      (use j0 j1 turn in auto)
  then obtain j2 where j2: "j1 \<le> j2" "thread (flag (f j2)) (tid x) = Outside" by blast
  have "\<exists>j\<ge>j2. False"
  proof (rule ensures [where ends = ends and x = x and P = "\<lambda>j. thread (flag (f j)) (tid x) = Outside", OF turns])
    fix j assume j: "j2 \<le> j" "thread (flag (f j)) (tid x) = Outside"
    then have "i \<le> j" "i \<le> Suc j" "j0 \<le> j" using j0(1) j1(1) j2(1) by auto
    note t = turn [OF this]
    have "\<not> asleep x (f j)" using j(2) by (simp add: asleep_def)
    then show "ends j = x \<Longrightarrow> False" using t(3) j(2) by blast
    then show "thread (flag (f (Suc j))) (tid x) = Outside \<or> False" using t(4) j(2) by blast
  qed (rule j2(2))
  then show False by blast
qed


text \<open>
  C40. Progress under a fair schedule: a blocking call whose transfer has become possible does not stay
  blocked. It ends with the transfer, after which it notifies the other end, unless its time is up
  or its \<open>wait\<close> reports an error; no notification gets lost between a failed attempt and the sleep.
\<close>

theorem blocked_call_ends:
  assumes "setup_ok S" and "fifo_inv (bq_queue S) m" and "f 0 = bq_start S m"
    and "bq_fair_run S ends f"
    and "phase (f i) x = Waiting d n" and "can_transfer (bq_queue S) x n (bq_mem (f i))"
  shows "\<exists>j\<ge>i. (\<forall>k. i \<le> k \<and> k \<le> j \<longrightarrow> in_call x d n (f k)) \<and>
    (phase (f (Suc j)) x = Notify \<or> phase (f j) x = Waiting d n \<and> phase (f (Suc j)) x = Between)"
proof (rule ccontr)
  assume no: "\<not> ?thesis"
  note S = assms(1) and run = assms(4)
  have inv: "bq_inv S (f j)" for j
    using bq_fair_run_inv [OF run S] bq_inv_start [OF assms(2)] assms(3) by simp
  have all: "(\<forall>k. i \<le> k \<and> k \<le> j \<longrightarrow> in_call x d n (f k)) \<and> can_transfer (bq_queue S) x n (bq_mem (f j))"
    if "i \<le> j" for j
    using that
  proof (induction rule: dec_induct)
    case base
    then show ?case using assms(5,6) by (metis in_call_def le_antisym)
  next
    case (step j)
    then have "in_call x d n (f (Suc j)) \<and> can_transfer (bq_queue S) x n (bq_mem (f (Suc j)))"
      using ready_step [OF S inv run, of x d n j] no by blast
    then show ?case using step.IH by (auto simp: le_Suc_eq)
  qed
  have ready: "in_call x d n (f j)" "can_transfer (bq_queue S) x n (bq_mem (f j))" if "i \<le> j" for j
    using all [OF that] that by auto
  have stay: "phase (f j) x = Waiting d n" if "i \<le> j" for j
  proof (rule ccontr)
    assume other: "phase (f j) x \<noteq> Waiting d n"
    have "\<exists>k\<ge>j. False"
    proof (rule ensures [where ends = ends and x = x and P = "\<lambda>k. phase (f k) x \<noteq> Waiting d n"])
      fix k assume k: "j \<le> k" "phase (f k) x \<noteq> Waiting d n"
      have "i \<le> k" using k(1) that by simp
      then have "\<not> phase (f (Suc k)) x = Notify" using no all [of k] by blast
      then have "ends k \<noteq> x \<and> phase (f (Suc k)) x = phase (f k) x"
        using ready_step [OF S inv run ready, of k] k that by auto
      then show "phase (f (Suc k)) x \<noteq> Waiting d n \<or> False" "ends k = x \<Longrightarrow> False"
        using k(2) by auto
    qed (use fair_runD(1) [OF run] other in auto)
    then show False by blast
  qed
  show False
    using not_waiting_for_ever [OF S inv run stay ready(2)] by blast
qed

end
