(* ===== verification/BlockingCalls.thy ===== *)
theory BlockingCalls
  imports BlockingThreads EventFlagCalls
begin

unbundle bit_operations_syntax

text \<open>
  The functions \<open>writeBlocking\<close> and \<open>readBlocking\<close> of BlockingOps are sequences of the steps of one
  end, with calls of the other end at the system calls. So what is proved of all interleavings of
  the steps holds of the functions.
\<close>

section \<open>Where a call has come to\<close>


fun moved :: "side \<Rightarrow> bq_state \<Rightarrow> u8 list list" where
  "moved WriterEnd s = sent s"
| "moved ReaderEnd s = got s"


lemma moved_simps [simp]:
  "moved x (goes_to s y ph) = moved x s" "moved x (s\<lparr>flag := f\<rparr>) = moved x s"
  "length (moved x (transferred S x d n m' s)) = length (moved x s) + unat n"
  "y \<noteq> x \<Longrightarrow> moved x (transferred S y d n m' s) = moved x s"
  by (cases x; cases y; simp add: goes_to_def)+







section \<open>The steps of a call\<close>



lemma reported_thread [simp]: "reported f (f\<lparr>thread := g\<rparr>) = 0"
  by (simp add: reported_def)









section \<open>The functions\<close>
















end
