(* ===== verification/BlockingExamples.thy ===== *)
theory BlockingExamples
  imports BlockingLiveness BlockingCalls SystemExamples
begin

text \<open>
  Witnesses for the two ends that block on the same queue: the reader asks for more messages than there
  are and falls asleep, then the writer writes the missing one.
\<close>

unbundle bit_operations_syntax

section \<open>A run\<close>

definition ex_setup :: bq_setup where
  "ex_setup = \<lparr>bq_queue = ex_sync, bq_word = ex_word, bq_readNotification = 1, bq_writeNotification = 2\<rparr>"

lemma ex_setup_simps [simp]:
  "bq_queue ex_setup = ex_sync" "bq_word ex_setup = ex_word" "bq_readNotification ex_setup = 1"
  "bq_writeNotification ex_setup = 2"
  by (simp_all add: ex_setup_def)

lemma ex_setup_ok: "setup_ok ex_setup"
  by (simp add: setup_ok_def flag_apart_def sep_def ex_word_def)

lemma ex_call_ok:
  assumes "unat n \<le> 3" and "wrc ex_sync m = 10"
  shows "call_ok ex_setup x ex_buf n m"
proof -
  have "sep ex_word 4 ex_buf (unat n * 2)" by (simp add: sep_def ex_word_def ex_buf_def)
  then show ?thesis using assms by (simp add: call_ok_def ex_user_buf)
qed

lemma ex_word_0: "load32 (ex_mem 6 10) ex_word = 0"
  by (simp add: load32_def rd_bytes_def ex_mem_def wr_bytes_def ex_buf_def ex_word_def upt_rec)

lemma bq_run_more: "bq_run S s a \<Longrightarrow> \<exists>x. bq_step S x a b \<Longrightarrow> bq_run S s b"
  by (rule rtranclp.rtrancl_into_rtrancl)

text \<open>The reader sleeps in a call for three messages; the writer has just written the third.\<close>

lemma ex_blocked:
  "\<exists>s. bq_run ex_setup (bq_start ex_setup (ex_mem 6 10)) s \<and> phase s ReaderEnd = Waiting ex_buf 3 \<and>
    thread (flag s) (tid ReaderEnd) = Asleep 2 \<and> phase s WriterEnd = Notify \<and>
    sent s = [[1, 2], [3, 4], [7, 8]] \<and> contents ex_sync (bq_mem s) = [[1, 2], [3, 4], [7, 8]]"
proof -
  let ?S = ex_setup and ?m = "ex_mem 6 10"
  let ?step = "\<lambda>s s'. \<exists>x. bq_step ?S x s s'"
  let ?s0 = "bq_start ?S ?m"
  have s0: "phase ?s0 x = Between" "bq_mem ?s0 = ?m" "thread (flag ?s0) u = Outside" "sent ?s0 = [[1, 2], [3, 4]]" for x u
    by (simp_all add: bq_start_def bq_mem_def ef_start_def ex_contents)
  have ok: "call_ok ?S x ex_buf 3 ?m" "call_ok ?S x ex_buf 1 ?m" for x
    by (simp_all add: ex_call_ok ex_counters)
  define s1 where "s1 = goes_to ?s0 ReaderEnd (Attempt ex_buf 3)"
  have 1: "?step ?s0 s1" unfolding s1_def using call [of ?s0 ReaderEnd ?S ex_buf 3] s0 ok by auto
  have "attempt ?S ReaderEnd ?m ex_buf 3 = Some (False, ?m)"
    using read_short_fails [OF ex_fifo_6_10, of 3] by (simp add: ex_contents)
  then have a1: "attempt ?S ReaderEnd (bq_mem s1) ex_buf 3 = Some (False, bq_mem s1)"
    by (simp add: s1_def s0)
  define s2 where "s2 = goes_to s1 ReaderEnd (Waiting ex_buf 3)"
  have 2: "?step s1 s2"
  proof -
    have "phase s1 ReaderEnd = Attempt ex_buf 3" by (simp add: s1_def)
    from retry [OF this a1] show ?thesis unfolding flag_same s2_def by blast
  qed
  obtain f3 where f3: "wait_begin ex_word 1 2 (flag s2) = Some f3" "emem f3 = ?m" "thread f3 1 = Entering 2 0"
    "thread f3 0 = Outside" "reported (flag s2) f3 = 0"
    using s0(2,3) ex_word_0 store32_load32 [of ?m ex_word]
    by (auto simp: wait_begin_def atomic_fetch_and_def reported_def s2_def s1_def bq_mem_def)
  define s3 where "s3 = goes_to (s2\<lparr>flag := f3\<rparr>) ReaderEnd (Waiting ex_buf 3)"
  have 3: "?step s2 s3"
    unfolding s3_def using wait_in [of s2 ReaderEnd ex_buf 3 ?S f3] f3 s0(3)
    by (auto simp: s2_def s1_def)
  define f4 where "f4 = f3\<lparr>thread := (thread f3)(1 := Asleep 2)\<rparr>"
  have "ef_step ex_word 1 f3 f4"
    unfolding f4_def using wait_futex [OF f3(3), of ex_word] f3(2) ex_word_0 by simp
  define s4 where "s4 = goes_to (s3\<lparr>flag := f4\<rparr>) ReaderEnd (Waiting ex_buf 3)"
  have 4: "?step s3 s4"
    unfolding s4_def using wait_on [of s3 ReaderEnd ex_buf 3 ?S f4] \<open>ef_step ex_word 1 f3 f4\<close> f3(3)
    by (auto simp: s3_def f4_def)
  have s4: "phase s4 WriterEnd = Between" "phase s4 ReaderEnd = Waiting ex_buf 3" "bq_mem s4 = ?m"
    "thread (flag s4) 1 = Asleep 2" "sent s4 = [[1, 2], [3, 4]]"
    using s0 by (simp_all add: s4_def s3_def s2_def s1_def f4_def f3(2))
  define s5 where "s5 = goes_to s4 WriterEnd (Attempt ex_buf 1)"
  have 5: "?step s4 s5" unfolding s5_def using call [OF s4(1), of ?S ex_buf 1] s4(3) ok by auto
  obtain m6 where m6: "attempt ?S WriterEnd ?m ex_buf 1 = Some (True, m6)"
    "contents ex_sync m6 = [[1, 2], [3, 4], [7, 8]]"
    using mq_write_append [OF ex_fifo_6_10 ex_user_buf, of 1]
    by (auto simp: ex_contents ex_counters ex_buf_elems)
  define s6 where "s6 = goes_to (transferred ?S WriterEnd ex_buf 1 m6 s5) WriterEnd Notify"
  have 6: "?step s5 s6"
    unfolding s6_def using succeed [of s5 WriterEnd ex_buf 1 ?S m6] m6(1) s4(3) by (auto simp: s5_def)
  note go = bq_run_more
  have "?step\<^sup>*\<^sup>* ?s0 s6" by (rule go [OF go [OF go [OF go [OF go [OF go [OF rtranclp.rtrancl_refl 1] 2] 3] 4] 5] 6])
  moreover have "phase s6 WriterEnd = Notify" "phase s6 ReaderEnd = Waiting ex_buf 3"
    "thread (flag s6) 1 = Asleep 2" "bq_mem s6 = m6"
    using s4 by (simp_all add: s6_def s5_def del: transferred.simps)
  moreover have "sent s6 = [[1, 2], [3, 4], [7, 8]]"
    using s4 by (simp add: s6_def s5_def ex_buf_elems)
  ultimately show ?thesis using m6(2) by (intro exI [of _ s6]) simp
qed

theorem blocking_ends_in_order_witness:
  "\<exists>s. bq_run ex_setup (bq_start ex_setup (ex_mem 6 10)) s \<and> phase s WriterEnd = Notify \<and>
    sent s = [[1, 2], [3, 4], [7, 8]] \<and> sent s = got s @ contents ex_sync (bq_mem s)"
proof -
  obtain s where s: "bq_run ex_setup (bq_start ex_setup (ex_mem 6 10)) s" "phase s WriterEnd = Notify"
    "sent s = [[1, 2], [3, 4], [7, 8]]" using ex_blocked by blast
  have "fifo_inv (bq_queue ex_setup) (ex_mem 6 10)" by (simp add: ex_fifo_6_10)
  from blocking_ends_in_order [OF s(1) ex_setup_ok this]
  have "sent s = got s @ contents ex_sync (bq_mem s)" by simp
  with s show ?thesis by blast
qed

theorem blocked_ends_sleep_with_reason_witness:
  "\<exists>s. bq_run ex_setup (bq_start ex_setup (ex_mem 6 10)) s \<and> thread (flag s) 1 = Asleep 2 \<and>
    can_transfer ex_sync ReaderEnd 3 (bq_mem s) \<and>
    (phase s WriterEnd = Notify \<or> phase s WriterEnd = Notifying)"
proof -
  obtain s where s: "bq_run ex_setup (bq_start ex_setup (ex_mem 6 10)) s"
    "phase s ReaderEnd = Waiting ex_buf 3" "thread (flag s) (tid ReaderEnd) = Asleep 2"
    "contents ex_sync (bq_mem s) = [[1, 2], [3, 4], [7, 8]]" using ex_blocked by blast
  have "can_transfer ex_sync ReaderEnd 3 (bq_mem s)" using s(4) by simp
  then show ?thesis
    using blocked_ends_sleep_with_reason [OF s(1) ex_setup_ok _ s(2,3)] s(1,3) by (auto simp: ex_fifo_6_10)
qed


section \<open>Fair runs\<close>

text \<open>Every end can return from its call by steps of its own.\<close>

definition can_return :: "bq_setup \<Rightarrow> side \<Rightarrow> bq_state \<Rightarrow> bool" where
  "can_return S x s \<longleftrightarrow> (\<exists>s'. bq_run S s s' \<and> bq_inv S s' \<and> phase s' x = Between \<and>
     phase s' (other_end x) = phase s (other_end x))"

lemma can_return_step:
  assumes "bq_step S x s s1" and "phase s1 (other_end x) = phase s (other_end x)" and "can_return S x s1"
  shows "can_return S x s"
proof -
  obtain s' where s': "bq_run S s1 s'" "bq_inv S s'" "phase s' x = Between"
    "phase s' (other_end x) = phase s1 (other_end x)"
    using assms(3) by (auto simp: can_return_def)
  have "bq_run S s s'" by (rule converse_rtranclp_into_rtranclp [OF _ s'(1)]) (use assms(1) in blast)
  then show ?thesis using s' assms(2) by (auto simp: can_return_def)
qed

lemma can_return_Between: "bq_inv S s \<Longrightarrow> phase s x = Between \<Longrightarrow> can_return S x s"
  by (auto simp: can_return_def)

lemma end_returns:
  assumes S: "setup_ok S"
  shows "bq_inv S s \<Longrightarrow> can_return S x s"
proof -
  have one: "can_return S x s"
    if "bq_inv S s" "bq_step S x s s1" "bq_inv S s1 \<Longrightarrow> can_return S x s1" for s s1
    using can_return_step [OF that(2)] other_step_phase [OF that(2), of "other_end x"] that(3)
      bq_inv_step [OF S that(2,1)] by simp
  have notifying: "can_return S x s" if "bq_inv S s" "phase s x = Notifying" for s
  proof -
    have "thread (flag s) (tid x) = Waking (wake_mask S x)" using bq_invD(3) [OF that(1), of x] that(2) by simp
    from notify_on [OF that(2) wake_futex [OF this]] show ?thesis
      by (rule one [OF that(1)]) (simp add: can_return_Between)
  qed
  have notify: "can_return S x s" if i: "bq_inv S s" "phase s x = Notify" for s
  proof -
    obtain f' where "wake_begin (bq_word S) (tid x) (wake_mask S x) (flag s) = Some f'"
      by (simp add: wake_begin_def atomic_fetch_or_def)
    from notify_in [OF i(2) this] show ?thesis
      by (rule one [OF i(1)]) (auto intro: can_return_Between notifying split: if_splits)
  qed
  have outside: "can_return S x s"
    if "bq_inv S s" "phase s x = Waiting d n" "thread (flag s) (tid x) = Outside" for s d n
    using one [OF that(1) wait_over [OF that(2,3)]] by (simp add: can_return_Between)
  have attempt: "can_return S x s" if i: "bq_inv S s" "phase s x = Attempt d n \<or> phase s x = LastAttempt d n" for s d n
  proof -
    have ok: "call_ok S x d n (bq_mem s)" "thread (flag s) (tid x) = Outside"
      using bq_invD(3) [OF i(1), of x] i(2) by auto
    obtain r m' where a: "attempt S x (bq_mem s) d n = Some (r, m')"
      using attempt_runs [OF bq_invD(1) [OF i(1)] ok(1)] by blast
    show ?thesis
    proof (cases r)
      case True
      then have "attempt S x (bq_mem s) d n = Some (True, m')" using a by simp
      from succeed [OF i(2) this] show ?thesis by (rule one [OF i(1)]) (simp add: notify)
    next
      case False
      then have a: "attempt S x (bq_mem s) d n = Some (False, m')" using a by simp
      from i(2) show ?thesis
      proof
        assume "phase s x = Attempt d n"
        from retry [OF this a] show ?thesis
          by (rule one [OF i(1)]) (use ok(2) in \<open>auto intro: outside\<close>)
      next
        assume "phase s x = LastAttempt d n"
        from give_up [OF this a] show ?thesis
          by (rule one [OF i(1)]) (simp add: can_return_Between)
      qed
    qed
  qed
  have waiting: "can_return S x s" if i: "bq_inv S s" "phase s x = Waiting d n" for s d n
  proof (cases "thread (flag s) (tid x)")
    case (Awake b)
    obtain f' where f': "ef_step (bq_word S) (tid x) (flag s) f'" "thread f' (tid x) = Outside"
      using wait_awake [OF Awake, of "bq_word S"] by (auto simp: atomic_fetch_and_def)
    have "thread (flag s) (tid x) \<noteq> Outside" using Awake by simp
    from wait_on [OF i(2) this f'(1)] show ?thesis
      by (rule one [OF i(1)]) (use f'(2) in \<open>auto intro: attempt outside split: if_splits\<close>)
  next
    case (Entering b w)
    then have "thread (flag s) (tid x) = Entering b w \<or> thread (flag s) (tid x) = Asleep b" by simp
    from wait_fails [OF i(2) this] show ?thesis
      by (rule one [OF i(1)]) (simp add: can_return_Between)
  next
    case (Asleep b)
    then have "thread (flag s) (tid x) = Entering b w \<or> thread (flag s) (tid x) = Asleep b" for w by simp
    from wait_fails [OF i(2) this] show ?thesis
      by (rule one [OF i(1)]) (simp add: can_return_Between)
  qed (use outside [OF i] bq_invD(3) [OF i(1), of x] i(2) in auto)
  show "can_return S x s" if "bq_inv S s" for s
    using notifying [OF that] notify [OF that] attempt [OF that] waiting [OF that] can_return_Between [OF that]
    by (cases "phase s x") auto
qed

lemma fair_run_stay:
  assumes "\<And>x. phase s x = Between"
  shows "bq_fair_run S (\<lambda>i. if even i then WriterEnd else ReaderEnd) (\<lambda>_. s)"
proof -
  have "\<exists>j\<ge>i. (if even j then WriterEnd else ReaderEnd) = x" for x and i :: nat
    by (rule exI [of _ "if even i = (x = WriterEnd) then i else Suc i"]) (cases x; auto)
  then show ?thesis using assms by (simp add: bq_fair_run_def may_pass_def)
qed

lemma fair_run_cons:
  assumes "bq_step S x s (f 0)" and "bq_fair_run S ends f"
  shows "bq_fair_run S (case_nat x ends) (case_nat s f)"
proof -
  have "\<exists>j\<ge>i. case_nat x ends j = y" for y i
  proof -
    obtain j where "j \<ge> i" "ends j = y" using assms(2) unfolding bq_fair_run_def by blast
    then show ?thesis by (intro exI [of _ "Suc j"]) simp
  qed
  then show ?thesis using assms by (auto simp: bq_fair_run_def split: nat.split)
qed

lemma fair_run_extend:
  assumes "bq_run S s t" and "bq_fair_run S ends f" and "f 0 = t"
  shows "\<exists>ends f i. bq_fair_run S ends f \<and> f 0 = s \<and> f i = t"
  using assms(1)
proof (induction rule: converse_rtranclp_induct)
  case base
  then show ?case using assms(2,3) by blast
next
  case (step s s1)
  then obtain x ends f i where "bq_step S x s (f 0)" "bq_fair_run S ends f" "f i = t" by blast
  then show ?case
    using fair_run_cons [of S x s f ends] by (intro exI [of _ "case_nat x ends"] exI [of _ "case_nat s f"]
        exI [of _ "Suc i"]) simp
qed

lemma fair_run_through:
  assumes S: "setup_ok S" and run: "bq_run S s0 s" and inv: "bq_inv S s"
  shows "\<exists>ends f i. bq_fair_run S ends f \<and> f 0 = s0 \<and> f i = s"
proof -
  obtain s1 where s1: "bq_run S s s1" "bq_inv S s1" "phase s1 WriterEnd = Between"
    using end_returns [OF S inv, of WriterEnd] by (auto simp: can_return_def)
  obtain s2 where s2: "bq_run S s1 s2" "phase s2 ReaderEnd = Between" "phase s2 WriterEnd = Between"
    using end_returns [OF S s1(2), of ReaderEnd] s1(3) by (auto simp: can_return_def)
  have "phase s2 x = Between" for x using s2(2,3) by (cases x) simp_all
  from fair_run_stay [OF this] obtain ends f where f: "bq_fair_run S ends f" "f 0 = s2" by blast
  have "bq_run S s s2" using s1(1) s2(1) by (rule rtranclp_trans)
  from fair_run_extend [OF this f] obtain ends f where f: "bq_fair_run S ends f" "f 0 = s" by blast
  from fair_run_extend [OF run f] show ?thesis .
qed

theorem blocked_call_ends_witness:
  "\<exists>ends f i j. bq_fair_run ex_setup ends f \<and> phase (f i) ReaderEnd = Waiting ex_buf 3 \<and> i \<le> j \<and>
    (phase (f (Suc j)) ReaderEnd = Notify \<or> phase (f (Suc j)) ReaderEnd = Between)"
proof -
  obtain s where s: "bq_run ex_setup (bq_start ex_setup (ex_mem 6 10)) s"
    "phase s ReaderEnd = Waiting ex_buf 3" "contents ex_sync (bq_mem s) = [[1, 2], [3, 4], [7, 8]]"
    using ex_blocked by blast
  have i: "fifo_inv (bq_queue ex_setup) (ex_mem 6 10)" by (simp add: ex_fifo_6_10)
  obtain ends f i where f: "bq_fair_run ex_setup ends f" "f 0 = bq_start ex_setup (ex_mem 6 10)" "f i = s"
    using fair_run_through [OF ex_setup_ok s(1) bq_reach_inv [OF s(1) ex_setup_ok i]] by blast
  have "phase (f i) ReaderEnd = Waiting ex_buf 3" "can_transfer (bq_queue ex_setup) ReaderEnd 3 (bq_mem (f i))"
    using f(3) s(2,3) by simp_all
  from blocked_call_ends [OF ex_setup_ok i f(2,1) this] show ?thesis using f(1,3) s(2) by blast
qed


section \<open>A call while the other end works\<close>










end
