(* ===== verification/FuzzHarness.thy ===== *)
theory FuzzHarness
  imports AidlHandover QueueThreads
begin

text \<open>
  Model of the reader and writer of fuzzer/fmq_fuzzer.cpp, which drive a queue of 32-bit
  messages with random data and overwrite each other's counters on purpose. The provider of the
  data (\<open>FuzzedDataProvider\<close> of LLVM) is a parameter. What the harness is there to show is proved:
  whatever the data and the counters, the loops end, and no access leaves the ring.
\<close>

section \<open>The data provider\<close>

text \<open>
  \<open>ConsumeInRange\<close> stands for \<open>ConsumeIntegralInRange\<close> and, with the whole range of a type, for
  \<open>ConsumeIntegral\<close>; \<open>ConsumeIntInRange\<close> for the same with a signed type; a payload is a 32-bit value.
\<close>

record 'd provider =
  remaining_bytes :: "'d \<Rightarrow> nat"
  ConsumeInRange :: "'d \<Rightarrow> u64 \<Rightarrow> u64 \<Rightarrow> u64 \<times> 'd"
  ConsumeIntInRange :: "'d \<Rightarrow> int \<Rightarrow> int \<Rightarrow> int \<times> 'd"
  ConsumePayload :: "'d \<Rightarrow> u32 \<times> 'd"

text \<open>
  What is documented: a value of the range; data are used up and never come back; a
  range of more than one value uses some while there are any.
\<close>

definition uses :: "'d provider \<Rightarrow> 'd \<Rightarrow> 'd \<Rightarrow> bool" where
  "uses P d d' \<longleftrightarrow> remaining_bytes P d' \<le> remaining_bytes P d \<and>
     (0 < remaining_bytes P d \<longrightarrow> remaining_bytes P d' < remaining_bytes P d)"

definition provider_ok :: "'d provider \<Rightarrow> bool" where
  "provider_ok P \<longleftrightarrow>
     (\<forall>d lo hi. lo \<le> hi \<longrightarrow> lo \<le> fst (ConsumeInRange P d lo hi) \<and> fst (ConsumeInRange P d lo hi) \<le> hi \<and>
       remaining_bytes P (snd (ConsumeInRange P d lo hi)) \<le> remaining_bytes P d \<and>
       (lo < hi \<longrightarrow> uses P d (snd (ConsumeInRange P d lo hi)))) \<and>
     (\<forall>d lo hi. lo \<le> hi \<longrightarrow> lo \<le> fst (ConsumeIntInRange P d lo hi) \<and> fst (ConsumeIntInRange P d lo hi) \<le> hi \<and>
       remaining_bytes P (snd (ConsumeIntInRange P d lo hi)) \<le> remaining_bytes P d) \<and>
     (\<forall>d. uses P d (snd (ConsumePayload P d)))"

section \<open>Counters behind the ring\<close>

text \<open>
  The address of a counter, computed from the ring: back to the start of the shared memory and
  forward by the counter's offset. \<open>None\<close> is an address before the start of the object.
\<close>

definition createCounterPtr :: "ptr option \<Rightarrow> u32 \<Rightarrow> u32 \<Rightarrow> ptr option" where
  "createCounterPtr start off data_offset = do {
     p \<leftarrow> start;
     if unat data_offset \<le> poff p
     then Some (Ptr (pobj p) (poff p - unat data_offset + unat off)) else None
   }"

text \<open>The variants for the descriptors of HIDL and of AIDL, whose offsets are signed.\<close>

definition getCounterPtr_hidl :: "ptr option \<Rightarrow> MQDescriptor \<Rightarrow> nat \<Rightarrow> ptr option" where
  "getCounterPtr_hidl start desc grantorIndx =
     (if grantorIndx < length (mGrantors desc) \<and> DATAPTRPOS < length (mGrantors desc)
      then createCounterPtr start (offset (mGrantors desc ! grantorIndx))
             (offset (mGrantors desc ! DATAPTRPOS))
      else None)"

definition getCounterPtr_aidl :: "ptr option \<Rightarrow> AidlMQDescriptor \<Rightarrow> nat \<Rightarrow> ptr option" where
  "getCounterPtr_aidl start desc grantorIndx =
     (if grantorIndx < length (a_grantors desc) \<and> DATAPTRPOS < length (a_grantors desc)
      then createCounterPtr start (ucast (a_offset (a_grantors desc ! grantorIndx)))
             (ucast (a_offset (a_grantors desc ! DATAPTRPOS)))
      else None)"

section \<open>The loops\<close>

text \<open>The other side's counter is overwritten when there is no user supplied file and a byte is 1.\<close>

definition corrupt ::
  "'d provider \<Rightarrow> bool \<Rightarrow> ptr option \<Rightarrow> 'd \<Rightarrow> mem \<Rightarrow> ('d \<times> mem) option" where
  "corrupt P userFd counter fdp m =
     (if userFd then Some (fdp, m) else do {
        let (b, fdp1) = ConsumeInRange P fdp 0 255;
        if b = 1 then do {
          c \<leftarrow> counter;
          let (v, fdp2) = ConsumeInRange P fdp1 0 (- 1);
          Some (fdp2, store64 m c v)
        } else Some (fdp1, m)
      })"

text \<open>
  One round of \<open>reader\<close> and of \<open>writer\<close>; the last component is the address that \<open>firstStart\<close> is
  dereferenced at, if it is.
\<close>

definition reader_round ::
  "'d provider \<Rightarrow> u64 \<Rightarrow> MessageQueue \<Rightarrow> ptr option \<Rightarrow> bool \<Rightarrow> 'd \<Rightarrow> mem \<Rightarrow> ('d \<times> mem \<times> ptr option) option"
where
  "reader_round P kMaxNumElements readMq writeCounter userFd fdp m = do {
     let (numElements, fdp1) = ConsumeInRange P fdp 0 kMaxNumElements;
     (ok, tx, m1) \<leftarrow> beginRead readMq m numElements;
     if \<not> ok then Some (fdp1, m1, None) else do {
       (fdp2, m2) \<leftarrow> corrupt P userFd writeCounter fdp1 m1;
       firstStart \<leftarrow> address (first tx);
       (done, m3) \<leftarrow> commitRead readMq m2 numElements;
       Some (fdp2, m3, Some firstStart)
     }
   }"

definition writer_round ::
  "'d provider \<Rightarrow> MessageQueue \<Rightarrow> ptr option \<Rightarrow> bool \<Rightarrow> 'd \<Rightarrow> mem \<Rightarrow> ('d \<times> mem \<times> ptr option) option" where
  "writer_round P writeMq readCounter userFd fdp m = do {
     (ok, tx) \<leftarrow> beginWrite writeMq m 1 emptyMemTransaction;
     if \<not> ok then (let (b, fdp1) = ConsumeInRange P fdp 0 255 in Some (fdp1, m, None)) else do {
       (fdp1, m1) \<leftarrow> corrupt P userFd readCounter fdp m;
       firstStart \<leftarrow> address (first tx);
       let (v, fdp2) = ConsumePayload P fdp1;
       (done, m2) \<leftarrow> commitWrite writeMq (store32 m1 firstStart v) 1;
       Some (fdp2, m2, Some firstStart)
     }
   }"

text \<open>The loop of both: rounds while there are data. The addresses used are collected.\<close>

fun while_data ::
  "nat \<Rightarrow> 'd provider \<Rightarrow> ('d \<Rightarrow> mem \<Rightarrow> ('d \<times> mem \<times> ptr option) option) \<Rightarrow> 'd \<Rightarrow> mem \<Rightarrow>
   (mem \<times> ptr list) fuelled option" where
  "while_data 0 P round fdp m = Some NoFuel"
| "while_data (Suc n) P round fdp m =
     (if remaining_bytes P fdp = 0 then Some (Done (m, [])) else do {
        (fdp', m', used) \<leftarrow> round fdp m;
        rest \<leftarrow> while_data n P round fdp' m';
        case rest of
          NoFuel \<Rightarrow> Some NoFuel
        | Done (m'', ps) \<Rightarrow> Some (Done (m'', (case used of None \<Rightarrow> ps | Some p \<Rightarrow> p # ps)))
      })"

definition reader_loop ::
  "nat \<Rightarrow> 'd provider \<Rightarrow> u64 \<Rightarrow> MessageQueue \<Rightarrow> AidlMQDescriptor \<Rightarrow> bool \<Rightarrow> 'd \<Rightarrow> mem \<Rightarrow>
   (mem \<times> ptr list) fuelled option" where
  "reader_loop n P kMaxNumElements readMq desc userFd =
     while_data n P (reader_round P kMaxNumElements readMq
       (getCounterPtr_aidl (mRing readMq) desc WRITEPTRPOS) userFd)"

definition writer_loop ::
  "nat \<Rightarrow> 'd provider \<Rightarrow> MessageQueue \<Rightarrow> AidlMQDescriptor \<Rightarrow> bool \<Rightarrow> 'd \<Rightarrow> mem \<Rightarrow>
   (mem \<times> ptr list) fuelled option" where
  "writer_loop n P writeMq desc userFd =
     while_data n P (writer_round P writeMq (getCounterPtr_aidl (mRing writeMq) desc READPTRPOS) userFd)"

section \<open>The rounds stay inside the queue\<close>

text \<open>
  \<open>keeps\<close>: nothing changes but the pieces named. \<open>in_slot\<close>: a message at this address lies in the ring.
\<close>

definition keeps :: "(ptr \<times> nat) list \<Rightarrow> mem \<Rightarrow> mem \<Rightarrow> bool" where
  "keeps ps m m' \<longleftrightarrow> (\<forall>ob i. (\<forall>(p, n) \<in> set ps. \<not> in_range p n ob i) \<longrightarrow> m' ob i = m ob i)"

definition in_slot :: "MessageQueue \<Rightarrow> ptr \<Rightarrow> bool" where
  "in_slot q p \<longleftrightarrow> pobj p = pobj (qring q) \<and> poff (qring q) \<le> poff p \<and>
     poff p + qz q \<le> poff (qring q) + qS q"

lemma keeps_refl [simp]: "keeps ps m m" by (simp add: keeps_def)

lemma keeps_trans: "keeps ps m m' \<Longrightarrow> keeps ps m' m'' \<Longrightarrow> keeps ps m m''" by (simp add: keeps_def)

lemma keeps_store64: "(p, 8) \<in> set ps \<Longrightarrow> keeps ps m (store64 m p v)"
  by (force simp: keeps_def intro: cell64.store_out)

lemma in_slot_keeps:
  assumes "in_slot q p" and "(qring q, qS q) \<in> set ps" and "qz q = 4"
  shows "keeps ps m (store32 m p v)"
proof -
  have "\<not> in_range p 4 ob i" if "\<not> in_range (qring q) (qS q) ob i" for ob i
    using that assms(1,3) by (auto simp: in_slot_def in_range_def)
  then show ?thesis using assms(2) by (force simp: keeps_def intro: cell32.store_out)
qed

lemma first_in_slot:
  assumes wf: "mq_wf q" and whole: "mq_whole q" and al: "qz q dvd unat pos"
  obtains p where "address (first (ring_tx q pos n)) = Some p" "in_slot q p"
proof -
  let ?o = "unat pos mod qS q"
  have "qz q dvd ?o" "qz q dvd qS q" using al whole by (simp_all add: dvd_mod mq_whole_def)
  then obtain a b where ab: "?o = qz q * a" "qS q = qz q * b" by (auto elim!: dvdE)
  moreover have "?o < qS q" using mq_wf_sizes(5) [OF wf] by simp
  ultimately have "qz q * a < qz q * b" by linarith
  then have "qz q * Suc a \<le> qz q * b" by (metis Suc_leI mult_le_mono2 mult_less_cancel1)
  then have "?o + qz q \<le> qS q" using ab by simp
  then have "in_slot q (padd (qring q) ?o)" by (simp add: in_slot_def)
  moreover have "address (first (ring_tx q pos n)) = Some (padd (qring q) ?o)"
    using mq_wf_ptrs(2) [OF wf] by (simp add: ring_tx_first badd_def unat_mod qS_def)
  ultimately show thesis using that by blast
qed

lemma corrupt_ok:
  assumes P: "provider_ok P" and c: "userFd \<or> counter = Some c"
  obtains d' m' where "corrupt P userFd counter d m = Some (d', m')"
    "remaining_bytes P d' \<le> remaining_bytes P d" "keeps [(c, 8)] m m'"
proof (cases userFd)
  case True
  then show ?thesis using that [of d m] by (simp add: corrupt_def)
next
  case False
  obtain b d1 where b: "ConsumeInRange P d 0 255 = (b, d1)" by fastforce
  obtain v d2 where v: "ConsumeInRange P d1 0 (- 1) = (v, d2)" by fastforce
  have "remaining_bytes P d1 \<le> remaining_bytes P d" "remaining_bytes P d2 \<le> remaining_bytes P d1"
    using P b v unfolding provider_ok_def by (metis snd_conv word_zero_le)+
  then show ?thesis
    using that [of d1 m] that [of d2 "store64 m c v"] False b v c
    by (cases "b = 1") (simp_all add: corrupt_def keeps_store64)
qed

text \<open>A round that is fine: it returns, uses data up, touches only its pieces and stays in the ring.\<close>

definition round_ok ::
  "'d provider \<Rightarrow> MessageQueue \<Rightarrow> (ptr \<times> nat) list \<Rightarrow> ('d \<Rightarrow> mem \<Rightarrow> ('d \<times> mem \<times> ptr option) option) \<Rightarrow> bool"
where
  "round_ok P q ps round \<longleftrightarrow> (\<forall>d m. 0 < remaining_bytes P d \<longrightarrow>
     (\<exists>d' m' u. round d m = Some (d', m', u) \<and> remaining_bytes P d' < remaining_bytes P d \<and>
       keeps ps m m' \<and> (\<forall>p. u = Some p \<longrightarrow> in_slot q p)))"

lemma provider_okD:
  assumes "provider_ok P"
  shows "lo \<le> hi \<Longrightarrow> fst (ConsumeInRange P d lo hi) \<le> hi"
    "lo < hi \<Longrightarrow> uses P d (snd (ConsumeInRange P d lo hi))"
  using assms by (simp_all add: provider_ok_def)

lemma consume_range:
  assumes "provider_ok P" and "lo < hi" and "ConsumeInRange P d lo hi = (v, d')"
  shows "v \<le> hi" "uses P d d'"
  using provider_okD [OF assms(1), of lo hi d] assms(2,3) by simp_all

lemma beginRead_some:
  assumes "mq_wf q"
  obtains ok tx m' where "beginRead q m n = Some (ok, tx, m')"
  using beginRead_eq [OF assms, of m n] by (metis prod_cases3)

lemma beginWrite_some:
  assumes "mq_wf q"
  obtains ok tx where "beginWrite q m n r = Some (ok, tx)"
  using beginWrite_eq [OF assms, of m n r] by (metis surj_pair)

lemma commitRead_some:
  assumes "mq_wf q"
  obtains ok m' where "commitRead q m n = Some (ok, m')"
  using commitRead_eq [OF assms, of m n] by (metis surj_pair)

lemma reader_round_ok:
  assumes P: "provider_ok P" and wf: "mq_wf q" and whole: "mq_whole q"
    and k: "0 < k" and c: "userFd \<or> counter = Some c"
  shows "round_ok P q [(qrp q, 8), (c, 8)] (reader_round P k q counter userFd)"
  unfolding round_ok_def
proof (intro allI impI)
  fix d m assume data: "0 < remaining_bytes P d"
  let ?ps = "[(qrp q, 8), (c, 8)]"
  obtain n d1 where n: "ConsumeInRange P d 0 k = (n, d1)" by fastforce
  have d1: "remaining_bytes P d1 < remaining_bytes P d"
    using consume_range(2) [OF P k n] data by (simp add: uses_def)
  obtain ok tx m1 where b: "beginRead q m n = Some (ok, tx, m1)" by (rule beginRead_some [OF wf])
  have m1: "keeps ?ps m m1" using b by (auto simp: beginRead_eq [OF wf] keeps_store64 split: if_splits)
  show "\<exists>d' m' u. reader_round P k q counter userFd d m = Some (d', m', u) \<and>
      remaining_bytes P d' < remaining_bytes P d \<and> keeps ?ps m m' \<and> (\<forall>p. u = Some p \<longrightarrow> in_slot q p)"
  proof (cases ok)
    case True
    then have tx: "tx = ring_tx q (load64 m (qrp q)) n" "qz q dvd unat (load64 m (qrp q))"
      using b by (auto simp: beginRead_eq [OF wf] rdc_def split: if_splits)
    obtain p where p: "address (first tx) = Some p" "in_slot q p"
      using first_in_slot [OF wf whole tx(2)] unfolding tx(1) by blast
    obtain d2 m2 where cr: "corrupt P userFd counter d1 m1 = Some (d2, m2)"
      "remaining_bytes P d2 \<le> remaining_bytes P d1" "keeps [(c, 8)] m1 m2" by (rule corrupt_ok [OF P c])
    obtain r m3 where cm: "commitRead q m2 n = Some (r, m3)" by (rule commitRead_some [OF wf])
    have "keeps ?ps m2 m3" using cm by (auto simp: commitRead_eq [OF wf] keeps_store64 split: if_splits)
    moreover have "keeps ?ps m1 m2" using cr(3) by (simp add: keeps_def)
    ultimately have "keeps ?ps m m3" using m1 keeps_trans by blast
    then show ?thesis using n b True cr(1,2) p cm d1 by (simp add: reader_round_def)
  next
    case False
    then show ?thesis using n b d1 m1 by (simp add: reader_round_def)
  qed
qed

lemma writer_round_ok:
  assumes P: "provider_ok P" and wf: "mq_wf q" and whole: "mq_whole q" and z: "qz q = 4"
    and c: "userFd \<or> counter = Some c"
  shows "round_ok P q [(qring q, qS q), (qwp q, 8), (c, 8)] (writer_round P q counter userFd)"
  unfolding round_ok_def
proof (intro allI impI)
  fix d m assume data: "0 < remaining_bytes P d"
  let ?ps = "[(qring q, qS q), (qwp q, 8), (c, 8)]"
  obtain ok tx where b: "beginWrite q m 1 emptyMemTransaction = Some (ok, tx)"
    by (rule beginWrite_some [OF wf])
  show "\<exists>d' m' u. writer_round P q counter userFd d m = Some (d', m', u) \<and>
      remaining_bytes P d' < remaining_bytes P d \<and> keeps ?ps m m' \<and> (\<forall>p. u = Some p \<longrightarrow> in_slot q p)"
  proof (cases ok)
    case True
    then have tx: "tx = ring_tx q (load64 m (qwp q)) 1" "qz q dvd unat (load64 m (qwp q))"
      using b by (auto simp: beginWrite_eq [OF wf] wrc_def split: if_splits)
    obtain p where p: "address (first tx) = Some p" "in_slot q p"
      using first_in_slot [OF wf whole tx(2)] unfolding tx(1) by blast
    obtain d1 m1 where cr: "corrupt P userFd counter d m = Some (d1, m1)"
      "remaining_bytes P d1 \<le> remaining_bytes P d" "keeps [(c, 8)] m m1" by (rule corrupt_ok [OF P c])
    obtain v d2 where v: "ConsumePayload P d1 = (v, d2)" by fastforce
    then have "uses P d1 d2" using P unfolding provider_ok_def by (metis snd_conv)
    then have less: "remaining_bytes P d2 < remaining_bytes P d"
      using cr(2) data by (auto simp: uses_def)
    let ?m2 = "store32 m1 p v"
    have "keeps ?ps m m1" using cr(3) by (simp add: keeps_def)
    moreover have "keeps ?ps m1 ?m2" by (rule in_slot_keeps [OF p(2) _ z]) simp
    moreover have "keeps ?ps ?m2 (store64 ?m2 (qwp q) w)" for w by (rule keeps_store64) simp
    ultimately have "keeps ?ps m (store64 ?m2 (qwp q) w)" for w using keeps_trans by blast
    then show ?thesis
      using b True cr(1) p v less by (simp add: writer_round_def commitWrite_store [OF wf])
  next
    case False
    obtain x d1 where x: "ConsumeInRange P d 0 255 = (x, d1)" by fastforce
    have "remaining_bytes P d1 < remaining_bytes P d"
      using consume_range(2) [OF P _ x] data by (simp add: uses_def)
    then show ?thesis using b False x by (simp add: writer_round_def)
  qed
qed

lemma while_data_ok:
  assumes r: "round_ok P q ps round"
  shows "remaining_bytes P d < n \<Longrightarrow>
    \<exists>m' us. while_data n P round d m = Some (Done (m', us)) \<and> keeps ps m m' \<and> (\<forall>p \<in> set us. in_slot q p)"
proof (induction n arbitrary: d m)
  case (Suc n)
  show ?case
  proof (cases "remaining_bytes P d = 0")
    case False
    then obtain d' m1 u where u: "round d m = Some (d', m1, u)" "remaining_bytes P d' < remaining_bytes P d"
      "keeps ps m m1" "\<forall>p. u = Some p \<longrightarrow> in_slot q p"
      using r unfolding round_ok_def by blast
    with Suc.prems have "remaining_bytes P d' < n" by simp
    from Suc.IH [OF this, of m1] obtain m' us where i: "while_data n P round d' m1 = Some (Done (m', us))"
      "keeps ps m1 m'" "\<forall>p \<in> set us. in_slot q p" by blast
    have "keeps ps m m'" using u(3) i(2) by (rule keeps_trans)
    then show ?thesis using False u(1,4) i(1,3) by (cases u) simp_all
  qed simp
qed simp

text \<open>
  The reader and the writer of the fuzzer end, after at most one round per byte of data, whatever the
  data, the counters and the counter values they write over each other's: nobody dereferences
  null, every message is read and written in the ring, and nothing else changes than the ring, the thread's
  own counter and the counter it means to overwrite.
\<close>

theorem fuzz_loops_stay_inside:
  assumes "provider_ok P" and "mq_wf q" and "mq_whole q" and "sizeofT q = 4" and "0 < kMaxNumElements"
    and "userFd \<or> getCounterPtr_aidl (mRing q) desc READPTRPOS = Some cr \<and>
      getCounterPtr_aidl (mRing q) desc WRITEPTRPOS = Some cw"
    and "remaining_bytes P d < n"
  shows "(\<exists>m' ps. reader_loop n P kMaxNumElements q desc userFd d m = Some (Done (m', ps)) \<and>
      keeps [(qrp q, 8), (cw, 8)] m m' \<and> (\<forall>p \<in> set ps. in_slot q p)) \<and>
    (\<exists>m' ps. writer_loop n P q desc userFd d m = Some (Done (m', ps)) \<and>
      keeps [(qring q, qS q), (qwp q, 8), (cr, 8)] m m' \<and> (\<forall>p \<in> set ps. in_slot q p))"
proof -
  have z: "qz q = 4" using assms(4) by (simp add: qz_def)
  note r = reader_round_ok [OF assms(1-3,5), where userFd = userFd and c = cw]
    and w = writer_round_ok [OF assms(1-3) z, where userFd = userFd and c = cr]
  show ?thesis
    unfolding reader_loop_def writer_loop_def
    using while_data_ok [OF r assms(7)] while_data_ok [OF w assms(7)] assms(6) by blast
qed

section \<open>The counters it means to overwrite\<close>

lemma createCounterPtr_eq:
  "createCounterPtr (Some (Ptr ob (unat data_off))) off data_off = Some (Ptr ob (unat off))"
  by (simp add: createCounterPtr_def)

lemma same_file_counter:
  assumes d: "initialized os d q" and g: "mGrantors d = size_layout S ev" and f: "mmap_by_file os file"
    and h: "mHandle d = Some h" "handle_wf h"
  obtains k where "mRing q = Some (Ptr (Shm k) 16)" "mWritePtr q = Some (Ptr (Shm k) 8)"
    "flavor q = kSynchronizedReadWrite \<Longrightarrow> mReadPtr q = Some (Ptr (Shm k) 0)"
proof -
  let ?k = "map file (handle_fds h) ! 0"
  have place: "p = Ptr (Shm ?k) (unat (offset (mGrantors d ! i)))"
    if "grantor_mapped os d i p" "fdIndex (mGrantors d ! i) = 0" for i p
    using mapped_place [OF that(1) f h] that(2) by simp
  have "mRing q = Some (Ptr (Shm ?k) 16)" "mWritePtr q = Some (Ptr (Shm ?k) 8)"
    "flavor q = kSynchronizedReadWrite \<Longrightarrow> mReadPtr q = Some (Ptr (Shm ?k) 0)"
    using d unfolding initialized_def by (auto simp: g size_layout_def dest!: place)
  then show thesis by (rule that)
qed

text \<open>
  For a queue in the library's own file the address that the harness computes from the ring is the
  counter's: of the write counter always, of the read counter for the synchronized flavor, from the AIDL
  and from the HIDL descriptor. (For the unsynchronized flavor the shared read counter is not used.)
\<close>

lemma counter_ptr_exact:
  assumes "AidlMessageQueue_of_size os U sz n ev (- 1) bs w = Some (q, w1)" and "isValid q"
    and "system_ok os" and "mmap_by_file os file" and "mDesc q = Some d"
    and "dupeDesc os (Some d) u = Some (a, u')"
  shows "getCounterPtr_aidl (mRing q) a WRITEPTRPOS = mWritePtr q \<and>
    getCounterPtr_hidl (mRing q) d WRITEPTRPOS = mWritePtr q \<and>
    (U = SynchronizedReadWrite \<longrightarrow>
      getCounterPtr_aidl (mRing q) a READPTRPOS = mReadPtr q \<and>
      getCounterPtr_hidl (mRing q) d READPTRPOS = mReadPtr q)"
proof -
  let ?fl = "FlavorTypeToValue U"
  have c: "MessageQueueBase_of_size Shim os ?fl sz n ev (- 1) bs w = Some (q, w1)"
    using assms(1) by (simp add: AidlMessageQueue_of_size_def)
  obtain d' h where i: "initialized os d' q" and fl: "flavor q = ?fl"
    and qd: "queue_descriptor Shim ?fl sz (n * sz) ev False h = Some d'" and h: "handle_wf h"
    by (rule shim.of_size_valid [OF assms(3) c assms(2)]) (rule that, simp_all)
  have d': "d' = d" using i assms(5) by (simp add: initialized_def)
  have "mGrantors d \<noteq> []"
    using i by (auto simp: d' initialized_def countGrantors_def kMinGrantorCount_def)
  then have g: "mGrantors d = size_layout (n * sz) ev"
    using qd by (auto simp: d' queue_descriptor_def shim_of_size_eq split: if_splits)
  have a: "a_grantors a = map dupe_grantor (mGrantors d)"
    using assms(6) by (auto simp: dupeDesc_def split: prod.splits bind_splits)
  obtain k where k: "mRing q = Some (Ptr (Shm k) 16)" "mWritePtr q = Some (Ptr (Shm k) 8)"
    "flavor q = kSynchronizedReadWrite \<Longrightarrow> mReadPtr q = Some (Ptr (Shm k) 0)"
    using same_file_counter [OF i [unfolded d'] g assms(4) made_for_handle(1) [OF qd [unfolded d']] h]
    by blast
  show ?thesis
    using k fl
    by (cases U) (simp_all add: getCounterPtr_aidl_def getCounterPtr_hidl_def a g size_layout_def
        dupe_grantor_def createCounterPtr_def)
qed

end
