(* ===== verification/FuzzBlocking.thy ===== *)
theory FuzzBlocking
  imports FuzzHarness BlockingQueue
begin

text \<open>
  The blocking reader and writer of fuzzer/fmq_fuzzer.cpp, which call \<open>readBlocking\<close> and
  \<open>writeBlocking\<close> with random counts, 0 and one more than the capacity included. The vector of a call is
  a buffer of the thread, null when the vector is empty; then the copy is refused and the call waits until its
  time is used up. The counts of unfinished readers and writers are what the thread sees of
  the others. Proved is that every call returns and leaves a consistent queue, so both loops end.
\<close>

section \<open>The loops\<close>

definition kBlockingTimeoutNs :: int where "kBlockingTimeoutNs = 100000"

text \<open>\<open>data()\<close> of a vector of \<open>cnt\<close> elements that has never held one: null when it is empty.\<close>

definition vector_data :: "ptr \<Rightarrow> u64 \<Rightarrow> ptr option" where
  "vector_data buf cnt = (if cnt = 0 then None else Some buf)"

text \<open>A \<open>do\<close> loop: the first round runs in any case, with a count of 1 when there are no data.\<close>

fun readerBlocking ::
  "nat \<Rightarrow> nat \<Rightarrow> os \<Rightarrow> 'd provider \<Rightarrow> (history \<Rightarrow> nat) \<Rightarrow> MessageQueue \<Rightarrow> ptr \<Rightarrow> 'd \<Rightarrow> world \<Rightarrow>
   world fuelled option" where
  "readerBlocking 0 fuel os P writersNotFinished readMq buf fdp w = Some NoFuel"
| "readerBlocking (Suc n) fuel os P writersNotFinished readMq buf fdp w = do {
     c \<leftarrow> getQuantumCount readMq;
     let (count, fdp1) = (if remaining_bytes P fdp \<noteq> 0 then ConsumeInRange P fdp 0 (c + 1) else (1, fdp));
     r \<leftarrow> readBlocking3 fuel os readMq (vector_data buf count) count kBlockingTimeoutNs w;
     case r of
       NoFuel \<Rightarrow> Some NoFuel
     | Done (ok, w1) \<Rightarrow>
         if 8 < remaining_bytes P fdp1 \<and> 0 < writersNotFinished (hist w1)
         then readerBlocking n fuel os P writersNotFinished readMq buf fdp1 w1
         else Some (Done w1)
   }"

fun consume_payloads :: "'d provider \<Rightarrow> nat \<Rightarrow> 'd \<Rightarrow> u32 list \<times> 'd" where
  "consume_payloads P 0 fdp = ([], fdp)"
| "consume_payloads P (Suc k) fdp =
     (let (v, fdp1) = ConsumePayload P fdp; (vs, fdp2) = consume_payloads P k fdp1 in (v # vs, fdp2))"

fun writerBlocking ::
  "nat \<Rightarrow> nat \<Rightarrow> os \<Rightarrow> 'd provider \<Rightarrow> (history \<Rightarrow> nat) \<Rightarrow> MessageQueue \<Rightarrow> ptr \<Rightarrow> 'd \<Rightarrow> world \<Rightarrow>
   world fuelled option" where
  "writerBlocking 0 fuel os P readersNotFinished writeMq buf fdp w = Some NoFuel"
| "writerBlocking (Suc n) fuel os P readersNotFinished writeMq buf fdp w =
     (if 8 < remaining_bytes P fdp \<and> 0 < readersNotFinished (hist w) then do {
        c \<leftarrow> getQuantumCount writeMq;
        let (count, fdp1) = ConsumeInRange P fdp 0 (c + 1);
        let (vs, fdp2) = consume_payloads P (unat count) fdp1;
        let w1 = w\<lparr>wmem := wr_bytes (wmem w) buf (concat (map (word_to_le 4) vs))\<rparr>;
        r \<leftarrow> writeBlocking3 fuel os writeMq (vector_data buf count) count kBlockingTimeoutNs w1;
        case r of
          NoFuel \<Rightarrow> Some NoFuel
        | Done (ok, w2) \<Rightarrow> writerBlocking n fuel os P readersNotFinished writeMq buf fdp2 w2
      } else Some (Done w))"

section \<open>A null buffer\<close>

text \<open>Without a buffer nothing is transferred, whatever the count.\<close>

lemma read_null:
  assumes "fifo_inv q m"
  shows "mq_read q m None n = Some (False, m)"
proof -
  have "rdc q m \<le> wrc q m" "wrc q m - rdc q m \<le> qS q"
    using fifo_invD(4) [OF assms] by (simp_all add: ring_inv_def)
  then have "\<not> qS q < unat (load64 m (qwp q) - load64 m (qrp q))"
    by (simp add: rdc_def wrc_def unat_sub_if')
  then show ?thesis by (simp add: mq_read_def beginRead_eq [OF fifo_invD(1) [OF assms]] copyFrom_def)
qed

lemma write_null: "fifo_inv q m \<Longrightarrow> mq_write q m None n = Some (False, m)"
  by (simp add: mq_write_def beginWrite_eq fifo_invD(1) copyTo_def)

interpretation rd_null: blocking_attempt "\<lambda>m. mq_read q m None n" "fifo_inv q" for q n
  by unfold_locales (auto simp: read_null)

interpretation wr_null: blocking_attempt "\<lambda>m. mq_write q m None n" "\<lambda>m. fifo_inv q m \<and> wrc q m = W" for q n W
  by unfold_locales (auto simp: write_null)

section \<open>What a blocking call leaves\<close>

text \<open>What holds while waiting and after a success also holds after the notification.\<close>

lemma notify_keeps:
  assumes "notify os ef b r w = Some (Done (r', w'))" and "mEfWordPtr ef = Some p"
    and "stable os p J" and "J (wmem w)"
  shows "J (wmem w')"
  using assms
  by (auto simp: notify_def wake_def atomic_fetch_or_def sys_futexWake_def stable_def Let_def
      split: if_splits prod.splits bind_splits)

context blocking_attempt
begin

lemma blocking_op_keeps:
  assumes p: "mEfWordPtr ef = Some p" and b: "waitMask \<noteq> 0" and e: "errno_nonzero os"
    and st: "stable os p I" and I: "I (wmem w)" and clk: "clock_advances os" and t: "t \<noteq> 0" "nat t < n"
    and J: "stable os p J" "\<And>m. I m \<Longrightarrow> J m" "\<And>m m'. I m \<Longrightarrow> attempt m = Some (True, m') \<Longrightarrow> J m'"
  shows "\<exists>r w'. blocking_op n os attempt ef waitMask wakeMask t w = Some (Done (r, w')) \<and> J (wmem w')"
proof -
  obtain r w1 w' where op: "blocking_op n os attempt ef waitMask wakeMask t w = Some (Done (r, w'))"
    and bl: "blocked os attempt p waitMask w r w1" and nt: "notify os ef wakeMask r w1 = Some (Done (r, w'))"
    using blocking_op_outcome [OF p b e st I, of n wakeMask t]
      blocking_op_ends [OF p b e st I clk t, of wakeMask] by blast
  have "J (wmem w1)"
  proof (cases r)
    case True
    then obtain w0 m where "waiting os p waitMask w w0" "attempt (wmem w0) = Some (True, m)"
      "w1 = w0\<lparr>wmem := m\<rparr>"
      using bl by (auto simp: blocked_def)
    then show ?thesis using J(3) [OF waiting_stable [OF _ st I]] by auto
  next
    case False
    then show ?thesis using bl waiting_stable [OF _ st I] J(2) by (simp add: blocked_def)
  qed
  from notify_keeps [OF nt p J(1) this] op show ?thesis by blast
qed

end

text \<open>The situation of one end: the queue has an event flag of its own, apart from the rest.\<close>

definition blocking_end :: "os \<Rightarrow> MessageQueue \<Rightarrow> ptr \<Rightarrow> bool" where
  "blocking_end os q buf \<longleftrightarrow> errno_nonzero os \<and> clock_advances os \<and>
     (\<exists>ef p. mEventFlag q = Some ef \<and> mEfWordPtr ef = Some p \<and> flag_apart q p) \<and>
     user_buf q buf (qcap q + 1)"

lemma blocking_endD:
  assumes "blocking_end os q buf"
  obtains ef p where "mEventFlag q = Some ef" "mEfWordPtr ef = Some p" "flag_apart q p"
    "errno_nonzero os" "clock_advances os" "\<And>n. n \<le> qcap q + 1 \<Longrightarrow> user_buf q buf n"
proof -
  from assms obtain ef p where f: "mEventFlag q = Some ef" "mEfWordPtr ef = Some p" "flag_apart q p"
    and os: "errno_nonzero os" "clock_advances os" and ub: "user_buf q buf (qcap q + 1)"
    unfolding blocking_end_def by blast
  show thesis by (rule that [OF f os user_buf_mono [OF ub]])
qed

lemma timeout_facts: "100000 < fuel \<Longrightarrow> nat kBlockingTimeoutNs < fuel" "kBlockingTimeoutNs \<noteq> 0"
  "FMQ_NOT_EMPTY \<noteq> 0" "FMQ_NOT_FULL \<noteq> 0"
  by (simp_all add: kBlockingTimeoutNs_def FMQ_NOT_EMPTY_def FMQ_NOT_FULL_def)

lemma read_success:
  assumes "read_ready q d n m" and "mq_read q m (Some d) n = Some (True, m')"
  shows "fifo_inv q m'"
  using read_attempt [OF assms(1)] assms(2) by auto

lemma read_round:
  assumes e: "blocking_end os q buf" "writers_only os q" and i: "fifo_inv q (wmem w)" and f: "100000 < fuel"
  obtains r w' where "readBlocking3 fuel os q (vector_data buf cnt) cnt kBlockingTimeoutNs w = Some (Done (r, w'))"
    "fifo_inv q (wmem w')"
proof (cases "unat cnt \<le> qcap q")
  case False
  then have "readBlocking3 fuel os q (vector_data buf cnt) cnt kBlockingTimeoutNs w = Some (Done (False, w))"
    using getQuantumCount_eq [OF fifo_invD(1) [OF i]]
    by (auto simp: readBlocking3_def readBlocking_def blocking_checked_def word_less_nat_alt split: option.splits)
  from that [OF this i] show thesis .
next
  case True
  obtain ef p where ef: "mEventFlag q = Some ef" "mEfWordPtr ef = Some p" "flag_apart q p"
    and os: "errno_nonzero os" "clock_advances os" and ub: "user_buf q buf (unat cnt)"
    by (rule blocking_endD [OF e(1)]) (use True in simp)
  have call: "blocking_call q cnt FMQ_NOT_EMPTY None ef p"
    using ef True by (simp add: blocking_call_def timeout_facts)
  have st: "stable os p (fifo_inv q)"
    using e(2) ef(3) by (simp add: stable_def writers_only_def flag_store_inv)
  have "\<exists>r w'. blocking_op fuel os (\<lambda>m. mq_read q m (vector_data buf cnt) cnt) ef FMQ_NOT_EMPTY FMQ_NOT_FULL
      kBlockingTimeoutNs w = Some (Done (r, w')) \<and> fifo_inv q (wmem w')"
  proof (cases "cnt = 0")
    case True
    have "\<exists>r w'. blocking_op fuel os (\<lambda>m. mq_read q m None cnt) ef FMQ_NOT_EMPTY FMQ_NOT_FULL
        kBlockingTimeoutNs w = Some (Done (r, w')) \<and> fifo_inv q (wmem w')"
      by (rule rd_null.blocking_op_keeps [OF ef(2) timeout_facts(3) os(1) st i os(2) timeout_facts(2)
        timeout_facts(1) [OF f] st]) (simp_all add: read_null)
    then show ?thesis by (simp add: vector_data_def True)
  next
    case False
    have "unat cnt * qz q < 2 ^ 64" using qcap_bytes [OF True] qS_less [of q] by linarith
    then have ready: "read_ready q buf cnt (wmem w)" using i ub by (simp add: read_ready_def)
    have "\<exists>r w'. blocking_op fuel os (\<lambda>m. mq_read q m (Some buf) cnt) ef FMQ_NOT_EMPTY FMQ_NOT_FULL
        kBlockingTimeoutNs w = Some (Done (r, w')) \<and> fifo_inv q (wmem w')"
      by (rule rd.blocking_op_keeps [OF ef(2) timeout_facts(3) os(1) stable_read_ready [OF e(2) ef(3)] ready
          os(2) timeout_facts(2) timeout_facts(1) [OF f] st])
        (simp add: read_ready_def, erule (1) read_success)
    then show ?thesis by (simp add: vector_data_def False)
  qed
  then show thesis
    using that by (auto simp: readBlocking3_def readBlocking_def blocking_call_runs [OF call i])
qed

text \<open>For the writer also the write counter is bounded: the readers leave it alone.\<close>

definition write_ready_at :: "MessageQueue \<Rightarrow> ptr \<Rightarrow> u64 \<Rightarrow> nat \<Rightarrow> mem \<Rightarrow> bool" where
  "write_ready_at q d n W m \<longleftrightarrow> write_ready q d n m \<and> wrc q m = W"

interpretation wr_at: blocking_attempt "\<lambda>m. mq_write q m (Some d) n" "write_ready_at q d n W" for q d n W
  by unfold_locales (auto simp: write_ready_at_def dest!: write_attempt)

lemma write_success:
  assumes "write_ready q d n m" and "mq_write q m (Some d) n = Some (True, m')"
  shows "fifo_inv q m' \<and> wrc q m' = wrc q m + unat n * qz q"
proof (cases "length (contents q m) + unat n \<le> qcap q")
  case True
  then show ?thesis using assms mq_write_append [of q m d n] by (auto simp: write_ready_def)
next
  case False
  then show ?thesis using assms write_full_fails [of q m n "Some d"] by (auto simp: write_ready_def)
qed

lemma write_round:
  assumes e: "blocking_end os q buf" "readers_only os q" and i: "fifo_inv q (wmem w)" and f: "100000 < fuel"
    and nw: "wrc q (wmem w) + qS q < 2 ^ 64"
  obtains r w' where "writeBlocking3 fuel os q (vector_data buf cnt) cnt kBlockingTimeoutNs w = Some (Done (r, w'))"
    "fifo_inv q (wmem w')" "wrc q (wmem w') \<le> wrc q (wmem w) + qS q"
proof (cases "unat cnt \<le> qcap q")
  case False
  then have "writeBlocking3 fuel os q (vector_data buf cnt) cnt kBlockingTimeoutNs w = Some (Done (False, w))"
    using getQuantumCount_eq [OF fifo_invD(1) [OF i]]
    by (auto simp: writeBlocking3_def writeBlocking_def blocking_checked_def word_less_nat_alt split: option.splits)
  from that [OF this i] show thesis by simp
next
  case True
  obtain ef p where ef: "mEventFlag q = Some ef" "mEfWordPtr ef = Some p" "flag_apart q p"
    and os: "errno_nonzero os" "clock_advances os" and ub: "user_buf q buf (unat cnt)"
    by (rule blocking_endD [OF e(1)]) (use True in simp)
  have call: "blocking_call q cnt FMQ_NOT_FULL None ef p"
    using ef True by (simp add: blocking_call_def timeout_facts)
  have n: "unat cnt * qz q \<le> qS q" by (rule qcap_bytes [OF True])
  let ?W = "wrc q (wmem w)" and ?J = "\<lambda>m. fifo_inv q m \<and> wrc q m \<le> wrc q (wmem w) + qS q"
  have ready: "write_ready_at q buf cnt ?W (wmem w)"
    using i ub nw n by (simp add: write_ready_at_def write_ready_def)
  have st: "stable os p (write_ready_at q buf cnt ?W)" "stable os p ?J"
    using e(2) ef(3)
    by (simp_all add: stable_def write_ready_at_def write_ready_def readers_only_def flag_store_inv
        flag_store_counters)
  have st0: "stable os p (\<lambda>m. fifo_inv q m \<and> wrc q m = ?W)"
    using e(2) ef(3) by (simp add: stable_def readers_only_def flag_store_inv flag_store_counters)
  have "\<exists>r w'. blocking_op fuel os (\<lambda>m. mq_write q m (vector_data buf cnt) cnt) ef FMQ_NOT_FULL FMQ_NOT_EMPTY
      kBlockingTimeoutNs w = Some (Done (r, w')) \<and> ?J (wmem w')"
  proof (cases "cnt = 0")
    case True
    have "\<exists>r w'. blocking_op fuel os (\<lambda>m. mq_write q m None cnt) ef FMQ_NOT_FULL FMQ_NOT_EMPTY
        kBlockingTimeoutNs w = Some (Done (r, w')) \<and> ?J (wmem w')"
      by (rule wr_null.blocking_op_keeps [OF ef(2) timeout_facts(4) os(1) st0 _ os(2) timeout_facts(2)
        timeout_facts(1) [OF f] st(2)]) (use i in \<open>auto simp: write_null\<close>)
    then show ?thesis by (simp add: vector_data_def True)
  next
    case False
    have "\<exists>r w'. blocking_op fuel os (\<lambda>m. mq_write q m (Some buf) cnt) ef FMQ_NOT_FULL FMQ_NOT_EMPTY
        kBlockingTimeoutNs w = Some (Done (r, w')) \<and> ?J (wmem w')"
      by (rule wr_at.blocking_op_keeps [OF ef(2) timeout_facts(4) os(1) st(1) ready os(2)
          timeout_facts(2) timeout_facts(1) [OF f] st(2)])
        (simp add: write_ready_at_def write_ready_def,
          use write_success n in \<open>fastforce simp: write_ready_at_def\<close>)
    then show ?thesis by (simp add: vector_data_def False)
  qed
  then show thesis
    using that by (auto simp: writeBlocking3_def writeBlocking_def blocking_call_runs [OF call i])
qed

section \<open>The loops end\<close>

lemma consume_payloads_uses:
  "provider_ok P \<Longrightarrow> consume_payloads P k d = (vs, d') \<Longrightarrow>
    remaining_bytes P d' \<le> remaining_bytes P d \<and> length vs = k"
proof (induction k arbitrary: d vs d')
  case (Suc k)
  obtain v d1 where v: "ConsumePayload P d = (v, d1)" by fastforce
  obtain us d2 where u: "consume_payloads P k d1 = (us, d2)" by fastforce
  have "remaining_bytes P d1 \<le> remaining_bytes P d"
    using Suc.prems(1) v unfolding provider_ok_def uses_def by (metis snd_conv)
  then show ?case using Suc.IH [OF Suc.prems(1) u] Suc.prems(2) v u by auto
qed simp

lemma count_bound:
  assumes "mq_wf q" and "mq_whole q" and "1 < sizeofT q"
  obtains c where "getQuantumCount q = Some c" "unat c = qcap q" "0 < c + 1" "unat (c + 1) = qcap q + 1"
proof -
  obtain c where c: "getQuantumCount q = Some c" "unat c = qcap q" using getQuantumCount_eq [OF assms(1)] by blast
  have "1 < qz q" using assms(3) by (simp add: qz_def word_less_nat_alt)
  then have "qcap q * 2 \<le> qS q" by (metis Suc_1 Suc_leI One_nat_def assms(2) mult_le_mono2 qcap_times)
  then have "unat c + 1 < 2 ^ 64" using qS_less [of q] c(2) by simp
  then have s: "unat (c + 1) = qcap q + 1" using unat_add_no_wrap [of c 1] c(2) by simp
  then have "0 < c + 1" by (simp add: word_less_nat_alt)
  with c s show thesis using that by blast
qed

lemma readerBlocking_ends:
  assumes P: "provider_ok P" and q: "mq_whole q" "1 < sizeofT q"
    and e: "blocking_end os q buf" "writers_only os q" and f: "100000 < fuel"
  shows "fifo_inv q (wmem w) \<Longrightarrow> remaining_bytes P d < n \<Longrightarrow>
    \<exists>w'. readerBlocking n fuel os P fin q buf d w = Some (Done w') \<and> fifo_inv q (wmem w')"
proof (induction n arbitrary: d w)
  case (Suc n)
  obtain c where c: "getQuantumCount q = Some c" "0 < c + 1"
    by (rule count_bound [OF fifo_invD(1) [OF Suc.prems(1)] q])
  obtain cnt d1 where n: "(if remaining_bytes P d \<noteq> 0 then ConsumeInRange P d 0 (c + 1) else (1, d)) = (cnt, d1)"
    by fastforce
  have less: "remaining_bytes P d1 = 0 \<or> remaining_bytes P d1 < remaining_bytes P d"
    using n consume_range(2) [OF P c(2)] by (auto simp: uses_def split: if_splits)
  obtain r w1 where r: "readBlocking3 fuel os q (vector_data buf cnt) cnt kBlockingTimeoutNs w = Some (Done (r, w1))"
    "fifo_inv q (wmem w1)" by (rule read_round [OF e Suc.prems(1) f])
  show ?case
  proof (cases "8 < remaining_bytes P d1 \<and> 0 < fin (hist w1)")
    case True
    then have "remaining_bytes P d1 < n" using less Suc.prems(2) by auto
    from Suc.IH [OF r(2) this] show ?thesis using True c n r(1) by simp
  next
    case False
    then show ?thesis using c n r by auto
  qed
qed simp

lemma writerBlocking_ends:
  assumes P: "provider_ok P" and q: "mq_whole q" "1 < sizeofT q" "qz q = 4"
    and e: "blocking_end os q buf" "readers_only os q" and f: "100000 < fuel"
  shows "fifo_inv q (wmem w) \<Longrightarrow> remaining_bytes P d < n \<Longrightarrow>
    wrc q (wmem w) + remaining_bytes P d * qS q < 2 ^ 64 \<Longrightarrow>
    \<exists>w'. writerBlocking n fuel os P fin q buf d w = Some (Done w') \<and> fifo_inv q (wmem w')"
proof (induction n arbitrary: d w)
  case (Suc n)
  obtain c where c: "getQuantumCount q = Some c" "unat c = qcap q" "0 < c + 1" "unat (c + 1) = qcap q + 1"
    by (rule count_bound [OF fifo_invD(1) [OF Suc.prems(1)] q(1,2)])
  show ?case
  proof (cases "8 < remaining_bytes P d \<and> 0 < fin (hist w)")
    case True
    obtain cnt d1 where n: "ConsumeInRange P d 0 (c + 1) = (cnt, d1)" by fastforce
    obtain vs d2 where v: "consume_payloads P (unat cnt) d1 = (vs, d2)" by fastforce
    have cnt: "unat cnt \<le> qcap q + 1" and "uses P d d1"
      using consume_range [OF P c(3) n] c(4) by (simp_all add: word_le_nat_alt)
    then have less: "remaining_bytes P d2 < remaining_bytes P d"
      using consume_payloads_uses [OF P v] True by (simp add: uses_def)
    let ?bs = "concat (map (word_to_le 4) vs)"
    let ?w1 = "w\<lparr>wmem := wr_bytes (wmem w) buf ?bs\<rparr>"
    have len: "length ?bs \<le> (qcap q + 1) * qz q"
      using consume_payloads_uses [OF P v] cnt q(3)
      by (simp add: length_concat comp_def sum_list_triv)
    have ub: "user_buf q buf (qcap q + 1)" using e(1) by (simp add: blocking_end_def)
    note fill = fill_buffer [OF Suc.prems(1) ub len]
    have "remaining_bytes P d2 * qS q + qS q \<le> remaining_bytes P d * qS q"
      using mult_le_mono1 [OF Suc_leI [OF less], of "qS q"] by simp
    then have nw: "wrc q (wmem ?w1) + qS q < 2 ^ 64" "wrc q (wmem w) + qS q + remaining_bytes P d2 * qS q < 2 ^ 64"
      using Suc.prems(3) fill(3) by simp_all
    have i1: "fifo_inv q (wmem ?w1)" using fill(1) by simp
    obtain r w2 where r: "writeBlocking3 fuel os q (vector_data buf cnt) cnt kBlockingTimeoutNs ?w1 = Some (Done (r, w2))"
      "fifo_inv q (wmem w2)" "wrc q (wmem w2) \<le> wrc q (wmem ?w1) + qS q"
      by (rule write_round [OF e i1 f nw(1)])
    have "remaining_bytes P d2 < n" using less Suc.prems(2) by simp
    moreover have "wrc q (wmem w2) + remaining_bytes P d2 * qS q < 2 ^ 64"
      using r(3) nw(2) fill(3) by simp
    ultimately obtain w' where "writerBlocking n fuel os P fin q buf d2 w2 = Some (Done w')" "fifo_inv q (wmem w')"
      using Suc.IH [OF r(2)] by blast
    then show ?thesis using True c(1) n v r(1) by simp
  next
    case False
    then show ?thesis using Suc.prems(1) by auto
  qed
qed simp

text \<open>
  The blocking reader and the blocking writer of the fuzzer end whatever the data and leave a consistent
  queue, when they start with one, the clock advances and the other end keeps to its part. For the writer the
  write counter must have room for all that the data can ask for.
\<close>

theorem fuzz_blocking_loops_end:
  assumes "provider_ok P" and "mq_whole q" and "sizeofT q = 4" and "blocking_end os q buf"
    and "100000 < fuel" and "fifo_inv q (wmem w)" and "remaining_bytes P d < n"
  shows "(writers_only os q \<longrightarrow>
      (\<exists>w'. readerBlocking n fuel os P fin q buf d w = Some (Done w') \<and> fifo_inv q (wmem w'))) \<and>
    (readers_only os q \<and> wrc q (wmem w) + remaining_bytes P d * qS q < 2 ^ 64 \<longrightarrow>
      (\<exists>w'. writerBlocking n fuel os P fin q buf d w = Some (Done w') \<and> fifo_inv q (wmem w')))"
proof -
  have z: "1 < sizeofT q" "qz q = 4" using assms(3) by (simp_all add: qz_def)
  show ?thesis
    using readerBlocking_ends [OF assms(1,2) z(1) assms(4) _ assms(5-7), of fin]
      writerBlocking_ends [OF assms(1,2) z assms(4) _ assms(5-7), of fin] by blast
qed

end
