(* ===== verification/FuzzExamples.thy ===== *)
theory FuzzExamples
  imports SystemExamples FuzzBlocking
begin

text \<open>
  Witnesses for the properties of the fuzzer: a provider that takes one byte of a list at a time, and
  a queue of three 32-bit messages in the library's own layout.
\<close>

definition list_provider :: "u8 list provider" where
  "list_provider = \<lparr>remaining_bytes = length,
     ConsumeInRange = (\<lambda>d lo hi. case d of [] \<Rightarrow> (lo, [])
       | x # xs \<Rightarrow> (if lo \<le> ucast x \<and> ucast x \<le> hi then ucast x else lo, xs)),
     ConsumeIntInRange = (\<lambda>d lo hi. case d of [] \<Rightarrow> (lo, [])
       | x # xs \<Rightarrow> (if lo \<le> uint x \<and> uint x \<le> hi then uint x else lo, xs)),
     ConsumePayload = (\<lambda>d. case d of [] \<Rightarrow> (0, []) | x # xs \<Rightarrow> (ucast x, xs))\<rparr>"

lemma list_provider_ok: "provider_ok list_provider"
  by (auto simp: provider_ok_def list_provider_def uses_def split: list.splits)

definition fz_grantors :: "GrantorDescriptor list" where
  "fz_grantors = size_layout 12 False"

definition fz_q :: MessageQueue where
  "fz_q = \<lparr>sizeofT = 4, flavor = kSynchronizedReadWrite,
     mDesc = Some \<lparr>mGrantors = fz_grantors,
       mHandle = Some \<lparr>numFds = 1, numInts = 0, data = [5]\<rparr>, mQuantum = 4, mFlags = 1\<rparr>,
     mRing = Some (Ptr (Shm 0) 16), mReadPtr = Some (Ptr (Shm 0) 0), mWritePtr = Some (Ptr (Shm 0) 8),
     mEvFlagWord = None, mEventFlag = None\<rparr>"

definition fz_desc :: AidlMQDescriptor where
  "fz_desc = \<lparr>a_grantors = map dupe_grantor fz_grantors, a_fds = [6], a_ints = [], a_quantum = 4,
     a_flags = 1\<rparr>"

lemma fz_ok: "mq_wf fz_q" "mq_whole fz_q" "sizeofT fz_q = 4"
  "getCounterPtr_aidl (mRing fz_q) fz_desc READPTRPOS = Some (Ptr (Shm 0) 0)"
  "getCounterPtr_aidl (mRing fz_q) fz_desc WRITEPTRPOS = Some (Ptr (Shm 0) 8)"
  by (simp_all add: fz_q_def fz_desc_def fz_grantors_def size_layout_def mq_wf_def mq_whole_def
      isValid_def sep_def qdesc_def qring_def qrp_def qwp_def qS_def qz_def getSize_def getQuantum_def
      getCounterPtr_aidl_def dupe_grantor_def createCounterPtr_def)

text \<open>Two rounds; in the first the writer overwrites the read counter with 8 and writes the message 77.\<close>

theorem fuzz_loops_stay_inside_witness:
  "\<exists>m' ps. writer_loop 6 list_provider fz_q fz_desc False [1, 8, 77, 0, 78] (\<lambda>_ _. 0) = Some (Done (m', ps)) \<and>
    ps \<noteq> [] \<and> (\<forall>p \<in> set ps. in_slot fz_q p)"
proof -
  let ?run = "writer_loop 6 list_provider fz_q fz_desc False [1, 8, 77, 0, 78] (\<lambda>_ _. 0)"
  have "case ?run of Some (Done (m', ps)) \<Rightarrow> ps \<noteq> [] | r \<Rightarrow> False" by code_simp
  moreover have "\<exists>m' ps. ?run = Some (Done (m', ps)) \<and>
      keeps [(qring fz_q, qS fz_q), (qwp fz_q, 8), (Ptr (Shm 0) 0, 8)] (\<lambda>_ _. 0) m' \<and>
      (\<forall>p \<in> set ps. in_slot fz_q p)"
    using fuzz_loops_stay_inside [OF list_provider_ok fz_ok(1-3), where kMaxNumElements = 1
        and userFd = False and desc = fz_desc and d = "[1, 8, 77, 0, 78]" and n = 6] fz_ok(4,5)
    by (simp add: list_provider_def)
  ultimately show ?thesis by auto
qed

text \<open>The same queue with an event flag; the system is alone.\<close>

definition fz_flag_q :: MessageQueue where
  "fz_flag_q = fz_q\<lparr>mEventFlag := Some ex_ef\<rparr>"

lemma fz_flag_ok: "mq_whole fz_flag_q" "sizeofT fz_flag_q = 4"
  "blocking_end ex_os fz_flag_q (Ptr (Heap 0) 0)" "fifo_inv fz_flag_q (\<lambda>_ _. 0)"
proof -
  have z: "load64 (\<lambda>_ _. 0) p = 0" for p
    by (cases p) (simp add: load64_def rd_bytes_def upt_rec)
  show "mq_whole fz_flag_q" "sizeofT fz_flag_q = 4"
    "blocking_end ex_os fz_flag_q (Ptr (Heap 0) 0)" "fifo_inv fz_flag_q (\<lambda>_ _. 0)"
    using ex_os_facts
    by (simp_all add: z fz_flag_q_def fz_q_def fz_grantors_def size_layout_def mq_wf_def mq_whole_def
      isValid_def sep_def qdesc_def qring_def qrp_def qwp_def qS_def qz_def qcap_def getSize_def
      getQuantum_def blocking_end_def flag_apart_def user_buf_def ex_ef_def ex_word_def fifo_inv_def
      ring_inv_def rdc_def wrc_def)
qed

theorem fuzz_blocking_loops_end_witness:
  "\<exists>w'. writerBlocking 12 100001 ex_os list_provider (\<lambda>h. 1) fz_flag_q (Ptr (Heap 0) 0)
      [2, 7, 8, 9, 10, 11, 12, 13, 14, 15, 16] ex_start = Some (Done w') \<and> fifo_inv fz_flag_q (wmem w')"
proof -
  have "wrc fz_flag_q (\<lambda>_ _. 0) + 11 * qS fz_flag_q < 2 ^ 64"
    by (simp add: wrc_def qS_def qdesc_def fz_flag_q_def fz_q_def fz_grantors_def size_layout_def
        getSize_def qwp_def load64_def rd_bytes_def upt_rec)
  then show ?thesis
    using fuzz_blocking_loops_end [OF list_provider_ok fz_flag_ok(1-3), where fuel = 100001
        and w = ex_start and d = "[2, 7, 8, 9, 10, 11, 12, 13, 14, 15, 16]" and n = 12 and fin = "\<lambda>h. 1"]
      ex_os_facts(3) [of fz_flag_q] fz_flag_ok(4)
    by (simp add: list_provider_def ex_start_def)
qed

theorem counter_ptr_exact_witness:
  "\<exists>q w1. AidlMessageQueue_of_size ex_os SynchronizedReadWrite 2 3 True (- 1) 0 ex_start = Some (q, w1) \<and>
    getCounterPtr_aidl (mRing q) (ex_parcel 107) WRITEPTRPOS = mWritePtr q \<and>
    getCounterPtr_aidl (mRing q) (ex_parcel 107) READPTRPOS = mReadPtr q"
proof -
  obtain q w1 where c: "AidlMessageQueue_of_size ex_os SynchronizedReadWrite 2 3 True (- 1) 0 ex_start =
      Some (q, w1)" "isValid q" "mDesc q = Some (ex_queue_desc 7)"
    using ex_made by (auto simp: AidlMessageQueue_of_size_def)
  obtain u where "dupeDesc ex_os (Some (ex_queue_desc 7)) ex_start = Some (ex_parcel 107, u)"
    using ex_duped by blast
  from counter_ptr_exact [OF c(1,2) ex_system_ok ex_os_facts(8) c(3) this] c(1) show ?thesis by auto
qed

end
