(* ===== verification/AccessPrograms.thy ===== *)
theory AccessPrograms
  imports MessageQueueEffects
begin

text \<open>
  The non-blocking calls on the level of single memory accesses: a call is a tree of loads and stores
  with the rest of the call as continuation. Run without interruption it is the call of MessageQueueBase;
  interleaved with other threads every load may give another value. What is shown of a call for all
  values of its loads holds for every interleaving.
\<close>

section \<open>Access programs\<close>

datatype 'a access =
    Return 'a
  | Crash
  | Load64 ptr "u64 \<Rightarrow> 'a access"
  | Store64 ptr u64 "'a access"
  | Load32 ptr "u32 \<Rightarrow> 'a access"
  | Store32 ptr u32 "'a access"

primrec and_then :: "'a access \<Rightarrow> ('a \<Rightarrow> 'b access) \<Rightarrow> 'b access" where
  "and_then (Return x) f = f x"
| "and_then Crash f = Crash"
| "and_then (Load64 p k) f = Load64 p (\<lambda>v. and_then (k v) f)"
| "and_then (Store64 p v k) f = Store64 p v (and_then k f)"
| "and_then (Load32 p k) f = Load32 p (\<lambda>v. and_then (k v) f)"
| "and_then (Store32 p v k) f = Store32 p v (and_then k f)"

text \<open>A null pointer, an empty \<open>mDesc\<close> and a division by zero are crashes.\<close>

definition needs :: "'a option \<Rightarrow> ('a \<Rightarrow> 'b access) \<Rightarrow> 'b access" where
  "needs a f = (case a of None \<Rightarrow> Crash | Some x \<Rightarrow> f x)"

lemma needs_simps [simp]: "needs None f = Crash" "needs (Some x) f = f x"
  by (simp_all add: needs_def)

text \<open>Alone, from a memory to the result and the memory.\<close>

primrec run :: "'a access \<Rightarrow> mem \<Rightarrow> ('a \<times> mem) option" where
  "run (Return x) m = Some (x, m)"
| "run Crash m = None"
| "run (Load64 p k) m = run (k (load64 m p)) m"
| "run (Store64 p v k) m = run k (store64 m p v)"
| "run (Load32 p k) m = run (k (load32 m p)) m"
| "run (Store32 p v k) m = run k (store32 m p v)"

lemma run_and_then [simp]: "run (and_then t f) m = Option.bind (run t m) (\<lambda>(x, m'). run (f x) m')"
  by (induction t arbitrary: m) simp_all

lemma run_needs [simp]: "run (needs a f) m = Option.bind a (\<lambda>x. run (f x) m)"
  by (cases a) simp_all

section \<open>The calls\<close>

definition availableToReadBytes_acc :: "MessageQueue \<Rightarrow> u64 access" where
  "availableToReadBytes_acc q =
     needs (mWritePtr q) (\<lambda>wp. Load64 wp (\<lambda>writePtr.
     needs (mReadPtr q) (\<lambda>rp. Load64 rp (\<lambda>readPtr.
       Return (if writePtr < readPtr then 0 else writePtr - readPtr)))))"

definition availableToWrite_acc :: "MessageQueue \<Rightarrow> u64 access" where
  "availableToWrite_acc q =
     needs (mDesc q) (\<lambda>d.
     and_then (availableToReadBytes_acc q) (\<lambda>availableBytes.
       needs (checked_div (if getSize d < availableBytes then 0 else getSize d - availableBytes) (sizeofT q))
         Return))"

definition beginWrite_acc ::
  "MessageQueue \<Rightarrow> u64 \<Rightarrow> MemTransaction \<Rightarrow> (bool \<times> MemTransaction) access" where
  "beginWrite_acc q nMessages result =
     needs (mDesc q) (\<lambda>d.
     and_then (if flavor q = kSynchronizedReadWrite
               then and_then (availableToWrite_acc q) (\<lambda>a. Return (a < nMessages)) else Return False) (\<lambda>noSpace.
     needs (if noSpace then Some True else map_option (\<lambda>c. nMessages > c) (getQuantumCount q)) (\<lambda>tooMany.
     if tooMany then Return (False, emptyMemTransaction) else
       needs (mWritePtr q) (\<lambda>wp. Load64 wp (\<lambda>writePtr.
       needs (checked_mod writePtr (sizeofT q)) (\<lambda>misaligned.
       if misaligned \<noteq> 0 then Return (False, result) else
         needs (checked_mod writePtr (getSize d)) (\<lambda>writeOffset.
         needs (checked_div (getSize d - writeOffset) (sizeofT q)) (\<lambda>contiguousMessages.
           Return (True,
             if contiguousMessages < nMessages
             then \<lparr>first = \<lparr>address = badd (mRing q) writeOffset, len = contiguousMessages\<rparr>,
                   second = \<lparr>address = mRing q, len = nMessages - contiguousMessages\<rparr>\<rparr>
             else \<lparr>first = \<lparr>address = badd (mRing q) writeOffset, len = nMessages\<rparr>,
                   second = emptyMemRegion\<rparr>)))))))))"

definition commitWrite_acc :: "MessageQueue \<Rightarrow> u64 \<Rightarrow> bool access" where
  "commitWrite_acc q nMessages =
     needs (mWritePtr q) (\<lambda>wp. Load64 wp (\<lambda>writePtr.
       Store64 wp (writePtr + nMessages * sizeofT q) (Return True)))"

definition beginRead_acc :: "MessageQueue \<Rightarrow> u64 \<Rightarrow> (bool \<times> MemTransaction) access" where
  "beginRead_acc q nMessages =
     needs (mWritePtr q) (\<lambda>wp. Load64 wp (\<lambda>writePtr.
     needs (mReadPtr q) (\<lambda>rp. Load64 rp (\<lambda>readPtr.
     needs (checked_mod writePtr (sizeofT q)) (\<lambda>wMis.
     needs (checked_mod readPtr (sizeofT q)) (\<lambda>rMis.
     if wMis \<noteq> 0 \<or> rMis \<noteq> 0 then Return (False, emptyMemTransaction) else
       needs (mDesc q) (\<lambda>d.
       if writePtr - readPtr > getSize d
       then Store64 rp writePtr (Return (False, emptyMemTransaction))
       else if writePtr - readPtr < nMessages * sizeofT q then Return (False, emptyMemTransaction)
       else
         needs (checked_mod readPtr (getSize d)) (\<lambda>readOffset.
         needs (checked_div (getSize d - readOffset) (sizeofT q)) (\<lambda>contiguousMessages.
           Return (True,
             if contiguousMessages < nMessages
             then \<lparr>first = \<lparr>address = badd (mRing q) readOffset, len = contiguousMessages\<rparr>,
                   second = \<lparr>address = mRing q, len = nMessages - contiguousMessages\<rparr>\<rparr>
             else \<lparr>first = \<lparr>address = badd (mRing q) readOffset, len = nMessages\<rparr>,
                   second = emptyMemRegion\<rparr>))))))))))"

definition commitRead_acc :: "MessageQueue \<Rightarrow> u64 \<Rightarrow> bool access" where
  "commitRead_acc q nMessages =
     needs (mReadPtr q) (\<lambda>rp. Load64 rp (\<lambda>readPtr.
     needs (mWritePtr q) (\<lambda>wp. Load64 wp (\<lambda>writePtr.
     needs (mDesc q) (\<lambda>d.
       if writePtr - readPtr > getSize d then Store64 rp writePtr (Return False)
       else Store64 rp (readPtr + nMessages * sizeofT q) (Return True))))))"

section \<open>Alone they are the calls\<close>

lemma run_availableToReadBytes:
  "run (availableToReadBytes_acc q) m = map_option (\<lambda>a. (a, m)) (availableToReadBytes q m)"
  by (cases "mWritePtr q"; cases "mReadPtr q")
    (simp_all add: availableToReadBytes_acc_def availableToReadBytes_def)

lemma run_availableToWrite:
  "run (availableToWrite_acc q) m = map_option (\<lambda>a. (a, m)) (availableToWrite q m)"
  by (cases "mDesc q"; cases "availableToReadBytes q m")
    (simp_all add: availableToWrite_acc_def availableToWrite_def availableToWriteBytes_def
      run_availableToReadBytes checked_div_def)

lemma run_beginWrite:
  "run (beginWrite_acc q n r) m = map_option (\<lambda>x. (x, m)) (beginWrite q m n r)"
  by (cases "mDesc q"; cases "availableToWrite q m"; cases "getQuantumCount q"; cases "mWritePtr q")
    (auto simp: beginWrite_acc_def beginWrite_def run_availableToWrite checked_div_def checked_mod_def)

lemma run_commitWrite: "run (commitWrite_acc q n) m = commitWrite q m n"
  by (cases "mWritePtr q") (simp_all add: commitWrite_acc_def commitWrite_def)

lemma run_beginRead:
  "run (beginRead_acc q n) m = map_option (\<lambda>(ok, tx, m'). ((ok, tx), m')) (beginRead q m n)"
  by (cases "mWritePtr q"; cases "mReadPtr q"; cases "mDesc q")
    (auto simp: beginRead_acc_def beginRead_def checked_div_def checked_mod_def Let_def)

lemma run_commitRead: "run (commitRead_acc q n) m = commitRead q m n"
  by (cases "mWritePtr q"; cases "mReadPtr q"; cases "mDesc q")
    (simp_all add: commitRead_acc_def commitRead_def)

end
