(* ===== verification/AccessInterleaving.thy ===== *)
theory AccessInterleaving
  imports AccessPrograms "HOL-Library.Multiset"
begin

text \<open>
  Threads that share a state: a schedule is a sequence of choices of threads. Two contracts: threads that
  come nearer to their end with every step end under every fair schedule; what each thread keeps, all keep
  together. Access programs, one access to a step, are such threads.
\<close>

lemma map_upt_split: "map f [0..<a + b] = map f [0..<a] @ map (\<lambda>j. f (j + a)) [0..<b]"
  by (induction b) (simp_all add: add.commute)

section \<open>Threads and schedules\<close>

primrec access_step :: "'a access \<Rightarrow> mem \<Rightarrow> ('a access \<times> mem) option" where
  "access_step (Return x) m = None"
| "access_step Crash m = None"
| "access_step (Load64 p k) m = Some (k (load64 m p), m)"
| "access_step (Store64 p v k) m = Some (k, store64 m p v)"
| "access_step (Load32 p k) m = Some (k (load32 m p), m)"
| "access_step (Store32 p v k) m = Some (k, store32 m p v)"

text \<open>
  A schedule over threads of any kind: \<open>step t s\<close> is the next step of thread \<open>t\<close> in the shared state \<open>s\<close>.
  A thread that has none is passed over.
\<close>

definition pick ::
  "('t \<Rightarrow> 's \<Rightarrow> ('t \<times> 's) option) \<Rightarrow> nat \<Rightarrow> 't list \<times> 's \<Rightarrow> 't list \<times> 's" where
  "pick step i s = (case s of (ts, m) \<Rightarrow>
     if i < length ts
     then (case step (ts ! i) m of None \<Rightarrow> s | Some (t, m') \<Rightarrow> (ts[i := t], m'))
     else s)"

definition run_schedule ::
  "('t \<Rightarrow> 's \<Rightarrow> ('t \<times> 's) option) \<Rightarrow> nat list \<Rightarrow> 't list \<times> 's \<Rightarrow> 't list \<times> 's" where
  "run_schedule step js s = fold (pick step) js s"

definition stopped :: "('t \<Rightarrow> 's \<Rightarrow> ('t \<times> 's) option) \<Rightarrow> 't list \<times> 's \<Rightarrow> bool" where
  "stopped step s \<longleftrightarrow> (\<forall>t \<in> set (fst s). step t (snd s) = None)"

definition fair :: "nat \<Rightarrow> (nat \<Rightarrow> nat) \<Rightarrow> bool" where
  "fair n f \<longleftrightarrow> (\<forall>i < n. \<forall>k. \<exists>j \<ge> k. f j = i)"

text \<open>All in turn.\<close>

lemma fair_mod: "fair (Suc n) (\<lambda>j. j mod Suc n)"
  unfolding fair_def
proof (intro allI impI)
  fix i k assume i: "i < Suc n"
  have "(Suc n * k + i) mod Suc n = i" using i mod_mult_self4 [of "Suc n" k i] by simp
  moreover have "k \<le> Suc n * k + i" by simp
  ultimately show "\<exists>j \<ge> k. j mod Suc n = i" by blast
qed

primrec next_access :: "'a access \<Rightarrow> (ptr \<times> nat) option" where
  "next_access (Return x) = None"
| "next_access Crash = None"
| "next_access (Load64 p k) = Some (p, 8)"
| "next_access (Store64 p v k) = Some (p, 8)"
| "next_access (Load32 p k) = Some (p, 4)"
| "next_access (Store32 p v k) = Some (p, 4)"

fun returned :: "'a access \<Rightarrow> 'a option" where
  "returned (Return x) = Some x"
| "returned t = None"

lemma run_schedule_simps [simp]:
  "run_schedule step [] s = s" "run_schedule step (j # js) s = run_schedule step js (pick step j s)"
  "run_schedule step (js @ ks) s = run_schedule step ks (run_schedule step js s)"
  by (simp_all add: run_schedule_def)

lemma pick_stays: "\<not> (i < length ts \<and> step (ts ! i) m \<noteq> None) \<Longrightarrow> pick step i (ts, m) = (ts, m)"
  by (cases "step (ts ! i) m") (auto simp: pick_def)

lemma length_pick [simp]: "length (fst (pick step i s)) = length (fst s)"
  by (auto simp: pick_def split: prod.split option.split)

lemma length_run [simp]: "length (fst (run_schedule step js s)) = length (fst s)"
  by (induction js arbitrary: s) simp_all

section \<open>Fair schedules end\<close>

text \<open>Threads without an infinite sequence of steps, whatever the others do to the state in between.\<close>

locale ending_threads =
  fixes step :: "'t \<Rightarrow> 's \<Rightarrow> ('t \<times> 's) option"
  assumes wf_steps: "wf {(t', t). \<exists>m m'. step t m = Some (t', m')}"
begin

abbreviation child :: "('t \<times> 't) set" where
  "child \<equiv> {(t', t). \<exists>m m'. step t m = Some (t', m')}"

lemma pick_less:
  assumes "i < length ts" and "step (ts ! i) m \<noteq> None"
  shows "(mset (fst (pick step i (ts, m))), mset ts) \<in> mult child"
proof -
  obtain t m' where t: "step (ts ! i) m = Some (t, m')" using assms(2) by auto
  have "(mset ts - {#ts ! i#} + {#t#}, mset ts - {#ts ! i#} + {#ts ! i#}) \<in> mult child"
    using t by (intro one_step_implies_mult) auto
  then show ?thesis using assms(1) t by (simp add: pick_def mset_update)
qed

lemma fair_ends:
  assumes "fair (length (fst s)) f"
  shows "\<exists>N. stopped step (run_schedule step (map f [0..<N]) s)"
  using assms
proof (induction s arbitrary: f rule: wf_induct_rule [OF wf_inv_image [OF wf_mult [OF wf_steps], of "\<lambda>s. mset (fst s)"]])
  case (1 s)
  obtain ts m where s: "s = (ts, m)" by fastforce
  let ?can = "\<lambda>j. f j < length ts \<and> step (ts ! f j) m \<noteq> None"
  show ?case
  proof (cases "stopped step s")
    case True
    then show ?thesis by (intro exI [of _ 0]) simp
  next
    case False
    then obtain i where "i < length ts" "step (ts ! i) m \<noteq> None"
      by (auto simp: stopped_def s in_set_conv_nth)
    moreover from this obtain j where "f j = i" using "1.prems" by (auto simp: fair_def s)
    ultimately have ex: "?can j" by simp
    define J where "J = (LEAST j. ?can j)"
    have J: "?can J" unfolding J_def by (rule LeastI [of ?can, OF ex])
    have still: "pick step (f k) s = s" if "k < J" for k
      unfolding s by (rule pick_stays, rule not_less_Least) (use that J_def in simp)
    have "run_schedule step (map f [0..<k]) s = s" if "k \<le> J" for k
      using that by (induction k) (simp_all add: still)
    then have upto: "run_schedule step (map f [0..<Suc J]) s = pick step (f J) s" by simp
    have "(pick step (f J) s, s) \<in> inv_image (mult child) (\<lambda>s. mset (fst s))"
      using pick_less [OF J [THEN conjunct1] J [THEN conjunct2]] by (simp add: s)
    moreover have "fair (length (fst (pick step (f J) s))) (\<lambda>j. f (j + Suc J))"
      unfolding fair_def
    proof (intro allI impI)
      fix i k assume "i < length (fst (pick step (f J) s))"
      then obtain j where "k + Suc J \<le> j" "f j = i" using "1.prems" by (fastforce simp: fair_def)
      then show "\<exists>j \<ge> k. f (j + Suc J) = i" by (intro exI [of _ "j - Suc J"]) simp
    qed
    ultimately obtain N where
      N: "stopped step (run_schedule step (map (\<lambda>j. f (j + Suc J)) [0..<N]) (pick step (f J) s))"
      using "1.IH" by blast
    have "run_schedule step (map f [0..<Suc J + N]) s =
        run_schedule step (map (\<lambda>j. f (j + Suc J)) [0..<N]) (pick step (f J) s)"
      using upto by (simp only: map_upt_split run_schedule_simps)
    with N show ?thesis by metis
  qed
qed

end

text \<open>Each access brings a thread nearer to the end of its tree.\<close>

lemma wf_access_step: "wf {(t', t :: 'a access). \<exists>m m'. access_step t m = Some (t', m')}"
proof (rule wfUNIVI)
  fix P :: "'a access \<Rightarrow> bool" and t
  assume step: "\<forall>t. (\<forall>t'. (t', t) \<in> {(t', t). \<exists>m m'. access_step t m = Some (t', m')} \<longrightarrow> P t') \<longrightarrow> P t"
  show "P t" by (induction t) (rule step [rule_format], auto)+
qed

interpretation accesses: ending_threads access_step
  by unfold_locales (rule wf_access_step)

section \<open>What each thread keeps, all keep together\<close>

locale keeping_threads =
  fixes step :: "'t \<Rightarrow> 's \<Rightarrow> ('t \<times> 's) option" and good :: "'t \<Rightarrow> bool"
  assumes step_good: "good t \<Longrightarrow> step t m = Some (t', m') \<Longrightarrow> good t'"
begin

lemma pick_good:
  assumes "\<forall>t \<in> set (fst s). good t"
  shows "\<forall>t \<in> set (fst (pick step i s)). good t"
proof -
  obtain ts m where s: "s = (ts, m)" by fastforce
  show ?thesis
  proof (cases "i < length ts \<and> step (ts ! i) m \<noteq> None")
    case True
    then obtain t m' where t: "step (ts ! i) m = Some (t, m')" by auto
    have "good t" using step_good [OF _ t] assms True by (simp add: s)
    then have "\<forall>x \<in> set (ts[i := t]). good x"
      using assms set_update_subset_insert [of ts i t] by (auto simp: s)
    then show ?thesis using True t by (simp add: s pick_def)
  next
    case False
    then show ?thesis using assms pick_stays [of i ts step m] by (simp add: s)
  qed
qed

lemma run_good: "\<forall>t \<in> set (fst s). good t \<Longrightarrow> \<forall>t \<in> set (fst (run_schedule step js s)). good t"
proof (induction js arbitrary: s)
  case (Cons j js)
  show ?case using Cons.IH [OF pick_good [OF Cons.prems]] by simp
qed simp

end

section \<open>Pieces of memory\<close>

definition within :: "(ptr \<times> nat) list \<Rightarrow> ptr \<Rightarrow> nat \<Rightarrow> bool" where
  "within ps p n \<longleftrightarrow> (\<exists>(b, k) \<in> set ps. pobj p = pobj b \<and> poff b \<le> poff p \<and> poff p + n \<le> poff b + k)"

text \<open>No crash, all accesses within the pieces, and the result as wished, for all values of the loads.\<close>

primrec allowed :: "(ptr \<times> nat) list \<Rightarrow> ('a \<Rightarrow> bool) \<Rightarrow> 'a access \<Rightarrow> bool" where
  "allowed ps Q (Return x) \<longleftrightarrow> Q x"
| "allowed ps Q Crash \<longleftrightarrow> False"
| "allowed ps Q (Load64 p k) \<longleftrightarrow> within ps p 8 \<and> (\<forall>v. allowed ps Q (k v))"
| "allowed ps Q (Store64 p v k) \<longleftrightarrow> within ps p 8 \<and> allowed ps Q k"
| "allowed ps Q (Load32 p k) \<longleftrightarrow> within ps p 4 \<and> (\<forall>v. allowed ps Q (k v))"
| "allowed ps Q (Store32 p v k) \<longleftrightarrow> within ps p 4 \<and> allowed ps Q k"

lemma allowed_and_then:
  "allowed ps Q t \<Longrightarrow> (\<And>x. Q x \<Longrightarrow> allowed ps R (f x)) \<Longrightarrow> allowed ps R (and_then t f)"
  by (induction t) auto

lemma within_mono: "within ps p n \<Longrightarrow> set ps \<subseteq> set ps' \<Longrightarrow> within ps' p n"
  unfolding within_def by blast

lemma allowed_mono:
  "allowed ps Q t \<Longrightarrow> set ps \<subseteq> set ps' \<Longrightarrow> (\<And>x. Q x \<Longrightarrow> Q' x) \<Longrightarrow> allowed ps' Q' t"
  by (induction t) (auto intro: within_mono)

lemma allowed_step: "allowed ps Q t \<Longrightarrow> access_step t m = Some (t', m') \<Longrightarrow> allowed ps Q t'"
  by (cases t) auto

lemma allowed_next: "allowed ps Q t \<Longrightarrow> next_access t = Some (p, n) \<Longrightarrow> within ps p n"
  by (cases t) auto

lemma allowed_stopped:
  assumes "allowed ps Q t" and "access_step t m = None"
  obtains x where "t = Return x" "Q x"
  using assms by (cases t) auto

interpretation allowed: keeping_threads access_step "allowed ps Q" for ps Q
  by unfold_locales (rule allowed_step)

end
