(* ===== verification/FuzzThreads.thy ===== *)
theory FuzzThreads
  imports FuzzHarness AccessInterleaving
begin

text \<open>
  The reader and writer threads of fuzzer/fmq_fuzzer.cpp at work at the same time, on the level of single
  memory accesses. They race on purpose: each overwrites the counter of the other. Whatever the
  interleaving, no thread crashes or leaves the ring and the counters, and all of them end.
\<close>

section \<open>The calls, for all values of their loads\<close>

lemma within_head [simp]: "within ((p, n) # ps) p n"
  by (auto simp: within_def)

lemma within_tail: "within ps p n \<Longrightarrow> within (x # ps) p n"
  by (auto simp: within_def)

lemma misaligned_dvd: "w mod sizeofT q = 0 \<longleftrightarrow> qz q dvd unat w"
  by (simp add: qz_def unat_mod dvd_eq_mod_eq_0 flip: unat_eq_zero)

text \<open>The result of a begin: when it succeeds, the transaction of an aligned counter value.\<close>

definition aligned_tx :: "MessageQueue \<Rightarrow> u64 \<Rightarrow> bool \<times> MemTransaction \<Rightarrow> bool" where
  "aligned_tx q n r \<longleftrightarrow> (fst r \<longrightarrow> (\<exists>pos. qz q dvd unat pos \<and> snd r = ring_tx q pos n))"

lemma aligned_tx_simps [simp]:
  "aligned_tx q n (False, tx)" "qz q dvd unat v \<Longrightarrow> aligned_tx q n (True, ring_tx q v n)"
  by (auto simp: aligned_tx_def)

text \<open>The transaction as both begins build it.\<close>

lemma built_tx:
  "(if (getSize (qdesc q) - v mod getSize (qdesc q)) div sizeofT q < n
    then \<lparr>first = \<lparr>address = badd (mRing q) (v mod getSize (qdesc q)),
                    len = (getSize (qdesc q) - v mod getSize (qdesc q)) div sizeofT q\<rparr>,
          second = \<lparr>address = mRing q, len = n - (getSize (qdesc q) - v mod getSize (qdesc q)) div sizeofT q\<rparr>\<rparr>
    else \<lparr>first = \<lparr>address = badd (mRing q) (v mod getSize (qdesc q)), len = n\<rparr>, second = emptyMemRegion\<rparr>) =
   ring_tx q v n"
  by (simp add: ring_tx_def contiguous_def Let_def)

lemma beginRead_allowed:
  assumes wf: "mq_wf q" and "within ps (qwp q) 8" "within ps (qrp q) 8"
  shows "allowed ps (aligned_tx q n) (beginRead_acc q n)"
  using assms(2,3) mq_wf_ptrs(1,3,4) [OF wf] mq_wf_sizes(1,2) [OF wf]
  by (auto simp: beginRead_acc_def built_tx misaligned_dvd)

lemma beginWrite_allowed:
  assumes wf: "mq_wf q" and "within ps (qwp q) 8" "within ps (qrp q) 8"
  shows "allowed ps (aligned_tx q n) (beginWrite_acc q n e)"
proof -
  obtain c where c: "getQuantumCount q = Some c" using getQuantumCount_eq [OF wf] by blast
  have "allowed ps (\<lambda>_. True) (if flavor q = kSynchronizedReadWrite
      then and_then (availableToWrite_acc q) (\<lambda>a. Return (a < n)) else Return False)"
    using assms(2,3) mq_wf_ptrs [OF wf] mq_wf_sizes [OF wf]
    by (simp add: availableToWrite_acc_def availableToReadBytes_acc_def)
  then show ?thesis
    using assms(2,3) mq_wf_ptrs(1,4) [OF wf] mq_wf_sizes(1,2) [OF wf] c
    unfolding beginWrite_acc_def
    by (auto simp: built_tx misaligned_dvd elim!: allowed_and_then)
qed

lemma commit_allowed:
  assumes wf: "mq_wf q" and "within ps (qwp q) 8" "within ps (qrp q) 8"
  shows "allowed ps (\<lambda>_. True) (commitRead_acc q n)" "allowed ps (\<lambda>_. True) (commitWrite_acc q n)"
  using assms(2,3) mq_wf_ptrs [OF wf] by (simp_all add: commitRead_acc_def commitWrite_acc_def)

section \<open>The loops as access programs\<close>

definition corrupt_acc :: "'d provider \<Rightarrow> bool \<Rightarrow> ptr option \<Rightarrow> 'd \<Rightarrow> 'd access" where
  "corrupt_acc P userFd counter fdp =
     (if userFd then Return fdp else
        (let (b, fdp1) = ConsumeInRange P fdp 0 255
         in if b = 1
            then needs counter (\<lambda>c. let (v, fdp2) = ConsumeInRange P fdp1 0 (- 1) in Store64 c v (Return fdp2))
            else Return fdp1))"

definition reader_round_acc ::
  "'d provider \<Rightarrow> u64 \<Rightarrow> MessageQueue \<Rightarrow> ptr option \<Rightarrow> bool \<Rightarrow> 'd \<Rightarrow> ('d \<times> ptr option) access" where
  "reader_round_acc P kMaxNumElements readMq writeCounter userFd fdp =
     (let (numElements, fdp1) = ConsumeInRange P fdp 0 kMaxNumElements
      in and_then (beginRead_acc readMq numElements) (\<lambda>(ok, tx).
         if \<not> ok then Return (fdp1, None)
         else and_then (corrupt_acc P userFd writeCounter fdp1) (\<lambda>fdp2.
           needs (address (first tx)) (\<lambda>firstStart. Load32 firstStart (\<lambda>v.
             and_then (commitRead_acc readMq numElements) (\<lambda>done. Return (fdp2, Some firstStart)))))))"

definition writer_round_acc ::
  "'d provider \<Rightarrow> MessageQueue \<Rightarrow> ptr option \<Rightarrow> bool \<Rightarrow> 'd \<Rightarrow> ('d \<times> ptr option) access" where
  "writer_round_acc P writeMq readCounter userFd fdp =
     and_then (beginWrite_acc writeMq 1 emptyMemTransaction) (\<lambda>(ok, tx).
       if \<not> ok then (let (b, fdp1) = ConsumeInRange P fdp 0 255 in Return (fdp1, None))
       else and_then (corrupt_acc P userFd readCounter fdp) (\<lambda>fdp1.
         needs (address (first tx)) (\<lambda>firstStart.
           let (v, fdp2) = ConsumePayload P fdp1
           in Store32 firstStart v
                (and_then (commitWrite_acc writeMq 1) (\<lambda>done. Return (fdp2, Some firstStart))))))"

fun while_acc ::
  "nat \<Rightarrow> 'd provider \<Rightarrow> ('d \<Rightarrow> ('d \<times> ptr option) access) \<Rightarrow> 'd \<Rightarrow> ptr list fuelled access" where
  "while_acc 0 P round fdp = Return NoFuel"
| "while_acc (Suc n) P round fdp =
     (if remaining_bytes P fdp = 0 then Return (Done [])
      else and_then (round fdp) (\<lambda>(fdp', used).
        and_then (while_acc n P round fdp') (\<lambda>rest.
          Return (case rest of NoFuel \<Rightarrow> NoFuel
            | Done ps \<Rightarrow> Done (case used of None \<Rightarrow> ps | Some p \<Rightarrow> p # ps)))))"

text \<open>The two functions after their queue object is there; the counter is the one computed from the ring.\<close>

definition reader_acc ::
  "nat \<Rightarrow> 'd provider \<Rightarrow> u64 \<Rightarrow> MessageQueue \<Rightarrow> AidlMQDescriptor \<Rightarrow> bool \<Rightarrow> 'd \<Rightarrow> ptr list fuelled access" where
  "reader_acc n P kMaxNumElements readMq desc userFd =
     while_acc n P (reader_round_acc P kMaxNumElements readMq
       (getCounterPtr_aidl (mRing readMq) desc WRITEPTRPOS) userFd)"

definition writer_acc ::
  "nat \<Rightarrow> 'd provider \<Rightarrow> MessageQueue \<Rightarrow> AidlMQDescriptor \<Rightarrow> bool \<Rightarrow> 'd \<Rightarrow> ptr list fuelled access" where
  "writer_acc n P writeMq desc userFd =
     while_acc n P (writer_round_acc P writeMq (getCounterPtr_aidl (mRing writeMq) desc READPTRPOS) userFd)"

section \<open>Alone they are the loops of the harness\<close>

lemma run_corrupt:
  "run (corrupt_acc P userFd c d) m = map_option (\<lambda>x. x) (corrupt P userFd c d m)"
  by (cases c) (auto simp: corrupt_acc_def corrupt_def Let_def split: prod.split)

lemma run_reader_round:
  "run (reader_round_acc P k q c userFd d) m =
    map_option (\<lambda>(d', m', u). ((d', u), m')) (reader_round P k q c userFd d m)"
proof -
  obtain n d1 where n: "ConsumeInRange P d 0 k = (n, d1)" by fastforce
  show ?thesis
    by (cases "beginRead q m n")
      (auto simp: reader_round_acc_def reader_round_def n run_beginRead run_corrupt run_commitRead Let_def
        split: prod.split bind_split option.split)
qed

lemma run_writer_round:
  "run (writer_round_acc P q c userFd d) m =
    map_option (\<lambda>(d', m', u). ((d', u), m')) (writer_round P q c userFd d m)"
  by (cases "beginWrite q m 1 emptyMemTransaction")
    (auto simp: writer_round_acc_def writer_round_def run_beginWrite run_corrupt run_commitWrite Let_def
      split: prod.split bind_split option.split)

text \<open>The two results, with the memory in different places.\<close>

definition loop_result :: "(ptr list fuelled \<times> mem) option \<Rightarrow> (mem \<times> ptr list) fuelled option" where
  "loop_result r = map_option (\<lambda>(f, m). case f of NoFuel \<Rightarrow> NoFuel | Done ps \<Rightarrow> Done (m, ps)) r"

lemma loop_result_simps [simp]:
  "loop_result None = None" "loop_result (Some (NoFuel, m)) = Some NoFuel"
  "loop_result (Some (Done ps, m)) = Some (Done (m, ps))"
  by (simp_all add: loop_result_def)

lemma run_while:
  assumes "\<And>d m. run (racc d) m = map_option (\<lambda>(d', m', u). ((d', u), m')) (r d m)"
  shows "loop_result (run (while_acc n P racc d) m) = while_data n P r d m"
proof (induction n arbitrary: d m)
  case (Suc n)
  show ?case
  proof (cases "remaining_bytes P d = 0")
    case False
    show ?thesis
    proof (cases "r d m")
      case (Some x)
      then obtain d' m' u where r: "r d m = Some (d', m', u)" by (cases x) auto
      note step = False r assms Suc.IH [of d' m', symmetric]
      show ?thesis
      proof (cases "run (while_acc n P racc d') m'")
        case (Some y)
        obtain f m'' where "y = (f, m'')" by fastforce
        with Some show ?thesis by (cases f) (simp_all add: step)
      qed (simp add: step)
    qed (use False in \<open>simp add: assms\<close>)
  qed simp
qed simp

lemma run_loops:
  "loop_result (run (reader_acc n P k q desc u d) m) = reader_loop n P k q desc u d m"
  "loop_result (run (writer_acc n P q desc u d) m) = writer_loop n P q desc u d m"
  by (simp_all add: reader_acc_def writer_acc_def reader_loop_def writer_loop_def
      run_while run_reader_round run_writer_round)

section \<open>Every interleaving stays inside and ends\<close>

lemma in_slot_within:
  "in_slot q p \<Longrightarrow> qz q = 4 \<Longrightarrow> (qring q, qS q) \<in> set ps \<Longrightarrow> within ps p 4"
  by (auto simp: in_slot_def within_def intro!: bexI [of _ "(qring q, qS q)"])

lemma corrupt_allowed:
  assumes P: "provider_ok P" and c: "userFd \<or> (\<exists>c. counter = Some c \<and> within ps c 8)"
  shows "allowed ps (\<lambda>d'. remaining_bytes P d' \<le> remaining_bytes P d) (corrupt_acc P userFd counter d)"
proof -
  obtain b d1 where b: "ConsumeInRange P d 0 255 = (b, d1)" by fastforce
  obtain v d2 where v: "ConsumeInRange P d1 0 (- 1) = (v, d2)" by fastforce
  have "remaining_bytes P d1 \<le> remaining_bytes P d" "remaining_bytes P d2 \<le> remaining_bytes P d1"
    using P b v unfolding provider_ok_def by (metis snd_conv word_zero_le)+
  then show ?thesis using c by (auto simp: corrupt_acc_def b v)
qed

text \<open>The messages are at \<open>firstStart\<close>: an aligned counter value gives an address in the ring.\<close>

lemma aligned_tx_first:
  assumes "aligned_tx q n (True, tx)" and "mq_wf q" and "mq_whole q"
  obtains p where "address (first tx) = Some p" "in_slot q p"
  using assms first_in_slot [OF assms(2,3)] unfolding aligned_tx_def by (metis fst_conv snd_conv)

text \<open>A round that uses data up and reads or writes in the ring, for all values of its loads.\<close>

definition round_allowed ::
  "'d provider \<Rightarrow> MessageQueue \<Rightarrow> (ptr \<times> nat) list \<Rightarrow> ('d \<Rightarrow> ('d \<times> ptr option) access) \<Rightarrow> bool" where
  "round_allowed P q ps round \<longleftrightarrow> (\<forall>d. 0 < remaining_bytes P d \<longrightarrow>
     allowed ps (\<lambda>(d', u). remaining_bytes P d' < remaining_bytes P d \<and> (\<forall>p. u = Some p \<longrightarrow> in_slot q p))
       (round d))"

text \<open>What a thread may touch: the ring, both counters and the counter it overwrites.\<close>

definition covers :: "(ptr \<times> nat) list \<Rightarrow> MessageQueue \<Rightarrow> bool \<Rightarrow> ptr option \<Rightarrow> bool" where
  "covers ps q userFd counter \<longleftrightarrow> (qring q, qS q) \<in> set ps \<and> within ps (qwp q) 8 \<and> within ps (qrp q) 8 \<and>
     (userFd \<or> (\<exists>c. counter = Some c \<and> within ps c 8))"

lemma coversD:
  assumes "covers ps q userFd counter"
  shows "(qring q, qS q) \<in> set ps" "within ps (qwp q) 8" "within ps (qrp q) 8"
    "userFd \<or> (\<exists>c. counter = Some c \<and> within ps c 8)"
  using assms by (simp_all add: covers_def)

lemma reader_round_allowed:
  assumes P: "provider_ok P" and wf: "mq_wf q" "mq_whole q" "qz q = 4" and k: "0 < k"
    and ps: "covers ps q userFd counter"
  shows "round_allowed P q ps (reader_round_acc P k q counter userFd)"
  unfolding round_allowed_def
proof (intro allI impI)
  fix d assume data: "0 < remaining_bytes P d"
  let ?Q = "\<lambda>(d', u). remaining_bytes P d' < remaining_bytes P d \<and> (\<forall>p. u = Some p \<longrightarrow> in_slot q p)"
  obtain n d1 where n: "ConsumeInRange P d 0 k = (n, d1)" by fastforce
  have d1: "remaining_bytes P d1 < remaining_bytes P d"
    using consume_range(2) [OF P k n] data by (simp add: uses_def)
  have cor: "allowed ps (\<lambda>d'. remaining_bytes P d' \<le> remaining_bytes P d1) (corrupt_acc P userFd counter d1)"
    by (rule corrupt_allowed [OF P coversD(4) [OF ps]])
  have rest: "allowed ps ?Q (and_then (corrupt_acc P userFd counter d1) (\<lambda>fdp2.
      needs (address (first tx)) (\<lambda>firstStart. Load32 firstStart (\<lambda>v.
        and_then (commitRead_acc q n) (\<lambda>done. Return (fdp2, Some firstStart))))))"
    if "aligned_tx q n (True, tx)" for tx
  proof -
    note al = that
    obtain p where p: "address (first tx) = Some p" "in_slot q p"
      by (rule aligned_tx_first [OF al wf(1,2)])
    note slot = in_slot_within [OF p(2) wf(3) coversD(1) [OF ps]]
    show ?thesis
      by (rule allowed_and_then [OF cor])
        (use p slot d1
          in \<open>auto intro!: allowed_and_then [OF commit_allowed(1) [OF wf(1) coversD(2,3) [OF ps]]]\<close>)
  qed
  show "allowed ps ?Q (reader_round_acc P k q counter userFd d)"
    unfolding reader_round_acc_def n Let_def prod.case
    by (rule allowed_and_then [OF beginRead_allowed [OF wf(1) coversD(2,3) [OF ps]]])
      (use rest d1 in \<open>auto split: if_splits\<close>)
qed

lemma writer_round_allowed:
  assumes P: "provider_ok P" and wf: "mq_wf q" "mq_whole q" "qz q = 4"
    and ps: "covers ps q userFd counter"
  shows "round_allowed P q ps (writer_round_acc P q counter userFd)"
  unfolding round_allowed_def
proof (intro allI impI)
  fix d assume data: "0 < remaining_bytes P d"
  let ?Q = "\<lambda>(d', u). remaining_bytes P d' < remaining_bytes P d \<and> (\<forall>p. u = Some p \<longrightarrow> in_slot q p)"
  obtain x d0 where x: "ConsumeInRange P d 0 255 = (x, d0)" by fastforce
  have d0: "remaining_bytes P d0 < remaining_bytes P d"
    using consume_range(2) [OF P _ x] data by (simp add: uses_def)
  have cor: "allowed ps (\<lambda>d'. remaining_bytes P d' \<le> remaining_bytes P d) (corrupt_acc P userFd counter d)"
    by (rule corrupt_allowed [OF P coversD(4) [OF ps]])
  have less: "remaining_bytes P (snd (ConsumePayload P d1)) < remaining_bytes P d"
    if "remaining_bytes P d1 \<le> remaining_bytes P d" for d1
  proof -
    have "uses P d1 (snd (ConsumePayload P d1))" using P by (simp add: provider_ok_def)
    then show ?thesis using that data by (auto simp: uses_def)
  qed
  have rest: "allowed ps ?Q (and_then (corrupt_acc P userFd counter d) (\<lambda>fdp1.
      needs (address (first tx)) (\<lambda>firstStart.
        let (v, fdp2) = ConsumePayload P fdp1
        in Store32 firstStart v (and_then (commitWrite_acc q 1) (\<lambda>done. Return (fdp2, Some firstStart))))))"
    if "aligned_tx q 1 (True, tx)" for tx
  proof -
    note al = that
    obtain p where p: "address (first tx) = Some p" "in_slot q p"
      by (rule aligned_tx_first [OF al wf(1,2)])
    note slot = in_slot_within [OF p(2) wf(3) coversD(1) [OF ps]]
    show ?thesis
      by (rule allowed_and_then [OF cor])
        (use p slot less in \<open>auto simp: Let_def split: prod.split
          intro!: allowed_and_then [OF commit_allowed(2) [OF wf(1) coversD(2,3) [OF ps]]]\<close>,
          metis snd_conv)
  qed
  show "allowed ps ?Q (writer_round_acc P q counter userFd d)"
    unfolding writer_round_acc_def
    by (rule allowed_and_then [OF beginWrite_allowed [OF wf(1) coversD(2,3) [OF ps]]])
      (use rest d0 in \<open>auto simp: x split: if_splits\<close>)
qed

text \<open>A loop that is fine ends with the addresses it has used, all of them in the ring.\<close>

definition ends_inside :: "MessageQueue \<Rightarrow> ptr list fuelled \<Rightarrow> bool" where
  "ends_inside q r = (case r of NoFuel \<Rightarrow> False | Done us \<Rightarrow> (\<forall>p \<in> set us. in_slot q p))"

lemma ends_inside_simps [simp]:
  "\<not> ends_inside q NoFuel" "ends_inside q (Done us) \<longleftrightarrow> (\<forall>p \<in> set us. in_slot q p)"
  by (simp_all add: ends_inside_def)

lemma while_allowed:
  assumes r: "round_allowed P q ps round"
  shows "remaining_bytes P d < n \<Longrightarrow> allowed ps (ends_inside q) (while_acc n P round d)"
proof (induction n arbitrary: d)
  case (Suc n)
  show ?case
  proof (cases "remaining_bytes P d = 0")
    case False
    then have a: "allowed ps (\<lambda>(d', u). remaining_bytes P d' < remaining_bytes P d \<and>
        (\<forall>p. u = Some p \<longrightarrow> in_slot q p)) (round d)"
      using r by (simp add: round_allowed_def)
    have "allowed ps (ends_inside q) (and_then (round d) (\<lambda>(d', used).
        and_then (while_acc n P round d') (\<lambda>rest.
          Return (case rest of NoFuel \<Rightarrow> NoFuel
            | Done us \<Rightarrow> Done (case used of None \<Rightarrow> us | Some p \<Rightarrow> p # us)))))"
    proof (rule allowed_and_then [OF a], clarify)
      fix d' u assume less: "remaining_bytes P d' < remaining_bytes P d" and u: "\<forall>p. u = Some p \<longrightarrow> in_slot q p"
      then have "remaining_bytes P d' < n" using Suc.prems by simp
      show "allowed ps (ends_inside q) (and_then (while_acc n P round d') (\<lambda>rest.
          Return (case rest of NoFuel \<Rightarrow> NoFuel
            | Done us \<Rightarrow> Done (case u of None \<Rightarrow> us | Some p \<Rightarrow> p # us))))"
        by (rule allowed_and_then [OF Suc.IH [OF \<open>remaining_bytes P d' < n\<close>]])
          (use u in \<open>auto simp: ends_inside_def split: fuelled.splits option.split\<close>)
    qed
    then show ?thesis using False by simp
  qed simp
qed simp

lemma loops_allowed:
  assumes "provider_ok P" and "mq_wf q" and "mq_whole q" and "qz q = 4" and "remaining_bytes P d < n"
  shows "0 < kMaxNumElements \<Longrightarrow> covers ps q userFd (getCounterPtr_aidl (mRing q) desc WRITEPTRPOS) \<Longrightarrow>
      allowed ps (ends_inside q) (reader_acc n P kMaxNumElements q desc userFd d)"
    "covers ps q userFd (getCounterPtr_aidl (mRing q) desc READPTRPOS) \<Longrightarrow>
      allowed ps (ends_inside q) (writer_acc n P q desc userFd d)"
  unfolding reader_acc_def writer_acc_def
  by (rule while_allowed [OF reader_round_allowed [OF assms(1-4)] assms(5)], assumption+)
    (rule while_allowed [OF writer_round_allowed [OF assms(1-4)] assms(5)])

end
