(* ===== verification/FuzzSetup.thy ===== *)
theory FuzzSetup
  imports FuzzHarness HidlMessageQueue
begin

text \<open>
  The set-up of a run of fuzzer/fmq_fuzzer.cpp with an AIDL queue: the random descriptor, the queue of the
  writer and its descriptor for the readers. The closing
  of a file descriptor by its C++ owner is an event here, because the harness depends on it.
\<close>

section \<open>Descriptors\<close>

definition kAlignment :: u64 where "kAlignment = 8"

definition kMaxNumElements :: "os \<Rightarrow> u64" where
  "kMaxNumElements os = os_pagesize os * 10 div 4 - kAlignment + 1"

definition kMaxCustomGrantorMemoryBytes :: "os \<Rightarrow> u64" where
  "kMaxCustomGrantorMemoryBytes os = os_pagesize os"

definition ConsumeBool :: "'d provider \<Rightarrow> 'd \<Rightarrow> bool \<times> 'd" where
  "ConsumeBool P fdp = (case ConsumeInRange P fdp 0 1 of (b, fdp1) \<Rightarrow> (b = 1, fdp1))"

text \<open>The destructor of the vector of files in an AIDL descriptor.\<close>

definition close_all :: "os \<Rightarrow> int list \<Rightarrow> world \<Rightarrow> world" where
  "close_all os fds w = foldr (sys_close os) fds w"

text \<open>The random grantors; one that does not fit into the page ends the attempt.\<close>

definition consume_grantor :: "os \<Rightarrow> 'd provider \<Rightarrow> 'd \<Rightarrow> AidlGrantorDescriptor \<times> 'd" where
  "consume_grantor os P fdp =
     (let (i, fdp1) = ConsumeIntInRange P fdp (- 2) 2;
          (off, fdp2) = ConsumeInRange P fdp1 0 (kMaxCustomGrantorMemoryBytes os);
          (ext, fdp3) = ConsumeInRange P fdp2 0 (kMaxCustomGrantorMemoryBytes os)
      in (\<lparr>a_fdIndex = word_of_int i, a_offset = ucast off, a_extent = ext\<rparr>, fdp3))"

fun consume_grantors ::
  "os \<Rightarrow> 'd provider \<Rightarrow> nat \<Rightarrow> 'd \<Rightarrow> AidlGrantorDescriptor list option \<times> 'd" where
  "consume_grantors os P 0 fdp = (Some [], fdp)"
| "consume_grantors os P (Suc k) fdp =
     (let (g, fdp1) = consume_grantor os P fdp
      in if scast (a_offset g) + a_extent g > os_pagesize os then (None, fdp1)
         else (case consume_grantors os P k fdp1 of (gs, fdp2) \<Rightarrow> (map_option ((#) g) gs, fdp2)))"

text \<open>
  The custom descriptor. The local \<open>fd\<close> still owns the file that the descriptor names
  (\<open>handle.fds.emplace_back(fd.get())\<close>), and closes it on return.
\<close>

definition custom_aidl_desc ::
  "os \<Rightarrow> 'd provider \<Rightarrow> 'd \<Rightarrow> world \<Rightarrow> AidlMQDescriptor option \<times> 'd \<times> world" where
  "custom_aidl_desc os P fdp w =
     (let (numGrantors, fdp1) = ConsumeInRange P fdp 0 4
      in case consume_grantors os P (unat numGrantors) fdp1 of
           (None, fdp2) \<Rightarrow> (None, fdp2, w)
         | (Some grantors, fdp2) \<Rightarrow>
             (let (fd, w1) = sys_ashmem os (kMaxCustomGrantorMemoryBytes os) w;
                  (b, fdp3) = ConsumeBool P fdp2
              in (Some \<lparr>a_grantors = grantors, a_fds = [fd], a_ints = [], a_quantum = 4,
                    a_flags = (if b then 1 else 0)\<rparr>, fdp3, sys_close os fd w1)))"

text \<open>\<open>desc.handle.fds[0]\<close> of a descriptor without files is a crash.\<close>

definition getAidlDesc ::
  "os \<Rightarrow> 'd provider \<Rightarrow> MessageQueue option \<Rightarrow> 'd \<Rightarrow> world \<Rightarrow>
   (AidlMQDescriptor option \<times> 'd \<times> world) option" where
  "getAidlDesc os P queue fdp w =
     (case queue of
        None \<Rightarrow> Some (custom_aidl_desc os P fdp w)
      | Some q \<Rightarrow> do {
          (desc, w1) \<leftarrow> dupeDesc os (mDesc q) w;
          (case a_fds desc of
             [] \<Rightarrow> None
           | fd # fds \<Rightarrow>
               if fd = - 1 then Some (None, fdp, close_all os (a_fds desc) w1)
               else Some (Some desc, fdp, w1))
        })"

section \<open>The run\<close>

text \<open>The queue of the writer, if there is one, and whether the ring is in a file of the harness.\<close>

definition fuzz_queue ::
  "os \<Rightarrow> 'd provider \<Rightarrow> AidlFlavor \<Rightarrow> bool \<Rightarrow> 'd \<Rightarrow> world \<Rightarrow>
   (MessageQueue option \<times> bool \<times> 'd \<times> world) option" where
  "fuzz_queue os P U blocking fdp w = do {
     let (evFlag, fdp1) = (if blocking then (True, fdp) else ConsumeBool P fdp);
     let (numElements, fdp2) = ConsumeInRange P fdp1 1 (kMaxNumElements os);
     let bufferSize = numElements * 4;
     let (userFd, fdp3) = ConsumeBool P fdp2;
     let (manualGrantors, fdp4) = ConsumeBool P fdp3;
     if manualGrantors then do {
       (customDesc, fdp5, w1) \<leftarrow> getAidlDesc os P None fdp4 w;
       (case customDesc of
          None \<Rightarrow> Some (None, userFd, fdp5, w1)
        | Some d \<Rightarrow> do {
            (q, w2) \<leftarrow> AidlMessageQueue_of_desc os U 4 d True w1;
            Some (Some q, userFd, fdp5, close_all os (a_fds d) w2)
          })
     } else do {
       let (dataFd, w1) = (if userFd then sys_ashmem os bufferSize w else (- 1, w));
       (q, w2) \<leftarrow> AidlMessageQueue_of_size os U 4 numElements evFlag dataFd bufferSize w1;
       Some (Some q, userFd, fdp4, w2)
     }
   }"

section \<open>Random grantors stay inside the page\<close>

lemma consume_int_range: "provider_ok P \<Longrightarrow> ConsumeIntInRange P d lo hi = (v, d') \<Longrightarrow> lo \<le> hi \<Longrightarrow>
    lo \<le> v \<and> v \<le> hi"
  unfolding provider_ok_def by (metis fst_conv)

text \<open>A valid queue from an AIDL descriptor has a descriptor with the very grantors of that one.\<close>

lemma attached_grantors:
  assumes sys: "system_ok os" and c: "AidlMessageQueue_of_desc os U sz a r w = Some (q, w')"
    and v: "isValid q"
  obtains d s s' w1 w2 where "initialized os d q" "flavor q = FlavorTypeToValue U"
    "a_grantors a = map dupe_grantor (mGrantors d)" "shim_of_desc os a w = (s, w1)"
    "shim_copy os (FlavorTypeToValue U) s w2 = Some (d, s')" "sizeofT q = sz"
proof -
  obtain s w1 where sh: "shim_of_desc os a w = (s, w1)" by fastforce
  then obtain w2 where c2: "MessageQueueBase_of_desc Shim os (FlavorTypeToValue U) sz s r w1 = Some (q, w2)"
    using c by (auto simp: AidlMessageQueue_of_desc_def split: bind_splits)
  obtain d u u' where i: "initialized os d q" and f: "flavor q = FlavorTypeToValue U"
    and z: "sizeofT q = sz" and cp: "shim_copy os (FlavorTypeToValue U) s u = Some (d, u')"
    using shim.of_desc_valid [OF sys c2 v] unfolding Shim_simps by metis
  have "mHandle d \<noteq> None" using i by (auto simp: initialized_def grantor_mapped_def)
  then have h: "isHandleValid s" and g: "mGrantors d = mGrantors s"
    using cp by (auto simp: shim_copy_def shim_assign_def isHandleValid_def Let_def
        split: bind_splits option.splits prod.splits)
  then have "a_grantors a = map dupe_grantor (mGrantors d)"
    using shim_of_desc_result [OF sh, of id] by simp
  then show thesis by (rule that [OF i f _ sh cp z])
qed

text \<open>A valid queue whose grantors all end within the page lies in the page.\<close>

definition inside_page :: "os \<Rightarrow> MessageQueue \<Rightarrow> bool" where
  "inside_page os q \<longleftrightarrow>
     (\<exists>i off. mRing q = Some (Ptr (Shm i) off) \<and> off + qS q \<le> page os) \<and>
     (\<exists>i off. mWritePtr q = Some (Ptr (Shm i) off) \<and> off + 8 \<le> page os) \<and>
     (flavor q = kSynchronizedReadWrite \<longrightarrow>
       (\<exists>i off. mReadPtr q = Some (Ptr (Shm i) off) \<and> off + 8 \<le> page os))"

lemma grantors_inside_page:
  assumes i: "initialized os d q"
    and fits: "\<And>g. g \<in> set (mGrantors d) \<Longrightarrow> unat (offset g) + unat (extent g) \<le> page os"
  shows "inside_page os q"
proof -
  have len: "2 < length (mGrantors d)"
    using i by (simp add: initialized_def countGrantors_def kMinGrantorCount_def)
  have inside: "\<exists>i off. p = Ptr (Shm i) off \<and> off + unat (extent (mGrantors d ! n)) \<le> page os"
    if "grantor_mapped os d n p" for n p
  proof -
    from that obtain j where "n < length (mGrantors d)" "p = Ptr (Shm j) (unat (offset (mGrantors d ! n)))"
      by (auto simp: grantor_mapped_def Let_def)
    then show ?thesis using fits [of "mGrantors d ! n"] by simp
  qed
  have ext: "8 \<le> unat (extent (mGrantors d ! n))" if "grantor_mapped os d n p" "n \<in> {0, 1}" for n p
    using that by (auto simp: grantor_mapped_def extents_ok_def Let_def word_le_nat_alt)
  have "mDesc q = Some d" using i by (simp add: initialized_def)
  then have S: "qS q = unat (extent (mGrantors d ! 2))" using len by (simp add: qS_def qdesc_def getSize_def)
  obtain wp where wp: "mWritePtr q = Some wp" "grantor_mapped os d 1 wp" using i by (auto simp: initialized_def)
  obtain rg where rg: "mRing q = Some rg" "grantor_mapped os d 2 rg" using i by (auto simp: initialized_def)
  have "\<exists>i off. mReadPtr q = Some (Ptr (Shm i) off) \<and> off + 8 \<le> page os"
    if sync: "flavor q = kSynchronizedReadWrite"
  proof -
    obtain rp where rp: "mReadPtr q = Some rp" "grantor_mapped os d 0 rp"
      using i by (auto simp: initialized_def sync)
    then show ?thesis using inside [OF rp(2)] ext [OF rp(2)] by fastforce
  qed
  moreover have "\<exists>i off. mWritePtr q = Some (Ptr (Shm i) off) \<and> off + 8 \<le> page os"
    using wp(1) inside [OF wp(2)] ext [OF wp(2)] by fastforce
  moreover have "\<exists>i off. mRing q = Some (Ptr (Shm i) off) \<and> off + qS q \<le> page os"
    using rg(1) inside [OF rg(2)] S by fastforce
  ultimately show ?thesis by (simp add: inside_page_def)
qed

section \<open>The custom descriptor of HIDL\<close>

text \<open>
  Its grantors are those of the library, with random flags, and its handle is the only owner of the file. The
  result is what the constructor of the HIDL descriptor gets; a handle that could not be made is a crash.
\<close>

definition consume_hidl_grantor :: "os \<Rightarrow> 'd provider \<Rightarrow> 'd \<Rightarrow> GrantorDescriptor \<times> 'd" where
  "consume_hidl_grantor os P fdp =
     (let (fl, fdp1) = ConsumeInRange P fdp 0 4294967295;
          (i, fdp2) = ConsumeInRange P fdp1 0 2;
          (off, fdp3) = ConsumeInRange P fdp2 0 (kMaxCustomGrantorMemoryBytes os);
          (ext, fdp4) = ConsumeInRange P fdp3 0 (kMaxCustomGrantorMemoryBytes os)
      in (\<lparr>flags = ucast fl, fdIndex = ucast i, offset = ucast off, extent = ext\<rparr>, fdp4))"

fun consume_hidl_grantors ::
  "os \<Rightarrow> 'd provider \<Rightarrow> nat \<Rightarrow> 'd \<Rightarrow> GrantorDescriptor list option \<times> 'd" where
  "consume_hidl_grantors os P 0 fdp = (Some [], fdp)"
| "consume_hidl_grantors os P (Suc k) fdp =
     (let (g, fdp1) = consume_hidl_grantor os P fdp
      in if ucast (offset g) + extent g > os_pagesize os then (None, fdp1)
         else (case consume_hidl_grantors os P k fdp1 of (gs, fdp2) \<Rightarrow> (map_option ((#) g) gs, fdp2)))"

definition custom_hidl_desc ::
  "os \<Rightarrow> 'd provider \<Rightarrow> 'd \<Rightarrow> world \<Rightarrow>
   ((GrantorDescriptor list \<times> native_handle \<times> u64) option \<times> 'd \<times> world) option" where
  "custom_hidl_desc os P fdp w =
     (let (numGrantors, fdp1) = ConsumeInRange P fdp 0 4
      in case consume_hidl_grantors os P (unat numGrantors) fdp1 of
           (None, fdp2) \<Rightarrow> Some (None, fdp2, w)
         | (Some grantors, fdp2) \<Rightarrow> do {
             let (handle, w1) = native_handle_create os 1 0 w;
             h \<leftarrow> handle;
             let (fd, w2) = sys_ashmem os (kMaxCustomGrantorMemoryBytes os) w1;
             Some (Some (grantors, h\<lparr>data := [fd]\<rparr>, 4), fdp2, w2)
           })"

text \<open>
  The descriptor for a reader of a HIDL queue: a copy of the queue's own (\<open>std::move\<close> of a const object copies),
  or, where there is no queue, the custom one.
\<close>

definition getHidlDesc ::
  "descriptor_type \<Rightarrow> MQFlavor \<Rightarrow> os \<Rightarrow> 'd provider \<Rightarrow> MessageQueue option \<Rightarrow> 'd \<Rightarrow> world \<Rightarrow>
   (MQDescriptor option \<times> 'd \<times> world) option" where
  "getHidlDesc H fl os P queue fdp w =
     (case queue of
        None \<Rightarrow> do {
          (custom, fdp1, w1) \<leftarrow> custom_hidl_desc os P fdp w;
          Some (map_option (\<lambda>(gs, h, z). desc_of_grantors H fl gs (Some h) z) custom, fdp1, w1)
        }
      | Some q \<Rightarrow> do {
          d \<leftarrow> mDesc q;
          if \<not> isHandleValid d then Some (None, fdp, w) else do {
            (desc, w1) \<leftarrow> desc_copy H os fl d w;
            Some (Some desc, fdp, w1)
          }
        })"

text \<open>What a reader gets is the descriptor of the same queue.\<close>

lemma getHidlDesc_arrived:
  assumes H: "queue_descriptor_type H" and g: "getHidlDesc H fl os P (Some q) fdp w = Some (Some desc, fdp', w')"
    and d: "mDesc q = Some d" "mHandle d = Some h" "handle_wf h" and os: "dup_same_file os file"
  shows "arrived file file d desc"
proof -
  have "desc_copy H os fl d w = Some (desc, w')"
    using g d(1,2) by (auto simp: getHidlDesc_def isHandleValid_def split: bind_splits)
  from queue_descriptor_type.copy_same [OF H this d(2,3) os] show ?thesis
    using d(2) by (auto simp: arrived_def same_handle_def)
qed

lemma consume_hidl_grantor_result:
  assumes P: "provider_ok P" and sys: "system_ok os" and g: "consume_hidl_grantor os P d = (g, d')"
  shows "ucast (offset g) + extent g > os_pagesize os \<longleftrightarrow> page os < unat (offset g) + unat (extent g)"
proof -
  obtain fl d1 where fl: "ConsumeInRange P d 0 4294967295 = (fl, d1)" by fastforce
  obtain i d2 where i: "ConsumeInRange P d1 0 2 = (i, d2)" by fastforce
  obtain off d3 where off: "ConsumeInRange P d2 0 (os_pagesize os) = (off, d3)" by fastforce
  obtain ext d4 where ext: "ConsumeInRange P d3 0 (os_pagesize os) = (ext, d4)" by fastforce
  have geq: "offset g = ucast off" "extent g = ext"
    using g fl i off ext by (auto simp: consume_hidl_grantor_def kMaxCustomGrantorMemoryBytes_def)
  note pg = system_okD(2) [OF sys]
  have le: "unat off \<le> page os" "unat ext \<le> page os"
    using consume_range(1) [OF P _ off] consume_range(1) [OF P _ ext] system_okD(1) [OF sys]
    by (simp_all add: page_def word_le_nat_alt word_less_nat_alt)
  then have "unat (ucast (ucast off :: u32) + ext :: u64) = unat (ucast off :: u32) + unat ext"
    using pg by (subst unat_add_no_wrap) (simp_all add: ucast64_unat ucast32_unat)
  then show ?thesis by (simp add: geq page_def word_less_nat_alt)
qed

lemma consume_hidl_grantors_result:
  assumes P: "provider_ok P" and sys: "system_ok os"
  shows "consume_hidl_grantors os P k d = (Some gs, d') \<Longrightarrow> length gs = k \<and>
    (\<forall>g \<in> set gs. unat (offset g) + unat (extent g) \<le> page os)"
proof (induction k arbitrary: d gs d')
  case (Suc k)
  obtain g d1 where g: "consume_hidl_grantor os P d = (g, d1)" by fastforce
  obtain r d2 where r: "consume_hidl_grantors os P k d1 = (r, d2)" by fastforce
  from Suc.prems g r obtain gs1 where gs: "gs = g # gs1" "r = Some gs1"
    and fits: "\<not> os_pagesize os < ucast (offset g) + extent g"
    by (auto split: if_splits)
  have "length gs1 = k \<and> (\<forall>g \<in> set gs1. unat (offset g) + unat (extent g) \<le> page os)"
    by (rule Suc.IH [OF r [unfolded gs(2)]])
  then show ?case using fits consume_hidl_grantor_result [OF P sys g] gs(1) by simp
qed simp

text \<open>A valid queue object with such grantors, however its descriptor was copied, lies in the page, too.\<close>

lemma hidl_grantors_inside_page:
  assumes "provider_ok P" and "system_ok os" and "custom_hidl_desc os P fdp w = Some (Some (gs, h, z), fdp', w')"
    and "initialized os d q" and "mGrantors d = gs"
  shows "inside_page os q \<and> numFds h = 1 \<and> z = 4"
proof -
  obtain k d1 d2 where "consume_hidl_grantors os P k d1 = (Some gs, d2)" and h: "numFds h = 1" "z = 4"
    using assms(3) by (auto simp: custom_hidl_desc_def native_handle_create_def Let_def
        split: prod.splits option.splits bind_splits if_splits)
  from consume_hidl_grantors_result [OF assms(1,2) this(1)]
  show ?thesis using h grantors_inside_page [OF assms(4)] assms(5) by simp
qed

section \<open>The custom descriptor of AIDL names a closed file\<close>

text \<open>
  What the system says of files, after a history: a descriptor is closed until a call returns
  it again; closed ones cannot be duplicated and -1 cannot be mapped.
\<close>

fun is_closed :: "int \<Rightarrow> history \<Rightarrow> bool" where
  "is_closed fd [] \<longleftrightarrow> False"
| "is_closed fd (EvClose c # h) \<longleftrightarrow> c = fd \<or> is_closed fd h"
| "is_closed fd (EvHandleClose fds # h) \<longleftrightarrow> fd \<in> set fds \<or> is_closed fd h"
| "is_closed fd (EvDup f r # h) \<longleftrightarrow> r \<noteq> fd \<and> is_closed fd h"
| "is_closed fd (EvAshmem s r # h) \<longleftrightarrow> r \<noteq> fd \<and> is_closed fd h"
| "is_closed fd (e # h) \<longleftrightarrow> is_closed fd h"

definition closed_refused :: "os \<Rightarrow> bool" where
  "closed_refused os \<longleftrightarrow> (\<forall>h fd. fd < 0 \<or> is_closed fd h \<longrightarrow> os_dup os h fd = - 1) \<and>
     (\<forall>h n rw fd off k. os_mmap os h n rw fd off = Inr k \<longrightarrow> 0 \<le> fd)"

lemma shim_handle_dead:
  assumes "closed_refused os" and "shim_of_desc os a w = (d, w')" and "a_fds a = [fd]" and "a_ints a = []"
    and "fd < 0 \<or> is_closed fd (hist w)" and "mHandle d = Some h"
  shows "h = \<lparr>numFds = 1, numInts = 0, data = [- 1]\<rparr>"
  using assms
  by (auto simp: shim_of_desc_def native_handle_create_def closed_refused_def Let_def
      split: if_splits prod.splits)

lemma shim_copy_dead:
  assumes "closed_refused os" and "shim_copy os fl s w = Some (d, w')"
    and "mHandle s = Some \<lparr>numFds = 1, numInts = 0, data = [- 1]\<rparr>" and "mHandle d = Some h"
  shows "h = \<lparr>numFds = 1, numInts = 0, data = [- 1]\<rparr>"
  using assms
  by (auto simp: shim_copy_def shim_assign_def native_handle_create_def closed_refused_def Let_def
      handle_fds_def handle_ints_def split: if_splits prod.splits bind_splits option.splits)

lemma custom_queue_refused:
  assumes os: "closed_refused os" "system_ok os"
    and a: "custom_aidl_desc os P fdp w = (Some a, fdp', w1)"
    and c: "AidlMessageQueue_of_desc os U sz a r w1 = Some (q, w2)"
  shows "\<not> isValid q"
proof
  assume v: "isValid q"
  obtain fd where fd: "a_fds a = [fd]" "a_ints a = []" "fd < 0 \<or> is_closed fd (hist w1)"
    using a by (auto simp: custom_aidl_desc_def sys_close_def sys_ashmem_def Let_def
        split: prod.splits option.splits)
  obtain d s s' w3 w4 where i: "initialized os d q" and sh: "shim_of_desc os a w1 = (s, w3)"
    and cp: "shim_copy os (FlavorTypeToValue U) s w4 = Some (d, s')"
    by (rule attached_grantors [OF os(2) c v]) (rule that)
  obtain wp where m: "grantor_mapped os d WRITEPTRPOS wp" using i by (auto simp: initialized_def)
  then obtain h where h: "mHandle d = Some h" by (auto simp: grantor_mapped_def)
  then obtain hs where hs: "mHandle s = Some hs"
    using cp by (auto simp: shim_copy_def shim_assign_def Let_def split: bind_splits option.splits)
  have "hs = \<lparr>numFds = 1, numInts = 0, data = [- 1]\<rparr>" by (rule shim_handle_dead [OF os(1) sh fd hs])
  with hs have "h = \<lparr>numFds = 1, numInts = 0, data = [- 1]\<rparr>" using shim_copy_dead [OF os(1) cp _ h] by simp
  moreover obtain hs n rw off k where "0 \<le> sint (fdIndex (mGrantors d ! 1))" "sint (fdIndex (mGrantors d ! 1)) < numFds h"
    "os_mmap os hs n rw (data h ! nat (sint (fdIndex (mGrantors d ! 1)))) off = Inr k"
    using m h by (auto simp: grantor_mapped_def Let_def)
  ultimately have "os_mmap os hs n rw (- 1) off = Inr k" by simp
  then show False using os(1) unfolding closed_refused_def by fastforce
qed

end
