(* ===== verification/FuzzRun.thy ===== *)
theory FuzzRun
  imports FuzzSetup
begin

text \<open>
  What the runs of the fuzzer rest on, whatever the data: the constructors return, a queue that is not
  valid holds nothing and can be destroyed, and a valid one is fit for the loop of the writer.
\<close>

section \<open>Construction always returns\<close>

lemma fresh_destroy: "fresh_object q \<Longrightarrow> \<exists>w'. MessageQueueBase_destroy Shim os q w = Some w'"
  by (cases "mDesc q")
    (simp_all add: MessageQueueBase_destroy_def fresh_object_def release_read_def unmapGrantorDescr_def
      delete_counter_def)

text \<open>The object that a constructor leaves is valid, or holds nothing.\<close>

definition settled :: "(MessageQueue \<times> world) option \<Rightarrow> bool" where
  "settled r \<longleftrightarrow> (\<exists>q w. r = Some (q, w) \<and> (isValid q \<or> fresh_object q))"

lemma settled_fresh: "fresh_object q \<Longrightarrow> settled (Some (q, w))"
  by (auto simp: settled_def)

lemma init_error_settled:
  "mEvFlagWord q = None \<Longrightarrow> mEventFlag q = None \<Longrightarrow> settled (Some (init_error os d q w))"
  by (auto simp: settled_def init_error_def fresh_object_def Let_def)

lemma init_event_flag_settled:
  assumes "isValid q" "mEvFlagWord q = None" "mEventFlag q = None"
  shows "settled (init_event_flag os d q w)"
proof -
  obtain p w1 where m: "mapGrantorDescr os (flavor q) d EVFLAGWORDPOS w = (p, w1)" by fastforce
  show ?thesis
  proof (cases p)
    case None
    then show ?thesis
      using assms m init_error_settled [of "q\<lparr>mEvFlagWord := None\<rparr>" os d w1]
      by (auto simp: init_event_flag_def settled_def)
  next
    case (Some a)
    obtain st ef w2 where "createEventFlag os (Some a) True (mEventFlag q) w1 = Some (st, ef, w2)"
      using createEventFlag_result [of os a "mEventFlag q" w1] by blast
    then show ?thesis using assms m Some by (auto simp: init_event_flag_def settled_def isValid_def)
  qed
qed

lemma initMemory_settled:
  assumes f: "fresh_object q"
  shows "settled (initMemory os r q w)"
proof -
  have q: "mEvFlagWord q = None" "mEventFlag q = None" using f by (simp_all add: fresh_object_def)
  show ?thesis
    using settled_fresh [OF f]
    by (auto simp: initMemory_def Let_def isValid_def q split: option.split prod.split
        intro!: init_error_settled init_event_flag_settled)
qed

lemma initMemory_returns:
  assumes "fresh_object q"
  obtains q' w' where "initMemory os r q w = Some (q', w')" "isValid q' \<or> fresh_object q'"
  using initMemory_settled [OF assms, of os r w] unfolding settled_def by blast

lemma shim_copy_returns: "handles_available os \<Longrightarrow> \<exists>d w'. shim_copy os fl s w = Some (d, w')"
  by (auto simp: shim_copy_def shim_of_size_eq shim_assign_def native_handle_create_def
      handles_available_def Let_def split: option.split prod.split)

lemma of_desc_returns:
  assumes "handles_available os"
  obtains q w' where "AidlMessageQueue_of_desc os U sz a r w = Some (q, w')" "isValid q \<or> fresh_object q"
proof -
  obtain s w1 where s: "shim_of_desc os a w = (s, w1)" by fastforce
  let ?fl = "FlavorTypeToValue U"
  obtain md w2 where md: "new_descriptor os (shim_copy os ?fl s) w1 = Some (md, w2)"
    using shim_copy_returns [OF assms, of ?fl s "ran os (EvNew (os_new os (hist w1))) w1"]
    by (cases "os_new os (hist w1)") (auto simp: new_descriptor_def sys_new_def Let_def)
  let ?q = "(blank_queue ?fl sz)\<lparr>mDesc := md\<rparr>"
  obtain q' w' where "initMemory os r ?q w2 = Some (q', w')" "isValid q' \<or> fresh_object q'"
    by (rule initMemory_returns [of ?q os r w2]) auto
  then have "\<exists>q w'. MessageQueueBase_of_desc Shim os ?fl sz s r w1 = Some (q, w') \<and> (isValid q \<or> fresh_object q)"
    using md by (cases md) (auto simp: MessageQueueBase_of_desc_def Let_def)
  then show thesis using s that by (auto simp: AidlMessageQueue_of_desc_def)
qed

lemma size_returns:
  assumes "unat S \<le> 2 ^ 40"
  shows "\<exists>a. ashmemSize os S ev u = Some a" "\<exists>d. queue_descriptor Shim fl sz S ev u h = Some d"
  using assms
  by (auto simp: ashmemSize_def alignToWordBoundary_eq queue_descriptor_def shim_of_size_eq align_small
      kMinGrantorCount_def kMinGrantorCountForEvFlagSupport_def)

lemma of_size_returns:
  assumes "unat (n * 4) \<le> 2 ^ 40"
  obtains q w' where "AidlMessageQueue_of_size os U 4 n ev fd bs w = Some (q, w')"
    "isValid q \<or> fresh_object q"
proof -
  let ?fl = "FlavorTypeToValue U" and ?q = "blank_queue (FlavorTypeToValue U) 4"
  obtain a where a: "ashmemSize os (n * 4) ev (fd \<noteq> - 1) = Some a" using size_returns(1) [OF assms] by blast
  obtain ho w1 where h: "queue_handle os a fd w = (ho, w1)" by fastforce
  have ref: "\<exists>b. size_refused 4 n fd bs = Some b" by (simp add: size_refused_def checked_div_def)
  have nd: "\<exists>md w2. new_descriptor os (\<lambda>u. map_option (\<lambda>d. (d, u)) (queue_descriptor Shim ?fl 4 (n * 4) ev (fd \<noteq> - 1) h)) w1 =
      Some (md, w2)" for h
    using size_returns(2) [OF assms, of ?fl 4 ev "fd \<noteq> - 1" h]
    by (cases "os_new os (hist w1)") (auto simp: new_descriptor_def sys_new_def Let_def)
  have im: "\<exists>q w'. initMemory os True (?q\<lparr>mDesc := Some d\<rparr>) w2 = Some (q, w') \<and> (isValid q \<or> fresh_object q)" for d w2
    by (rule initMemory_returns [of "?q\<lparr>mDesc := Some d\<rparr>" os True w2]) auto
  have "\<exists>q w'. MessageQueueBase_of_size Shim os ?fl 4 n ev fd bs w = Some (q, w') \<and> (isValid q \<or> fresh_object q)"
  proof (cases ho)
    case None
    then show ?thesis using ref a h by (auto simp: MessageQueueBase_of_size_def Let_def)
  next
    case (Some hh)
    obtain md w2 where md: "new_descriptor os (\<lambda>u. map_option (\<lambda>d. (d, u)) (queue_descriptor Shim ?fl 4 (n * 4) ev (fd \<noteq> - 1) hh)) w1 =
      Some (md, w2)" using nd by blast
    then show ?thesis using ref a h Some im by (cases md) (auto simp: MessageQueueBase_of_size_def Let_def)
  qed
  then show thesis using that by (auto simp: AidlMessageQueue_of_size_def)
qed

section \<open>Construction closes no file\<close>

definition same_files :: "world \<Rightarrow> world \<Rightarrow> bool" where
  "same_files w w' \<longleftrightarrow> (\<forall>fd. is_closed fd (hist w') = is_closed fd (hist w))"

lemma same_files_refl [simp]: "same_files w w" "same_files w (w'\<lparr>wmem := m\<rparr>) = same_files w w'"
  "same_files (w\<lparr>wmem := m\<rparr>) w' = same_files w w'"
  by (simp_all add: same_files_def)

lemma same_files_trans: "same_files w w1 \<Longrightarrow> same_files w1 w2 \<Longrightarrow> same_files w w2"
  by (simp add: same_files_def)

lemma map_same_files: "mapGrantorDescr os fl d i w = (p, w') \<Longrightarrow> same_files w w'"
  by (auto simp: mapGrantorDescr_def mmap_shared_def sys_mmap_def same_files_def Let_def
      split: option.splits if_splits prod.splits sum.splits)

lemma unmap_same_files [simp]: "same_files w (unmapGrantorDescr os d p i w)"
  by (simp add: unmapGrantorDescr_def sys_munmap_def same_files_def Let_def split: option.splits)

lemma init_error_same_files: "init_error os d q w = (q', w') \<Longrightarrow> same_files w w'"
  by (auto simp: init_error_def release_read_def delete_counter_def Let_def same_files_def [symmetric]
      intro!: same_files_trans [OF _ unmap_same_files] split: option.split)
    (simp add: same_files_def)

lemma createEventFlag_same_files:
  "createEventFlag os (Some p) True f w = Some (st, ef, w') \<Longrightarrow> same_files w w'"
  by (cases "os_new os (hist w)")
    (auto simp: createEventFlag_def sys_new_def EventFlag_init_def same_files_def Let_def)

lemma new_counter_same_files: "new_counter os w = (p, w') \<Longrightarrow> same_files w w'"
  by (auto simp: new_counter_def sys_new_def same_files_def Let_def)

lemma init_event_flag_same_files:
  "init_event_flag os d q w = Some (q', w') \<Longrightarrow> same_files w w'"
  by (auto simp: init_event_flag_def split: if_splits prod.splits option.splits bind_splits
      dest!: map_same_files init_error_same_files createEventFlag_same_files intro: same_files_trans)

lemma initMemory_same_files:
  assumes "initMemory os r q w = Some (q', w')"
  shows "same_files w w'"
  using assms
  by (auto simp: initMemory_def Let_def split: if_splits prod.splits option.splits
      dest!: map_same_files init_error_same_files new_counter_same_files init_event_flag_same_files)
    (simp_all add: same_files_def)

section \<open>A new queue is fit for the writer\<close>

text \<open>Each region of shared memory the system makes is a file of its own.\<close>

definition new_regions :: "os \<Rightarrow> (int \<Rightarrow> nat) \<Rightarrow> bool" where
  "new_regions os file \<longleftrightarrow> mmap_by_file os file \<and>
     (\<forall>h sz es sz'. let fd = os_ashmem os h sz; fd' = os_ashmem os (es @ EvAshmem sz fd # h) sz'
        in 0 \<le> fd \<and> 0 \<le> fd' \<longrightarrow> file fd' \<noteq> file fd)"

lemma new_regionsD:
  assumes "new_regions os file" and "fd = os_ashmem os h sz"
    and "fd' = os_ashmem os (es @ EvAshmem sz fd # h) sz'" and "0 \<le> fd" and "0 \<le> fd'"
  shows "file fd' \<noteq> file fd"
  using assms by (simp add: new_regions_def Let_def)

lemma queue_handle_files:
  assumes "queue_handle os ash fd w = (Some h, u)"
  shows "handle_fds h =
      os_ashmem os (EvHandleCreate (if fd \<noteq> - 1 then 2 else 1) 0 True # hist w) ash #
      (if fd \<noteq> - 1 then [fd] else [])"
    "\<not> is_closed (hd (handle_fds h)) (hist u)"
  using assms
  by (auto simp: queue_handle_def native_handle_create_def sys_ashmem_def handle_fds_def Let_def
      split: if_splits)

text \<open>A mapped grantor names a file that is not negative.\<close>

lemma mapped_fd:
  assumes "grantor_mapped os d i p" and "closed_refused os" and "mHandle d = Some h" and "handle_wf h"
  shows "0 \<le> handle_fds h ! nat (sint (fdIndex (mGrantors d ! i)))"
proof -
  let ?j = "nat (sint (fdIndex (mGrantors d ! i)))"
  obtain hs n rw off k where r: "0 \<le> sint (fdIndex (mGrantors d ! i))" "sint (fdIndex (mGrantors d ! i)) < numFds h"
    "os_mmap os hs n rw (data h ! ?j) off = Inr k"
    using assms(1,3) by (auto simp: grantor_mapped_def Let_def)
  then have "0 \<le> data h ! ?j" using assms(2) unfolding closed_refused_def by blast
  moreover have "?j < length (handle_fds h)" using r(1,2) handle_lengths(1) [OF assms(4)] by simp
  ultimately show ?thesis by (simp add: handle_fds_def)
qed

lemma user_queue_shape:
  assumes sys: "system_ok os" and os: "new_regions os file" "closed_refused os"
    and c: "MessageQueueBase_of_size Shim os fl sz n ev fd bs w = Some (q, w1)" and v: "isValid q"
    and fd: "sys_ashmem os s w0 = (fd, w)" "fd \<noteq> - 1"
  shows "mq_wf q" "mq_whole q"
proof -
  obtain d h where i: "initialized os d q" and sz: "sizeofT q = sz"
    and acc: "size_refused sz n fd bs = Some False"
    and qd: "queue_descriptor Shim fl sz (n * sz) ev (fd \<noteq> - 1) h = Some d" and h: "handle_wf h"
    and qh: "\<exists>ash u. queue_handle os ash fd w = (Some h, u)"
    by (rule shim.of_size_valid [OF sys c v]) (rule that, simp_all, blast)
  have "queue_descriptor Shim fl sz (n * sz) ev True h = Some d" using qd fd(2) by simp
  note lay = user_file_layout [OF this]
  have mm: "mmap_by_file os file" using os(1) by (simp add: new_regions_def)
  obtain a ash where fds: "handle_fds h = [a, fd]"
    and a: "a = os_ashmem os (EvHandleCreate 2 0 True # EvAshmem s fd # hist w0) ash"
    and f: "fd = os_ashmem os (hist w0) s"
  proof -
    obtain ash u where q: "queue_handle os ash fd w = (Some h, u)" using qh by blast
    have "hist w = EvAshmem s fd # hist w0" "fd = os_ashmem os (hist w0) s"
      using fd(1) by (auto simp: sys_ashmem_def Let_def)
    then show thesis using queue_handle_files(1) [OF q] fd(2) by (intro that [of _ ash]) simp_all
  qed
  have idx: "fdIndex (mGrantors d ! 0) = 0" "fdIndex (mGrantors d ! Suc 0) = 0" "fdIndex (mGrantors d ! 2) = 1"
    "offset (mGrantors d ! 0) = 0" "offset (mGrantors d ! Suc 0) = 8" "offset (mGrantors d ! 2) = 0"
    "getSize d = n * sz"
    by (simp_all add: lay(2) getSize_def)
  obtain wp where wp: "mWritePtr q = Some wp" "grantor_mapped os d (Suc 0) wp"
    using i by (auto simp: initialized_def)
  obtain rg where rg: "mRing q = Some rg" "grantor_mapped os d 2 rg"
    using i by (auto simp: initialized_def)
  have "0 \<le> a" "0 \<le> fd"
    using mapped_fd [OF wp(2) os(2) lay(1) h] mapped_fd [OF rg(2) os(2) lay(1) h] by (simp_all add: idx fds)
  then have ne: "file a \<noteq> file fd"
    using new_regionsD [OF os(1) f, of a "[EvHandleCreate 2 0 True]" ash] a by simp
  have "wp = Ptr (Shm (file a)) 8" "rg = Ptr (Shm (file fd)) 0"
    using mapped_place [OF wp(2) mm lay(1) h] mapped_place [OF rg(2) mm lay(1) h]
    by (simp_all add: idx fds)
  moreover have "(\<exists>k. the (mReadPtr q) = Ptr (Heap k) 0) \<or> the (mReadPtr q) = Ptr (Shm (file a)) 0"
    using i mapped_place [OF _ mm lay(1) h, of 0] by (auto simp: initialized_def idx fds split: if_splits)
  ultimately show "mq_wf q" "mq_whole q"
    using wp(1) rg(1) ne by (auto intro!: sized_queue_shape(1,2) [OF i acc sz idx(7)] simp: sep_def)
qed

text \<open>The first file of the handle of a valid queue is open when the constructor returns.\<close>

lemma first_file_open:
  assumes sys: "system_ok os" and os: "closed_refused os"
    and c: "MessageQueueBase_of_size Shim os fl sz n ev fd bs w = Some (q, w1)" and v: "isValid q"
  obtains d h f fs where "mDesc q = Some d" "mHandle d = Some h" "handle_fds h = f # fs" "0 \<le> f"
    "\<not> is_closed f (hist w1)" "initialized os d q"
proof -
  obtain d h where i: "initialized os d q"
    and qd: "queue_descriptor Shim fl sz (n * sz) ev (fd \<noteq> - 1) h = Some d" and h: "handle_wf h"
    and ex: "\<exists>ash u k. queue_handle os ash fd w = (Some h, u) \<and>
      initMemory os True ((blank_queue fl sz)\<lparr>mDesc := Some d\<rparr>) (ran os (EvNew (Some k)) u) = Some (q, w1)"
    by (rule shim.of_size_valid [OF sys c v]) (rule that, simp_all)
  then obtain ash u k where qh: "queue_handle os ash fd w = (Some h, u)"
    and im: "initMemory os True ((blank_queue fl sz)\<lparr>mDesc := Some d\<rparr>) (ran os (EvNew (Some k)) u) = Some (q, w1)"
    by blast
  obtain f fs where fds: "handle_fds h = f # fs" using queue_handle_files(1) [OF qh] by simp
  have "mHandle d = Some h \<and> fdIndex (mGrantors d ! Suc 0) = 0"
  proof (cases "fd = - 1")
    case True
    have "mGrantors d \<noteq> []" using i by (auto simp: initialized_def countGrantors_def kMinGrantorCount_def)
    then show ?thesis
      using qd True by (auto simp: queue_descriptor_def shim_of_size_eq size_layout_def split: if_splits)
  next
    case False
    then have "queue_descriptor Shim fl sz (n * sz) ev True h = Some d" using qd by simp
    from user_file_layout [OF this] show ?thesis by simp
  qed
  moreover obtain wp where "grantor_mapped os d (Suc 0) wp" using i by (auto simp: initialized_def)
  ultimately have hd: "mHandle d = Some h" "0 \<le> f" using mapped_fd [OF _ os _ h, of d "Suc 0" wp] by (auto simp: fds)
  have "\<not> is_closed f (hist w1)"
    using initMemory_same_files [OF im] queue_handle_files(2) [OF qh] by (simp add: same_files_def fds)
  then show thesis using i by (intro that [OF _ hd(1) fds hd(2) _ i]) (simp add: initialized_def)
qed

section \<open>The run\<close>

text \<open>What the harness relies on: memory and file descriptors suffice, and closed files stay closed.\<close>

definition fuzz_system :: "os \<Rightarrow> (int \<Rightarrow> nat) \<Rightarrow> bool" where
  "fuzz_system os file \<longleftrightarrow> system_ok os \<and> handles_available os \<and> closed_refused os \<and> new_regions os file \<and>
     (\<forall>h fd. 0 \<le> fd \<and> \<not> is_closed fd h \<longrightarrow> 0 \<le> os_dup os h fd)"

lemma consume_le:
  assumes "provider_ok P"
  shows "lo \<le> hi \<Longrightarrow> ConsumeInRange P d lo hi = (v, d') \<Longrightarrow> lo \<le> v \<and> v \<le> hi \<and> remaining_bytes P d' \<le> remaining_bytes P d"
    "i \<le> j \<Longrightarrow> ConsumeIntInRange P d i j = (u, d') \<Longrightarrow> remaining_bytes P d' \<le> remaining_bytes P d"
    "ConsumeBool P d = (b, d') \<Longrightarrow> remaining_bytes P d' \<le> remaining_bytes P d"
proof -
  show r: "lo \<le> v \<and> v \<le> hi \<and> remaining_bytes P d' \<le> remaining_bytes P d"
    if "lo \<le> hi" "ConsumeInRange P d lo hi = (v, d')" for lo hi v d d'
    using assms that unfolding provider_ok_def by (metis fst_conv snd_conv)
  show "i \<le> j \<Longrightarrow> ConsumeIntInRange P d i j = (u, d') \<Longrightarrow> remaining_bytes P d' \<le> remaining_bytes P d"
    using assms unfolding provider_ok_def by (metis snd_conv)
  show "ConsumeBool P d = (b, d') \<Longrightarrow> remaining_bytes P d' \<le> remaining_bytes P d"
    by (auto simp: ConsumeBool_def split: prod.splits dest!: r [rotated])
qed

lemma custom_aidl_desc_le:
  assumes P: "provider_ok P" and c: "custom_aidl_desc os P d w = (a, d', w')"
  shows "remaining_bytes P d' \<le> remaining_bytes P d"
proof -
  have one: "remaining_bytes P d' \<le> remaining_bytes P d" if "consume_grantor os P d = (g, d')" for g d d'
  proof -
    obtain i d1 where i: "ConsumeIntInRange P d (- 2) 2 = (i, d1)" by fastforce
    obtain off d2 where off: "ConsumeInRange P d1 0 (os_pagesize os) = (off, d2)" by fastforce
    obtain ext d3 where ext: "ConsumeInRange P d2 0 (os_pagesize os) = (ext, d3)" by fastforce
    have "d' = d3" using that i off ext by (auto simp: consume_grantor_def kMaxCustomGrantorMemoryBytes_def)
    then show ?thesis
      using consume_le(2) [OF P _ i] consume_le(1) [OF P _ off] consume_le(1) [OF P _ ext] by simp
  qed
  have all: "consume_grantors os P k d = (gs, d') \<Longrightarrow> remaining_bytes P d' \<le> remaining_bytes P d" for k gs d d'
  proof (induction k arbitrary: d gs d')
    case (Suc k)
    obtain g d1 where g: "consume_grantor os P d = (g, d1)" by fastforce
    obtain r d2 where r: "consume_grantors os P k d1 = (r, d2)" by fastforce
    show ?case using Suc.prems g r one [OF g] Suc.IH [OF r] by (auto split: if_splits)
  qed simp
  obtain k d1 where k: "ConsumeInRange P d 0 4 = (k, d1)" by fastforce
  obtain gs d2 where gs: "consume_grantors os P (unat k) d1 = (gs, d2)" by fastforce
  obtain b d3 where b: "ConsumeBool P d2 = (b, d3)" by fastforce
  have "d' = d2 \<or> d' = d3"
    using c k gs b by (cases gs) (auto simp: custom_aidl_desc_def sys_ashmem_def Let_def)
  then show ?thesis
    using consume_le(1) [OF P _ k] all [OF gs] consume_le(3) [OF P b] by auto
qed

lemma kMaxNumElements_bound:
  assumes "system_ok os"
  shows "1 \<le> kMaxNumElements os" "n \<le> kMaxNumElements os \<Longrightarrow> unat (n * 4) \<le> 2 ^ 40"
proof -
  note pg = system_okD(1,2,4) [OF assms]
  have e: "8 \<le> page os" using pg(1,3) by (rule dvd_imp_le [rotated])
  let ?p = "os_pagesize os"
  have "unat (?p * 10) = page os * 10" using pg(2) by (subst unat_mult_no_wrap) (simp_all add: page_def)
  then have d: "unat (?p * 10 div 4) = page os * 10 div 4" by (simp add: unat_div)
  then have "unat (?p * 10 div 4 - 8) = page os * 10 div 4 - 8"
    using e by (subst unat_sub) (simp_all add: word_le_nat_alt)
  then have k: "unat (kMaxNumElements os) = page os * 10 div 4 - 7"
    using e pg(2) unfolding kMaxNumElements_def kAlignment_def by (subst unat_add_no_wrap) simp_all
  then show "1 \<le> kMaxNumElements os" using e by (simp add: word_le_nat_alt)
  assume "n \<le> kMaxNumElements os"
  then have "unat n \<le> page os * 10" using k by (simp add: word_le_nat_alt)
  then show "unat (n * 4) \<le> 2 ^ 40" using pg(2) by (subst unat_mult_no_wrap) simp_all
qed

text \<open>What \<open>fuzz_queue\<close> hands to the writer: a queue that holds nothing, or one made by size that is fit.\<close>

definition fuzz_fit :: "os \<Rightarrow> AidlFlavor \<Rightarrow> bool \<Rightarrow> MessageQueue \<Rightarrow> world \<Rightarrow> bool" where
  "fuzz_fit os U userFd q w \<longleftrightarrow> isValid q \<and> mq_wf q \<and> mq_whole q \<and> qz q = 4 \<and>
     (\<exists>n ev fd bs w0. (\<not> userFd \<longrightarrow> fd = - 1) \<and>
       MessageQueueBase_of_size Shim os (FlavorTypeToValue U) 4 n ev fd bs w0 = Some (q, w))"

lemma made_by_size_fit:
  assumes os: "fuzz_system os file" and n: "unat (n * 4) \<le> 2 ^ 40"
    and fd: "(fd, w0) = (if userFd then sys_ashmem os s w else (- 1, w))"
  obtains q w' where "AidlMessageQueue_of_size os U 4 n ev fd bs w0 = Some (q, w')"
    "fresh_object q \<or> fuzz_fit os U userFd q w'"
proof -
  obtain q w' where c: "AidlMessageQueue_of_size os U 4 n ev fd bs w0 = Some (q, w')"
    and v: "isValid q \<or> fresh_object q" by (rule of_size_returns [OF n])
  have c2: "MessageQueueBase_of_size Shim os (FlavorTypeToValue U) 4 n ev fd bs w0 = Some (q, w')"
    using c by (simp add: AidlMessageQueue_of_size_def)
  note sys = os [unfolded fuzz_system_def]
  have "fuzz_fit os U userFd q w'" if val: "isValid q"
  proof -
    have "mq_wf q \<and> mq_whole q"
    proof (cases "fd = - 1")
      case True
      then show ?thesis using shim.new_queue_shape(1,2) [of os _ 4 n ev bs w0 q w'] sys c2 val by blast
    next
      case False
      then have "sys_ashmem os s w = (fd, w0)" using fd by (simp split: if_splits)
      then show ?thesis using user_queue_shape [OF _ _ _ c2 val _ False] sys by blast
    qed
    moreover have "qz q = 4"
      by (rule shim.of_size_valid [OF _ c2 val]) (use sys in \<open>simp_all add: qz_def\<close>)
    moreover have "\<not> userFd \<longrightarrow> fd = - 1" using fd by (cases userFd) simp_all
    ultimately show ?thesis using val c2 unfolding fuzz_fit_def by blast
  qed
  then show thesis using that c v by blast
qed

lemma fuzz_queue_result:
  assumes os: "fuzz_system os file" and P: "provider_ok P"
  obtains mq u d' w' where "fuzz_queue os P U blocking d w = Some (mq, u, d', w')"
    "remaining_bytes P d' \<le> remaining_bytes P d"
    "\<And>q. mq = Some q \<Longrightarrow> fresh_object q \<or> fuzz_fit os U u q w'"
proof -
  note sys = os [unfolded fuzz_system_def]
  obtain ev d1 where c1: "(if blocking then (True, d) else ConsumeBool P d) = (ev, d1)" by fastforce
  obtain n d2 where c2: "ConsumeInRange P d1 1 (kMaxNumElements os) = (n, d2)" by fastforce
  obtain u d3 where c3: "ConsumeBool P d2 = (u, d3)" by fastforce
  obtain man d4 where c4: "ConsumeBool P d3 = (man, d4)" by fastforce
  have n: "n \<le> kMaxNumElements os" "remaining_bytes P d2 \<le> remaining_bytes P d1"
    using consume_le(1) [OF P _ c2] kMaxNumElements_bound(1) sys by auto
  have "remaining_bytes P d1 \<le> remaining_bytes P d"
    using c1 consume_le(3) [OF P, of d ev d1] by (simp split: if_splits)
  then have le: "remaining_bytes P d4 \<le> remaining_bytes P d"
    using n(2) consume_le(3) [OF P c3] consume_le(3) [OF P c4] by simp
  note run = fuzz_queue_def c1 c2 c3 c4 Let_def prod.case
  show thesis
  proof (cases man)
    case True
    obtain a d5 w1 where a: "custom_aidl_desc os P d4 w = (a, d5, w1)" by (rule prod_cases3)
    have le5: "remaining_bytes P d5 \<le> remaining_bytes P d" using custom_aidl_desc_le [OF P a] le by simp
    show thesis
    proof (cases a)
      case None
      then show thesis using True a le5 by (intro that [of None u d5 w1]) (simp_all add: run getAidlDesc_def)
    next
      case (Some desc)
      obtain q w2 where q: "AidlMessageQueue_of_desc os U 4 desc True w1 = Some (q, w2)"
        "isValid q \<or> fresh_object q" using of_desc_returns sys by blast
      have "\<not> isValid q" by (rule custom_queue_refused [OF _ _ a [unfolded Some] q(1)]) (use sys in simp_all)
      then show thesis
        using True a le5 q Some
        by (intro that [of "Some q" u d5 "close_all os (a_fds desc) w2"]) (simp_all add: run getAidlDesc_def)
    qed
  next
    case False
    let ?pair = "if u then sys_ashmem os (n * 4) w else (- 1, w)"
    obtain fd w0 where fd: "(fd, w0) = ?pair" by (metis surj_pair)
    obtain q w' where q: "AidlMessageQueue_of_size os U 4 n ev fd (n * 4) w0 = Some (q, w')"
      "fresh_object q \<or> fuzz_fit os U u q w'"
      by (rule made_by_size_fit [OF os kMaxNumElements_bound(2) [OF _ n(1)] fd]) (use sys in simp_all)
    then show thesis
      using False le by (intro that [of "Some q" u d4 w']) (simp_all add: run fd [symmetric])
  qed
qed

text \<open>The descriptor of a fit queue, and the address of the read counter computed from it.\<close>

lemma fit_descriptor:
  assumes os: "fuzz_system os file" and f: "fuzz_fit os U userFd q w"
  obtains a w' where "getAidlDesc os P (Some q) d w = Some (Some a, d, w')"
    "\<exists>c. getCounterPtr_aidl (mRing q) a READPTRPOS = Some c" "\<exists>desc. initialized os desc q"
proof -
  note sys = os [unfolded fuzz_system_def]
  obtain n ev fd bs w0 where c: "MessageQueueBase_of_size Shim os (FlavorTypeToValue U) 4 n ev fd bs w0 = Some (q, w)"
    and v: "isValid q" using f by (auto simp: fuzz_fit_def)
  obtain desc h x xs where d: "mDesc q = Some desc" "mHandle desc = Some h" "handle_fds h = x # xs" "0 \<le> x"
    "\<not> is_closed x (hist w)" "initialized os desc q"
    by (rule first_file_open [OF _ _ c v]) (use sys in simp_all)
  have "0 \<le> os_dup os (hist w) x" using sys d(4,5) by blast
  then obtain a w' where a: "getAidlDesc os P (Some q) d w = Some (Some a, d, w')"
    "a_grantors a = map dupe_grantor (mGrantors desc)"
    using d(1-3) by (fastforce simp: getAidlDesc_def dupeDesc_def Let_def split: prod.splits)
  have len: "2 < length (mGrantors desc)"
    using d(6) by (simp add: initialized_def countGrantors_def kMinGrantorCount_def)
  obtain k where "mRing q = Some (Ptr (Shm k) (unat (offset (mGrantors desc ! 2))))"
    using d(6) by (auto simp: initialized_def grantor_mapped_def Let_def)
  then have "\<exists>c. getCounterPtr_aidl (mRing q) a READPTRPOS = Some c"
    using len by (cases "mGrantors desc")
      (simp_all add: getCounterPtr_aidl_def a(2) dupe_grantor_def createCounterPtr_def)
  with a(1) d(6) show thesis by (blast intro: that)
qed

end
