(* ===== verification/FuzzReaders.thy ===== *)
theory FuzzReaders
  imports FuzzThreads FuzzRun
begin

text \<open>
  A whole run of the fuzzer with an AIDL queue and reader threads: the main thread makes the queue of the
  writer and its descriptor, starts the readers, runs the writer and joins. The threads interleave: the
  construction of a reader's queue object and its destruction are one step each, everything else goes
  by single memory accesses.
\<close>

section \<open>The threads\<close>

datatype 'd fuzz_thread =
    ReaderStart 'd
  | ReaderLoop MessageQueue "ptr list fuelled access"
  | ReaderEnded "ptr list fuelled"
  | WriterLoop "ptr list fuelled access"
  | Crashed

text \<open>
  A reader with an invalid queue object returns at once. One with a valid object takes the address of the first
  byte of its data, \<open>&readerData[0]\<close>, which does not exist when there are none: an access outside the
  vector, a crash here. The object is destroyed when the
  function returns; the queue of the writer is not, because the main thread goes on to the joins.
\<close>

fun fuzz_step ::
  "nat \<Rightarrow> os \<Rightarrow> 'd provider \<Rightarrow> AidlFlavor \<Rightarrow> AidlMQDescriptor \<Rightarrow> bool \<Rightarrow>
   'd fuzz_thread \<Rightarrow> world \<Rightarrow> ('d fuzz_thread \<times> world) option" where
  "fuzz_step n os P U desc userFd (ReaderStart fdp) w = Some
     (case AidlMessageQueue_of_desc os U 4 desc True w of
        None \<Rightarrow> (Crashed, w)
      | Some (readMq, w1) \<Rightarrow>
          if \<not> isValid readMq then (ReaderLoop readMq (Return (Done [])), w1)
          else if remaining_bytes P fdp = 0 then (Crashed, w1)
          else (ReaderLoop readMq (reader_acc n P (kMaxNumElements os) readMq desc userFd fdp), w1))"
| "fuzz_step n os P U desc userFd (ReaderLoop readMq t) w =
     (case access_step t (wmem w) of
        Some (t', m) \<Rightarrow> Some (ReaderLoop readMq t', w\<lparr>wmem := m\<rparr>)
      | None \<Rightarrow> Some (case returned t of
            None \<Rightarrow> (Crashed, w)
          | Some r \<Rightarrow>
              (case MessageQueueBase_destroy Shim os readMq w of
                 None \<Rightarrow> (Crashed, w)
               | Some w1 \<Rightarrow> (ReaderEnded r, w1))))"
| "fuzz_step n os P U desc userFd (WriterLoop t) w =
     (case access_step t (wmem w) of
        Some (t', m) \<Rightarrow> Some (WriterLoop t', w\<lparr>wmem := m\<rparr>)
      | None \<Rightarrow> (case returned t of None \<Rightarrow> Some (Crashed, w) | Some r \<Rightarrow> None))"
| "fuzz_step n os P U desc userFd (ReaderEnded r) w = None"
| "fuzz_step n os P U desc userFd Crashed w = None"

fun thread_crashed :: "'d fuzz_thread \<Rightarrow> bool" where
  "thread_crashed Crashed = True"
| "thread_crashed t = False"

fun thread_done :: "'d fuzz_thread \<Rightarrow> bool" where
  "thread_done (ReaderEnded (Done us)) = True"
| "thread_done (WriterLoop (Return (Done us))) = True"
| "thread_done t = False"

text \<open>
  The run. \<open>js\<close> is the schedule of the threads, the writer is number 0. The joins are over when all are
  done; a schedule after which they are not is too short. \<open>None\<close> is a crash in any thread, and the
  access \<open>&writerData[0]\<close> when there are no data for the writer.
\<close>

definition fuzz_with_readers ::
  "nat \<Rightarrow> nat list \<Rightarrow> os \<Rightarrow> 'd provider \<Rightarrow> AidlFlavor \<Rightarrow> 'd list \<Rightarrow> 'd \<Rightarrow> world \<Rightarrow> world fuelled option"
where
  "fuzz_with_readers n js os P U readerData fdp w = (if remaining_bytes P fdp = 0 then None else do {
     (writeMq, userFd, fdp1, w1) \<leftarrow> fuzz_queue os P U False fdp w;
     (case writeMq of
        None \<Rightarrow> Some (Done w1)
      | Some q \<Rightarrow>
          if \<not> isValid q then map_option Done (MessageQueueBase_destroy Shim os q w1)
          else do {
            (d, fdp2, w2) \<leftarrow> getAidlDesc os P (Some q) fdp1 w1;
            desc \<leftarrow> d;
            let (ts, w3) = run_schedule (fuzz_step n os P U desc userFd) js
              (WriterLoop (writer_acc n P q desc userFd fdp2) # map ReaderStart readerData, w2);
            if list_ex thread_crashed ts then None
            else if \<not> list_all thread_done ts then Some NoFuel
            else map_option Done (MessageQueueBase_destroy Shim os q (close_all os (a_fds desc) w3))
          })
   })"

section \<open>The threads come to an end\<close>

text \<open>The steps of a thread by cases.\<close>

lemma reader_loop_step:
  assumes s: "fuzz_step n os P U desc userFd (ReaderLoop q t) w = Some (t', w')"
  obtains (destroyed) r where "t = Return r" "MessageQueueBase_destroy Shim os q w = Some w'" "t' = ReaderEnded r"
    | (not_destroyed) r where "t = Return r" "MessageQueueBase_destroy Shim os q w = None" "t' = Crashed"
    | (crash) "t = Crash" "t' = Crashed"
    | (access) a m where "access_step t (wmem w) = Some (a, m)" "t' = ReaderLoop q a"
proof (cases "access_step t (wmem w)")
  case None
  then consider r where "t = Return r" | "t = Crash" by (cases t) simp_all
  then show thesis
  proof cases
    case 1
    then show thesis
      using s destroyed not_destroyed by (cases "MessageQueueBase_destroy Shim os q w") simp_all
  qed (use s crash in simp)
next
  case (Some x)
  obtain a m where "x = (a, m)" by fastforce
  then show thesis using Some s access by simp
qed

lemma writer_loop_step:
  assumes s: "fuzz_step n os P U desc userFd (WriterLoop t) w = Some (t', w')"
  obtains (crash) "t = Crash" "t' = Crashed"
    | (access) a m where "access_step t (wmem w) = Some (a, m)" "t' = WriterLoop a"
proof (cases "access_step t (wmem w)")
  case None
  then consider r where "t = Return r" | "t = Crash" by (cases t) simp_all
  then show thesis using s None crash by cases simp_all
next
  case (Some x)
  obtain a m where "x = (a, m)" by fastforce
  then show thesis using Some s access by simp
qed

lemma wf_fuzz_step: "wf {(t', t). \<exists>w w'. fuzz_step n os P U desc userFd t w = Some (t', w')}"
proof (rule wfUNIVI)
  fix A :: "'a fuzz_thread \<Rightarrow> bool" and t
  assume "\<forall>t. (\<forall>t'. (t', t) \<in> {(t', t). \<exists>w w'. fuzz_step n os P U desc userFd t w = Some (t', w')} \<longrightarrow> A t') \<longrightarrow> A t"
  then have acc: "A t" if "\<And>t' w w'. fuzz_step n os P U desc userFd t w = Some (t', w') \<Longrightarrow> A t'" for t
    using that by blast
  have ends: "A (ReaderEnded r)" "A Crashed" for r by (rule acc; simp)+
  have loop: "A (ReaderLoop q a)" for q a
  proof (induction a rule: wf_induct_rule [OF accesses.wf_steps])
    case (1 a)
    show ?case by (rule acc, erule reader_loop_step) (use 1 ends in auto)
  qed
  have writer: "A (WriterLoop a)" for a
  proof (induction a rule: wf_induct_rule [OF accesses.wf_steps])
    case (1 a)
    show ?case by (rule acc, erule writer_loop_step) (use 1 ends in auto)
  qed
  have "A (ReaderStart d)" for d
    by (rule acc) (auto simp: ends loop split: option.splits if_splits)
  then show "A t" using ends loop writer by (cases t) blast+
qed

interpretation fuzz_threads: ending_threads "fuzz_step n os P U desc userFd"
  for n os P U desc userFd
  by unfold_locales (rule wf_fuzz_step)

section \<open>The files behind duplicates\<close>

text \<open>What \<open>dup\<close> returns, when it returns a descriptor, is one of the same file.\<close>

definition dup_keeps_file :: "os \<Rightarrow> (int \<Rightarrow> nat) \<Rightarrow> bool" where
  "dup_keeps_file os file \<longleftrightarrow> (\<forall>h fd. 0 \<le> os_dup os h fd \<longrightarrow> file (os_dup os h fd) = file fd)"

definition same_or_none :: "(int \<Rightarrow> nat) \<Rightarrow> int \<Rightarrow> int \<Rightarrow> bool" where
  "same_or_none file a b \<longleftrightarrow> (0 \<le> b \<longrightarrow> 0 \<le> a \<and> file b = file a)"

lemma same_or_none_trans: "same_or_none file a b \<Longrightarrow> same_or_none file b c \<Longrightarrow> same_or_none file a c"
  by (simp add: same_or_none_def)

lemma dup_all_files:
  assumes "closed_refused os" and "dup_keeps_file os file"
  shows "dup_all os fds w = (rs, w') \<Longrightarrow> list_all2 (same_or_none file) fds rs"
proof (induction fds arbitrary: w rs)
  case (Cons fd fds)
  have "same_or_none file fd (os_dup os h fd)" for h
    using assms by (cases "0 \<le> fd") (auto simp: same_or_none_def dup_keeps_file_def closed_refused_def not_le)
  then show ?case using Cons by (auto simp: Let_def split: prod.splits)
qed simp

lemma files_trans:
  "list_all2 (same_or_none file) xs ys \<Longrightarrow> list_all2 (same_or_none file) ys zs \<Longrightarrow>
    list_all2 (same_or_none file) xs zs"
  by (rule list_all2_trans [of "same_or_none file" "same_or_none file"]) (rule same_or_none_trans)

lemma shim_of_desc_dup:
  assumes sh: "shim_of_desc os a v = (s, v')" and h: "mHandle s = Some h"
  obtains w w' where "dup_all os (a_fds a) w = (handle_fds h, w')"
proof -
  let ?w = "ran os (EvHandleCreate (int (length (a_fds a))) (int (length (a_ints a))) True) v"
  obtain fds w' where dup: "dup_all os (a_fds a) ?w = (fds, w')" by fastforce
  have "h = \<lparr>numFds = int (length (a_fds a)), numInts = int (length (a_ints a)), data = fds @ a_ints a\<rparr>"
    using sh h dup
    by (auto simp: shim_of_desc_def native_handle_create_def Let_def split: if_splits prod.splits)
  then have "handle_fds h = fds" using dup_all_result(1) [OF dup] by (simp add: handle_fds_def)
  then show thesis using that dup by simp
qed

text \<open>From the descriptor of a queue, through the parcel and the shim, to the descriptor of a reader.\<close>

lemma reader_descriptor:
  assumes os: "system_ok os" "closed_refused os" "dup_keeps_file os file"
    and d: "mHandle d = Some h" "handle_wf h" "\<forall>g \<in> set (mGrantors d). flags g = 0"
    and sent: "dupeDesc os (Some d) u = Some (a, u')"
    and got: "AidlMessageQueue_of_desc os U sz a r v = Some (q, v')" "isValid q"
  obtains d' h' where "initialized os d' q" "flavor q = FlavorTypeToValue U" "sizeofT q = sz"
    "mGrantors d' = mGrantors d" "mHandle d' = Some h'" "handle_wf h'"
    "list_all2 (same_or_none file) (handle_fds h) (handle_fds h')"
proof -
  obtain d' s s' w1 w2 where i: "initialized os d' q" "flavor q = FlavorTypeToValue U" "sizeofT q = sz"
    and ga: "a_grantors a = map dupe_grantor (mGrantors d')" and sh: "shim_of_desc os a v = (s, w1)"
    and cp: "shim_copy os (FlavorTypeToValue U) s w2 = Some (d', s')"
    by (rule attached_grantors [OF os(1) got]) (rule that)
  obtain fds where f1: "dup_all os (handle_fds h) u = (fds, u')" "a_fds a = fds"
    and gd: "a_grantors a = map dupe_grantor (mGrantors d)"
    using sent d(1) by (auto simp: dupeDesc_def split: prod.splits)
  have "mHandle d' \<noteq> None" using i(1) by (auto simp: initialized_def grantor_mapped_def)
  then have hv: "isHandleValid s"
    using cp by (auto simp: shim_copy_def shim_assign_def isHandleValid_def Let_def
        split: bind_splits option.splits)
  then obtain hs where hs: "mHandle s = Some hs" "handle_wf hs" and rng: "aidl_range s"
    using shim_of_desc_result [OF sh, of id] by auto
  obtain w3 w4 where f2: "dup_all os (a_fds a) w3 = (handle_fds hs, w4)" by (rule shim_of_desc_dup [OF sh hs(1)])
  obtain h' w5 w6 where h': "mHandle d' = Some h'" "handle_wf h'" "mGrantors d' = mGrantors s"
    and f3: "dup_all os (handle_fds hs) w5 = (handle_fds h', w6)"
    by (rule shim_copy_dup [OF cp hs]) (rule that)
  note files = dup_all_files [OF os(2,3)]
  have "list_all2 (same_or_none file) (handle_fds h) (handle_fds h')"
    by (rule files_trans [OF files [OF f1(1)] files_trans [OF files [OF f2 [unfolded f1(2)]] files [OF f3]]])
  moreover have "\<forall>g \<in> set (mGrantors d'). flags g = 0" using rng h'(3) by (simp add: aidl_range_def)
  then have "mGrantors d' = mGrantors d" using dupe_grantor_inject [OF ga [unfolded gd, symmetric]] d(3) by simp
  ultimately show thesis using that [OF i] h'(1,2) by blast
qed

text \<open>A grantor that is mapped in both objects is at the same place.\<close>

lemma reader_place:
  assumes "grantor_mapped os d i p" "mHandle d = Some h" "handle_wf h"
    and "grantor_mapped os d' i p'" "mHandle d' = Some h'" "handle_wf h'" "mGrantors d' = mGrantors d"
    and "list_all2 (same_or_none file) (handle_fds h) (handle_fds h')"
    and os: "closed_refused os" "mmap_by_file os file"
  shows "p' = p"
proof -
  let ?j = "nat (sint (fdIndex (mGrantors d ! i)))"
  have "0 \<le> sint (fdIndex (mGrantors d ! i))" "sint (fdIndex (mGrantors d ! i)) < numFds h"
    using assms(1,2) by (auto simp: grantor_mapped_def Let_def)
  then have j: "?j < length (handle_fds h)" using handle_lengths(1) [OF assms(3)] by simp
  moreover have "0 \<le> handle_fds h' ! ?j" using mapped_fd [OF assms(4) os(1) assms(5,6)] assms(7) by simp
  ultimately have "file (handle_fds h' ! ?j) = file (handle_fds h ! ?j)"
    using list_all2_nthD [OF assms(8) j] by (simp add: same_or_none_def)
  then show ?thesis
    using mapped_place [OF assms(1) os(2) assms(2,3)] mapped_place [OF assms(4) os(2) assms(5,6)] j
      list_all2_lengthD [OF assms(8)] assms(7) by simp
qed

section \<open>The objects of the readers\<close>

text \<open>Where the counters of a fit queue are, and its ring when it is in the file of the library.\<close>

definition library_layout :: "MQDescriptor \<Rightarrow> bool \<Rightarrow> bool" where
  "library_layout d userFd \<longleftrightarrow> 2 < length (mGrantors d) \<and> (\<forall>g \<in> set (mGrantors d). flags g = 0) \<and>
     fdIndex (mGrantors d ! 0) = 0 \<and> offset (mGrantors d ! 0) = 0 \<and>
     fdIndex (mGrantors d ! 1) = 0 \<and> offset (mGrantors d ! 1) = 8 \<and>
     (\<not> userFd \<longrightarrow> fdIndex (mGrantors d ! 2) = 0 \<and> offset (mGrantors d ! 2) = 16)"

lemma fit_layout:
  assumes os: "fuzz_system os file" and f: "fuzz_fit os U userFd q w"
  obtains d h where "initialized os d q" "mHandle d = Some h" "handle_wf h" "library_layout d userFd"
    "flavor q = FlavorTypeToValue U"
proof -
  note sys = os [unfolded fuzz_system_def]
  obtain n ev fd bs w0 where c: "MessageQueueBase_of_size Shim os (FlavorTypeToValue U) 4 n ev fd bs w0 = Some (q, w)"
    and v: "isValid q" and fd: "\<not> userFd \<longrightarrow> fd = - 1" using f by (auto simp: fuzz_fit_def)
  obtain d h where i: "initialized os d q" "flavor q = FlavorTypeToValue U"
    and qd: "queue_descriptor Shim (FlavorTypeToValue U) 4 (n * 4) ev (fd \<noteq> - 1) h = Some d"
    and h: "handle_wf h"
    by (rule shim.of_size_valid [OF _ c v]) (use sys in simp, rule that, simp_all)
  have "mHandle d = Some h \<and> library_layout d userFd"
  proof (cases "fd = - 1")
    case True
    have "mGrantors d \<noteq> []" using i by (auto simp: initialized_def countGrantors_def kMinGrantorCount_def)
    then show ?thesis
      using qd True by (auto simp: queue_descriptor_def shim_of_size_eq size_layout_def library_layout_def
          split: if_splits)
  next
    case False
    then have "queue_descriptor Shim (FlavorTypeToValue U) 4 (n * 4) ev True h = Some d" using qd by simp
    from user_file_layout [OF this] show ?thesis using False fd by (auto simp: library_layout_def)
  qed
  then show thesis using that i h by blast
qed

lemma layout_counters:
  assumes i: "initialized os d q" and h: "mHandle d = Some h" "handle_wf h" and l: "library_layout d userFd"
    and f: "mmap_by_file os file"
  obtains k where "mWritePtr q = Some (Ptr (Shm k) 8)"
    "flavor q = kSynchronizedReadWrite \<Longrightarrow> mReadPtr q = Some (Ptr (Shm k) 0)"
    "\<not> userFd \<Longrightarrow> mRing q = Some (Ptr (Shm k) 16)"
proof -
  let ?k = "map file (handle_fds h) ! 0"
  have place: "p = Ptr (Shm ?k) (unat (offset (mGrantors d ! i)))"
    if "grantor_mapped os d i p" "fdIndex (mGrantors d ! i) = 0" for i p
    using mapped_place [OF that(1) f h] that(2) by simp
  have "mWritePtr q = Some (Ptr (Shm ?k) 8)"
    "flavor q = kSynchronizedReadWrite \<Longrightarrow> mReadPtr q = Some (Ptr (Shm ?k) 0)"
    "\<not> userFd \<Longrightarrow> mRing q = Some (Ptr (Shm ?k) 16)"
    using i l unfolding initialized_def library_layout_def by (auto dest!: place)
  then show thesis by (rule that)
qed

lemma counter_from_ring:
  assumes "a_grantors a = map dupe_grantor (mGrantors d)" and "library_layout d False" and "i < 2"
    and "mRing q = Some (Ptr ob 16)"
  shows "getCounterPtr_aidl (mRing q) a i = Some (Ptr ob (unat (offset (mGrantors d ! i))))"
  using assms
  by (simp add: getCounterPtr_aidl_def createCounterPtr_def library_layout_def dupe_grantor_def)

text \<open>
  What the threads may touch: the ring, the 16 bytes of the two counters in the shared memory, and the read
  counter of their own object (for the unsynchronized flavor it is on the heap).
\<close>

definition queue_pieces :: "MessageQueue \<Rightarrow> MessageQueue \<Rightarrow> (ptr \<times> nat) list" where
  "queue_pieces q r = [(qring q, qS q), (Ptr (pobj (qwp q)) 0, 16), (qrp r, 8)]"

lemma in_counters: "off + 8 \<le> 16 \<Longrightarrow> within (queue_pieces q r) (Ptr (pobj (qwp q)) off) 8"
  by (auto simp: within_def queue_pieces_def)

lemma queue_covers:
  assumes i: "initialized os d q" and h: "mHandle d = Some h" "handle_wf h" and l: "library_layout d userFd"
    and f: "mmap_by_file os file" and a: "a_grantors a = map dupe_grantor (mGrantors d)" and j: "j < 2"
    and r: "mRing r = mRing q" "mWritePtr r = mWritePtr q" "qS r = qS q"
  shows "covers (queue_pieces q r) r userFd (getCounterPtr_aidl (mRing r) a j)"
proof -
  obtain k where k: "mWritePtr q = Some (Ptr (Shm k) 8)" "\<not> userFd \<Longrightarrow> mRing q = Some (Ptr (Shm k) 16)"
    by (rule layout_counters [OF i h l f]) (rule that, simp_all)
  have w: "qwp q = Ptr (Shm k) 8" "qwp r = qwp q" "qring r = qring q"
    using k(1) r(1,2) by (simp_all add: qwp_def qring_def)
  have "userFd \<or> (\<exists>c. getCounterPtr_aidl (mRing r) a j = Some c \<and> within (queue_pieces q r) c 8)"
  proof (cases userFd)
    case False
    then have l': "library_layout d False" using l by (simp add: library_layout_def)
    have "unat (offset (mGrantors d ! j)) + 8 \<le> 16"
      using l j by (auto simp: library_layout_def less_Suc_eq numeral_2_eq_2)
    then show ?thesis
      using in_counters [of _ q r] by (auto simp: r(1) counter_from_ring [OF a l' j k(2) [OF False]] w)
  qed simp
  moreover have "within (queue_pieces q r) (qwp r) 8" using in_counters [of 8 q r] by (simp add: w)
  moreover have "within (queue_pieces q r) (qrp r) 8" by (auto simp: queue_pieces_def within_def)
  ultimately show ?thesis by (simp add: covers_def queue_pieces_def w r(3))
qed

lemma initialized_ptrs:
  assumes "initialized os d q"
  shows "\<exists>p. mRing q = Some p \<and> grantor_mapped os d DATAPTRPOS p"
    "\<exists>p. mWritePtr q = Some p \<and> grantor_mapped os d WRITEPTRPOS p"
    "flavor q = kSynchronizedReadWrite \<Longrightarrow> \<exists>p. mReadPtr q = Some p \<and> grantor_mapped os d READPTRPOS p"
    "flavor q \<noteq> kSynchronizedReadWrite \<Longrightarrow> \<exists>k. mReadPtr q = Some (Ptr (Heap k) 0)"
  using assms by (auto simp: initialized_def)

lemma same_pointers:
  assumes i: "initialized os d q" and i': "initialized os d' r" and fl: "flavor r = flavor q"
    and place: "\<And>j p p'. grantor_mapped os d j p \<Longrightarrow> grantor_mapped os d' j p' \<Longrightarrow> p' = p"
  shows "mRing r = mRing q" "mWritePtr r = mWritePtr q" "qrp r = qrp q \<or> (\<exists>k. qrp r = Ptr (Heap k) 0)"
proof -
  note ptrs = initialized_ptrs [OF i] initialized_ptrs [OF i']
  show "mRing r = mRing q" "mWritePtr r = mWritePtr q" using place ptrs(1,2,5,6) by metis+
  show "qrp r = qrp q \<or> (\<exists>k. qrp r = Ptr (Heap k) 0)"
    using place ptrs(3,7,8) fl by (metis option.sel qrp_def)
qed

text \<open>The object of a reader shows the queue of the writer.\<close>

definition same_queue :: "MessageQueue \<Rightarrow> MessageQueue \<Rightarrow> bool" where
  "same_queue q r \<longleftrightarrow> mRing r = mRing q \<and> mWritePtr r = mWritePtr q \<and> qS r = qS q \<and> qz r = qz q \<and>
     mq_wf r \<and> mq_whole r"

lemma reader_object:
  assumes os: "fuzz_system os file" "dup_keeps_file os file" and f: "fuzz_fit os U userFd q w"
    and sent: "dupeDesc os (mDesc q) u = Some (a, u')"
    and got: "AidlMessageQueue_of_desc os U 4 a True v = Some (r, v')" "isValid r"
  shows "same_queue q r" "\<exists>d. initialized os d r"
    "covers (queue_pieces q r) r userFd (getCounterPtr_aidl (mRing r) a WRITEPTRPOS)"
proof -
  note sys = os(1) [unfolded fuzz_system_def new_regions_def]
  have mm: "mmap_by_file os file" and cl: "closed_refused os" and so: "system_ok os" using sys by simp_all
  have qs: "mq_wf q" "mq_whole q" "qz q = 4" using f by (simp_all add: fuzz_fit_def)
  obtain d h where i: "initialized os d q" and h: "mHandle d = Some h" "handle_wf h"
    and l: "library_layout d userFd" and fl: "flavor q = FlavorTypeToValue U"
    by (rule fit_layout [OF os(1) f])
  have md: "mDesc q = Some d" using i by (simp add: initialized_def)
  have flags: "\<forall>g \<in> set (mGrantors d). flags g = 0" using l by (simp add: library_layout_def)
  have a: "a_grantors a = map dupe_grantor (mGrantors d)"
    using sent md h(1) by (auto simp: dupeDesc_def split: prod.splits)
  obtain d' h' where i': "initialized os d' r" and fl': "flavor r = FlavorTypeToValue U" and z: "sizeofT r = 4"
    and g: "mGrantors d' = mGrantors d" and h': "mHandle d' = Some h'" "handle_wf h'"
    and files: "list_all2 (same_or_none file) (handle_fds h) (handle_fds h')"
    by (rule reader_descriptor [OF so cl os(2) h flags sent [unfolded md] got])
  note place = reader_place [OF _ h _ h' g files cl mm]
  note ptrs = same_pointers [OF i i' _ place]
  have ring: "mRing r = mRing q" and wp: "mWritePtr r = mWritePtr q"
    and rp: "qrp r = qrp q \<or> (\<exists>k. qrp r = Ptr (Heap k) 0)"
    using ptrs fl fl' by simp_all
  have S: "getSize d' = getSize d" using g by (simp add: getSize_def)
  have md': "mDesc r = Some d'" using i' by (simp add: initialized_def)
  have qS: "qS r = qS q" "getSize d \<noteq> 0"
    using md md' S mq_wf_sizes(2) [OF qs(1)] by (simp_all add: qS_def qdesc_def)
  obtain k where k: "mWritePtr q = Some (Ptr (Shm k) 8)" by (rule layout_counters [OF i h l mm])
  obtain k' o' where k': "mRing q = Some (Ptr (Shm k') o')"
    using initialized_ptrs(1) [OF i] by (auto simp: grantor_mapped_def Let_def)
  have eq: "qring r = qring q" "qwp r = qwp q" by (simp_all add: qring_def qwp_def ring wp)
  have "pobj (qring q) = Shm k'" "pobj (qwp q) = Shm k" by (simp_all add: qring_def qwp_def k k')
  then have sep: "sep (qring r) (qS r) (qrp r) 8 \<and> sep (qrp r) 8 (qwp r) 8"
    using rp mq_wf_sep(1,3) [OF qs(1)] by (elim disjE exE) (simp_all add: eq qS sep_def)
  have wf: "mq_wf r"
  proof (rule initialized_wf [OF i'])
    show "sizeofT r \<noteq> 0" "getSize d' \<noteq> 0" using z S qS(2) by simp_all
    have "unat (getSize d') = qS r" by (simp add: qS_def qdesc_def md')
    then show "sep (the (mRing r)) (unat (getSize d')) (the (mReadPtr r)) 8"
      "sep (the (mRing r)) (unat (getSize d')) (the (mWritePtr r)) 8"
      "sep (the (mReadPtr r)) 8 (the (mWritePtr r)) 8"
      using sep mq_wf_sep(2) [OF qs(1)]
      by (simp_all add: qS(1) eq flip: qring_def qrp_def qwp_def)
  qed
  have qz: "qz r = qz q" using z qs(3) by (simp add: qz_def)
  from wf qz show same: "same_queue q r" using ring wp qS qs(2) by (simp add: same_queue_def mq_whole_def)
  show "\<exists>d. initialized os d r" using i' by blast
  show "covers (queue_pieces q r) r userFd (getCounterPtr_aidl (mRing r) a WRITEPTRPOS)"
    by (rule queue_covers [OF i h l mm a _ ring wp qS(1)]) simp
qed

section \<open>What every thread keeps to\<close>

text \<open>The situation when the threads are started.\<close>

definition fuzz_ready ::
  "os \<Rightarrow> (int \<Rightarrow> nat) \<Rightarrow> 'd provider \<Rightarrow> AidlFlavor \<Rightarrow> AidlMQDescriptor \<Rightarrow> bool \<Rightarrow> MessageQueue \<Rightarrow> bool" where
  "fuzz_ready os file P U desc userFd q \<longleftrightarrow> fuzz_system os file \<and> dup_keeps_file os file \<and> provider_ok P \<and>
     (\<exists>w. fuzz_fit os U userFd q w) \<and> (\<exists>u u'. dupeDesc os (mDesc q) u = Some (desc, u'))"

text \<open>\<open>e\<close>: some reader has no data, which is the only reason for a crash.\<close>

definition good_thread ::
  "bool \<Rightarrow> nat \<Rightarrow> os \<Rightarrow> (int \<Rightarrow> nat) \<Rightarrow> 'd provider \<Rightarrow> AidlFlavor \<Rightarrow> AidlMQDescriptor \<Rightarrow> bool \<Rightarrow> MessageQueue \<Rightarrow>
   'd fuzz_thread \<Rightarrow> bool" where
  "good_thread e n os file P U desc userFd q t \<longleftrightarrow> fuzz_ready os file P U desc userFd q \<and>
     (case t of
        ReaderStart d \<Rightarrow> remaining_bytes P d < n \<and> (remaining_bytes P d = 0 \<longrightarrow> e)
      | ReaderLoop r a \<Rightarrow> allowed (queue_pieces q r) (ends_inside q) a \<and>
          (\<forall>w. \<exists>w'. MessageQueueBase_destroy Shim os r w = Some w')
      | ReaderEnded r \<Rightarrow> ends_inside q r
      | WriterLoop a \<Rightarrow> allowed (queue_pieces q q) (ends_inside q) a
      | Crashed \<Rightarrow> e)"

lemma ends_inside_same: "same_queue q r \<Longrightarrow> ends_inside r = ends_inside q"
  by (auto simp: same_queue_def ends_inside_def in_slot_def qring_def fun_eq_iff split: fuelled.split)

lemma reader_starts:
  assumes ready: "fuzz_ready os file P U desc userFd q" and d: "remaining_bytes P d < n"
    and e: "remaining_bytes P d = 0 \<Longrightarrow> e"
    and s: "fuzz_step n os P U desc userFd (ReaderStart d) w = Some (t, w')"
  shows "good_thread e n os file P U desc userFd q t"
proof -
  note r = ready [unfolded fuzz_ready_def]
  have sys: "fuzz_system os file" "handles_available os" "system_ok os"
    using r by (simp_all add: fuzz_system_def)
  obtain q' v' where got: "AidlMessageQueue_of_desc os U 4 desc True w = Some (q', v')"
    and v: "isValid q' \<or> fresh_object q'" by (rule of_desc_returns [OF sys(2)])
  obtain w0 u u' where f: "fuzz_fit os U userFd q w0" and sent: "dupeDesc os (mDesc q) u = Some (desc, u')"
    using r by blast
  show ?thesis
  proof (cases "isValid q'")
    case True
    note obj = reader_object [OF sys(1) _ f sent got True]
    have k: "0 < kMaxNumElements os" by (rule less_le_trans [OF _ kMaxNumElements_bound(1) [OF sys(3)]]) simp
    have P: "provider_ok P" and dup: "dup_keeps_file os file" using r by simp_all
    have q: "mq_wf q'" "mq_whole q'" "qz q' = 4"
      using obj(1) [OF dup] f by (simp_all add: same_queue_def fuzz_fit_def)
    have "allowed (queue_pieces q q') (ends_inside q)
        (reader_acc n P (kMaxNumElements os) q' desc userFd d)"
      using loops_allowed(1) [OF P q d k obj(3) [OF dup]] ends_inside_same [OF obj(1) [OF dup]] by simp
    moreover have "\<exists>w'. MessageQueueBase_destroy Shim os q' v = Some w'" for v
      using obj(2) [OF dup] shim.destroy_result by blast
    ultimately show ?thesis using s got True ready e by (auto simp: good_thread_def split: if_splits)
  next
    case False
    then have "\<exists>w'. MessageQueueBase_destroy Shim os q' u = Some w'" for u
      using v fresh_destroy by blast
    then show ?thesis using s got False ready by (auto simp: good_thread_def)
  qed
qed

lemma good_step:
  assumes g: "good_thread e n os file P U desc userFd q t"
    and s: "fuzz_step n os P U desc userFd t w = Some (t', w')"
  shows "good_thread e n os file P U desc userFd q t'"
proof (cases t)
  case (ReaderStart d)
  show ?thesis
    by (rule reader_starts [OF _ _ _ s [unfolded ReaderStart]]) (use g ReaderStart in \<open>simp_all add: good_thread_def\<close>)
next
  case (ReaderLoop r a)
  note good = g [unfolded good_thread_def ReaderLoop fuzz_thread.case]
  show ?thesis
    using s [unfolded ReaderLoop]
  proof (cases rule: reader_loop_step)
    case (access a' m)
    then show ?thesis using good allowed_step by (auto simp: good_thread_def)
  next
    case (not_destroyed r')
    then show ?thesis using good by (metis option.distinct(1))
  qed (use good in \<open>simp_all add: good_thread_def\<close>)
next
  case (WriterLoop a)
  note good = g [unfolded good_thread_def WriterLoop fuzz_thread.case]
  show ?thesis
    using s [unfolded WriterLoop]
  proof (cases rule: writer_loop_step)
    case (access a' m)
    then show ?thesis using good allowed_step by (auto simp: good_thread_def)
  qed (use good in simp)
qed (use s in simp_all)

interpretation fuzz_kept: keeping_threads "fuzz_step n os P U desc userFd"
    "good_thread e n os f P U desc userFd q"
  for e n os P U desc userFd f q
  by unfold_locales (rule good_step)

lemma threads_good:
  assumes ready: "fuzz_ready os file P U desc userFd q" and data: "\<forall>x \<in> set (d # ds). remaining_bytes P x < n"
    and e: "\<And>x. x \<in> set ds \<Longrightarrow> remaining_bytes P x = 0 \<Longrightarrow> e"
  shows "\<forall>t \<in> set (WriterLoop (writer_acc n P q desc userFd d) # map ReaderStart ds).
    good_thread e n os file P U desc userFd q t"
proof -
  note r = ready [unfolded fuzz_ready_def]
  obtain w u u' where f: "fuzz_fit os U userFd q w" and sent: "dupeDesc os (mDesc q) u = Some (desc, u')"
    using r by blast
  have sys: "fuzz_system os file" and P: "provider_ok P" using r by simp_all
  have q: "mq_wf q" "mq_whole q" "qz q = 4" using f by (simp_all add: fuzz_fit_def)
  have mm: "mmap_by_file os file" using sys by (simp add: fuzz_system_def new_regions_def)
  obtain qd h where i: "initialized os qd q" and h: "mHandle qd = Some h" "handle_wf h"
    and l: "library_layout qd userFd" by (rule fit_layout [OF sys f])
  have "a_grantors desc = map dupe_grantor (mGrantors qd)"
    using sent i h(1) by (auto simp: initialized_def dupeDesc_def split: prod.splits)
  from queue_covers [OF i h l mm this _ refl refl refl, of READPTRPOS]
  have "allowed (queue_pieces q q) (ends_inside q) (writer_acc n P q desc userFd d)"
    using data by (intro loops_allowed(2) [OF P q]) simp_all
  then show ?thesis using ready data e by (auto simp: good_thread_def)
qed

lemma queue_ready:
  assumes "fuzz_system os file" and "dup_keeps_file os file" and "provider_ok P"
    and "fuzz_fit os U userFd q w" and "getAidlDesc os P (Some q) d w' = Some (Some desc, d', w'')"
  shows "fuzz_ready os file P U desc userFd q" "d' = d"
proof -
  have "dupeDesc os (mDesc q) w' = Some (desc, w'')" and "d' = d"
    using assms(5) by (auto simp: getAidlDesc_def split: bind_splits list.splits if_splits)
  then show "fuzz_ready os file P U desc userFd q" "d' = d"
    using assms(1-4) unfolding fuzz_ready_def by blast+
qed

text \<open>The access a thread is about to make, and the pieces it is meant to stay in.\<close>

fun thread_access :: "'d fuzz_thread \<Rightarrow> (ptr \<times> nat) option" where
  "thread_access (ReaderLoop r a) = next_access a"
| "thread_access (WriterLoop a) = next_access a"
| "thread_access t = None"

fun thread_pieces :: "MessageQueue \<Rightarrow> 'd fuzz_thread \<Rightarrow> (ptr \<times> nat) list" where
  "thread_pieces q (ReaderLoop r a) = queue_pieces q r"
| "thread_pieces q t = queue_pieces q q"

lemma good_inside:
  assumes "good_thread e n os file P U desc userFd q t"
  shows "(thread_crashed t \<longrightarrow> e) \<and> (\<forall>p k. thread_access t = Some (p, k) \<longrightarrow> within (thread_pieces q t) p k)"
  using assms allowed_next by (cases t; fastforce simp: good_thread_def)

text \<open>
  C36. The writer and the readers of the fuzzer at the same time, under every schedule, whatever the data and
  whatever they overwrite each other's counters with: the next access of every thread to the queue is in
  the ring, the 16 bytes of the two shared counters or the read counter of its own queue object, and no thread
  crashes unless some reader has no data at all (\<open>&readerData[0]\<close> of an empty vector).
\<close>

theorem fuzz_threads_stay_inside:
  assumes sys: "fuzz_system os file" "dup_keeps_file os file" "provider_ok P"
    and queue: "fuzz_queue os P U False d w = Some (Some q, userFd, d1, w1)" "isValid q"
      "getAidlDesc os P (Some q) d1 w1 = Some (Some desc, d2, w2)"
    and data: "\<forall>x \<in> set (d # readerData). remaining_bytes P x < n"
    and run: "run_schedule (fuzz_step n os P U desc userFd) js
      (WriterLoop (writer_acc n P q desc userFd d2) # map ReaderStart readerData, w2) = (ts, w3)"
  shows "\<forall>t \<in> set ts. (thread_crashed t \<longrightarrow> (\<exists>x \<in> set readerData. remaining_bytes P x = 0)) \<and>
    (\<forall>p k. thread_access t = Some (p, k) \<longrightarrow> within (thread_pieces q t) p k)"
proof -
  have le: "remaining_bytes P d1 \<le> remaining_bytes P d" and "fresh_object q \<or> fuzz_fit os U userFd q w1"
    by (rule fuzz_queue_result [OF sys(1,3), of U False d w]; use queue(1) in simp)+
  then have f: "fuzz_fit os U userFd q w1" using queue(2) by (auto simp: fresh_object_def isValid_def)
  note ready = queue_ready [OF sys f queue(3)]
  let ?e = "\<exists>x \<in> set readerData. remaining_bytes P x = 0"
  have "\<forall>x \<in> set (d2 # readerData). remaining_bytes P x < n" using data le ready(2) by auto
  note start = threads_good [OF ready(1) this, of ?e]
  have "\<forall>t \<in> set ts. good_thread ?e n os file P U desc userFd q t"
    using fuzz_kept.run_good [of "(_, w2)", unfolded fst_conv, OF start, of js] by (simp only: run fst_conv) blast
  then show ?thesis by (intro ballI good_inside) (erule bspec)
qed

section \<open>The run ends\<close>

lemma good_stopped_done:
  assumes "good_thread False n os file P U desc userFd q t" and "fuzz_step n os P U desc userFd t w = None"
  shows "thread_done t"
proof (cases t)
  case (WriterLoop a)
  have "access_step a (wmem w) = None" using assms(2) WriterLoop by (auto split: option.splits)
  moreover have "allowed (queue_pieces q q) (ends_inside q) a"
    using assms(1) WriterLoop by (simp add: good_thread_def)
  ultimately obtain r where "a = Return r" "ends_inside q r" by (metis allowed_stopped)
  then show ?thesis using WriterLoop by (cases r) simp_all
next
  case (ReaderEnded r)
  then show ?thesis using assms(1) by (cases r) (simp_all add: good_thread_def)
qed (use assms in \<open>auto simp: good_thread_def split: option.splits prod.splits\<close>)

text \<open>
  A run of the fuzzer with an AIDL queue and any number of non-blocking readers, when there are data for each
  thread, crashes under no schedule, and ends under every fair one: the constructions return, all threads come to the end of their data,
  are joined, and the queue is destroyed.
\<close>

lemma fuzz_readers_end:
  assumes sys: "fuzz_system os file" "dup_keeps_file os file" "provider_ok P"
    and data: "\<forall>x \<in> set (d # readerData). 0 < remaining_bytes P x \<and> remaining_bytes P x < n"
    and fair: "fair (Suc (length readerData)) f"
  shows "fuzz_with_readers n js os P U readerData d w \<noteq> None \<and>
    (\<exists>N w'. fuzz_with_readers n (map f [0..<N]) os P U readerData d w = Some (Done w'))"
proof -
  obtain mq u d1 w1 where fq: "fuzz_queue os P U False d w = Some (mq, u, d1, w1)"
    and le: "remaining_bytes P d1 \<le> remaining_bytes P d"
    and q: "\<And>q. mq = Some q \<Longrightarrow> fresh_object q \<or> fuzz_fit os U u q w1"
    using fuzz_queue_result [OF sys(1,3)] by blast
  consider (none) "mq = None" | (fresh) q where "mq = Some q" "fresh_object q" "\<not> isValid q"
    | (fit) q where "mq = Some q" "fuzz_fit os U u q w1"
    using q by (cases mq) (auto simp: fresh_object_def isValid_def)
  then show ?thesis
  proof cases
    case none
    then show ?thesis using data by (simp add: fuzz_with_readers_def fq)
  next
    case fresh
    then show ?thesis using data fresh_destroy [of q os w1] by (auto simp: fuzz_with_readers_def fq)
  next
    case fit
    obtain a w2 where a: "getAidlDesc os P (Some q) d1 w1 = Some (Some a, d1, w2)"
      and i: "\<exists>desc. initialized os desc q"
      by (rule fit_descriptor [OF sys(1) fit(2), of P d1])
    let ?step = "fuzz_step n os P U a u"
    let ?s = "(WriterLoop (writer_acc n P q a u d1) # map ReaderStart readerData, w2)"
    have v: "isValid q" using fit(2) by (simp add: fuzz_fit_def)
    have "\<forall>x \<in> set (d1 # readerData). remaining_bytes P x < n" using data le by auto
    moreover have False if "x \<in> set readerData" "remaining_bytes P x = 0" for x using data that by auto
    ultimately have "\<forall>t \<in> set (fst ?s). good_thread False n os file P U a u q t"
      unfolding fst_conv by (rule threads_good [OF queue_ready(1) [OF sys fit(2) a]])
    note good = fuzz_kept.run_good [of ?s, OF this]
    have unfold: "fuzz_with_readers n js os P U readerData d w =
        (let (ts, w3) = run_schedule ?step js ?s
         in if list_ex thread_crashed ts then None
            else if \<not> list_all thread_done ts then Some NoFuel
            else map_option Done (MessageQueueBase_destroy Shim os q (close_all os (a_fds a) w3)))" for js
      using a data by (simp add: fuzz_with_readers_def fq fit(1) v)
    have destroy: "\<exists>w'. MessageQueueBase_destroy Shim os q w = Some w'" for w
      using i shim.destroy_result by blast
    have alive: "\<not> list_ex thread_crashed (fst (run_schedule ?step js ?s))" for js
      using good_inside [OF bspec [OF good]] by (auto simp: list_ex_iff)
    have "fuzz_with_readers n js os P U readerData d w \<noteq> None"
      using alive [of js] destroy by (auto simp: unfold split: prod.splits)
    moreover have "\<exists>N. stopped ?step (run_schedule ?step (map f [0..<N]) ?s)"
      by (rule fuzz_threads.fair_ends) (use fair in simp)
    then obtain N where N: "stopped ?step (run_schedule ?step (map f [0..<N]) ?s)" ..
    have "list_all thread_done (fst (run_schedule ?step (map f [0..<N]) ?s))"
      using good_stopped_done [OF bspec [OF good]] N unfolding stopped_def list_all_iff by blast
    then have "\<exists>w'. fuzz_with_readers n (map f [0..<N]) os P U readerData d w = Some (Done w')"
      using alive [of "map f [0..<N]"] destroy by (auto simp: unfold split: prod.splits)
    ultimately show ?thesis by blast
  qed
qed

end
