(* ===== verification/FuzzEntry.thy ===== *)
theory FuzzEntry
  imports FuzzReaders
begin

text \<open>
  The entry point of fuzzer/fmq_fuzzer.cpp: how an input is split up among the readers and the writer, and the
  run of the AIDL queue for a whole input.
\<close>

definition kMaxNumSyncReaders :: u64 where "kMaxNumSyncReaders = 1"

definition kMaxNumUnsyncReaders :: u64 where "kMaxNumUnsyncReaders = 5"

definition kMaxDataPerReader :: nat where "kMaxDataPerReader = 1000"

text \<open>
  The rest of what the harness uses of \<open>FuzzedDataProvider\<close>: a provider for some bytes, and bytes taken from
  one. \<open>ConsumeRemainingBytes\<close> takes as many as there are.
\<close>

record 'd byte_source =
  of_bytes :: "u8 list \<Rightarrow> 'd"
  ConsumeBytes :: "'d \<Rightarrow> nat \<Rightarrow> u8 list \<times> 'd"

definition source_ok :: "'d provider \<Rightarrow> 'd byte_source \<Rightarrow> bool" where
  "source_ok P B \<longleftrightarrow> (\<forall>bs. remaining_bytes P (of_bytes B bs) = length bs) \<and>
     (\<forall>d k. length (fst (ConsumeBytes B d k)) = min k (remaining_bytes P d) \<and>
       remaining_bytes P (snd (ConsumeBytes B d k)) = remaining_bytes P d - min k (remaining_bytes P d))"

fun consume_reader_data :: "'d byte_source \<Rightarrow> nat \<Rightarrow> 'd \<Rightarrow> u8 list list \<times> 'd" where
  "consume_reader_data B 0 fdp = ([], fdp)"
| "consume_reader_data B (Suc k) fdp =
     (let (bs, fdp1) = ConsumeBytes B fdp kMaxDataPerReader;
          (bss, fdp2) = consume_reader_data B k fdp1
      in (bs # bss, fdp2))"

text \<open>
  The arguments of the two calls of \<open>fuzzWithReaders\<close>, one for the queue of HIDL and one for that of AIDL: the flavor,
  the data of the writer and of the readers, and whether the calls block. \<open>None\<close>: the input is not used.
\<close>

definition LLVMFuzzerTestOneInput ::
  "'d provider \<Rightarrow> 'd byte_source \<Rightarrow> u8 list \<Rightarrow> (AidlFlavor \<times> u8 list \<times> u8 list list \<times> bool) option" where
  "LLVMFuzzerTestOneInput P B input =
     (if length input < 1 \<or> 50000 < length input then None else
        (let (fuzzSync, fdp1) = ConsumeBool P (of_bytes B input);
             (numReaders, fdp2) = ConsumeInRange P fdp1 0
               (if fuzzSync then kMaxNumSyncReaders else kMaxNumUnsyncReaders);
             (readerData, fdp3) = consume_reader_data B (unat numReaders) fdp2;
             (fuzzBlocking, fdp4) = ConsumeBool P fdp3;
             (writerData, fdp5) = ConsumeBytes B fdp4 (remaining_bytes P fdp4)
         in Some (if fuzzSync then SynchronizedReadWrite else UnsynchronizedWrite, writerData, readerData,
              fuzzSync \<and> fuzzBlocking)))"

text \<open>The call for the AIDL queue, when it does not block.\<close>

definition fuzz_input ::
  "nat \<Rightarrow> nat list \<Rightarrow> os \<Rightarrow> 'd provider \<Rightarrow> 'd byte_source \<Rightarrow> AidlFlavor \<Rightarrow> u8 list \<Rightarrow> u8 list list \<Rightarrow> world \<Rightarrow>
   world fuelled option" where
  "fuzz_input n js os P B U writerData readerData w =
     fuzz_with_readers n js os P U (map (of_bytes B) readerData) (of_bytes B writerData) w"

section \<open>The parts of an input\<close>

lemma source_okD:
  assumes "source_ok P B"
  shows "remaining_bytes P (of_bytes B bs) = length bs"
    "ConsumeBytes B d k = (bs, d') \<Longrightarrow> length bs = min k (remaining_bytes P d)"
    "ConsumeBytes B d k = (bs, d') \<Longrightarrow> remaining_bytes P d' = remaining_bytes P d - length bs"
  using assms unfolding source_ok_def by (simp, metis fst_conv, metis fst_conv snd_conv)

lemma consume_reader_data_result:
  assumes B: "source_ok P B"
  shows "consume_reader_data B k d = (bss, d') \<Longrightarrow>
    length bss = k \<and> ([] \<in> set bss \<longrightarrow> remaining_bytes P d' = 0) \<and> (\<forall>bs \<in> set bss. length bs \<le> kMaxDataPerReader) \<and>
    sum_list (map length bss) + remaining_bytes P d' = remaining_bytes P d"
proof (induction k arbitrary: d bss d')
  case (Suc k)
  obtain bs d1 where bs: "ConsumeBytes B d kMaxDataPerReader = (bs, d1)" by fastforce
  obtain r d2 where r: "consume_reader_data B k d1 = (r, d2)" by fastforce
  note b = source_okD(2,3) [OF B bs]
  have "bs = [] \<Longrightarrow> remaining_bytes P d1 = 0" using b by (simp add: kMaxDataPerReader_def split: if_splits)
  moreover have "remaining_bytes P d2 \<le> remaining_bytes P d1" using Suc.IH [OF r] by linarith
  ultimately show ?case using Suc.prems bs r b Suc.IH [OF r] by auto
qed simp

text \<open>
  Nothing of an input is used twice: the parts are together no longer than it is. The readers are served first, so
  when one of them gets nothing there is nothing left for the writer.
\<close>

lemma input_parts:
  assumes P: "provider_ok P" and B: "source_ok P B"
    and i: "LLVMFuzzerTestOneInput P B input = Some (U, writerData, readerData, blocking)"
  shows "length writerData + sum_list (map length readerData) \<le> length input" "length input \<le> 50000"
    "length readerData \<le> (if U = SynchronizedReadWrite then 1 else 5)"
    "\<forall>bs \<in> set readerData. length bs \<le> 1000" "blocking \<Longrightarrow> U = SynchronizedReadWrite"
    "writerData \<noteq> [] \<Longrightarrow> [] \<notin> set readerData"
proof -
  have size: "\<not> (length input < 1 \<or> 50000 < length input)" using i by (auto simp: LLVMFuzzerTestOneInput_def)
  obtain s d1 where s: "ConsumeBool P (of_bytes B input) = (s, d1)" by fastforce
  let ?max = "if s then kMaxNumSyncReaders else kMaxNumUnsyncReaders"
  obtain k d2 where k: "ConsumeInRange P d1 0 ?max = (k, d2)" by fastforce
  obtain rs d3 where rs: "consume_reader_data B (unat k) d2 = (rs, d3)" by fastforce
  obtain b d4 where b: "ConsumeBool P d3 = (b, d4)" by fastforce
  obtain ws d5 where ws: "ConsumeBytes B d4 (remaining_bytes P d4) = (ws, d5)" by fastforce
  have eq: "U = (if s then SynchronizedReadWrite else UnsynchronizedWrite)" "writerData = ws" "readerData = rs"
    "blocking \<longleftrightarrow> s \<and> b"
    using i size s k rs b ws by (auto simp: LLVMFuzzerTestOneInput_def Let_def)
  note r = consume_reader_data_result [OF B rs]
  have "remaining_bytes P d2 \<le> length input"
    using consume_le(3) [OF P s] consume_le(1) [OF P _ k] source_okD(1) [OF B, of input] by simp
  moreover have "length ws \<le> remaining_bytes P d3"
    using source_okD(2) [OF B ws] consume_le(3) [OF P b] by simp
  ultimately show "length writerData + sum_list (map length readerData) \<le> length input"
    using r by (simp add: eq)
  show "length input \<le> 50000" using size by simp
  have "k \<le> ?max" using consume_le(1) [OF P _ k] by simp
  then have "unat k \<le> (if s then 1 else 5)"
    by (cases s) (simp_all add: kMaxNumSyncReaders_def kMaxNumUnsyncReaders_def word_le_nat_alt)
  then show "length readerData \<le> (if U = SynchronizedReadWrite then 1 else 5)"
    using r by (cases s) (simp_all add: eq)
  have "remaining_bytes P d4 \<le> remaining_bytes P d3" using consume_le(3) [OF P b] by simp
  then show "writerData \<noteq> [] \<Longrightarrow> [] \<notin> set readerData"
    using r source_okD(2) [OF B ws] by (auto simp: eq)
  show "\<forall>bs \<in> set readerData. length bs \<le> 1000" "blocking \<Longrightarrow> U = SynchronizedReadWrite"
    using r by (simp_all add: eq kMaxDataPerReader_def)
qed

text \<open>
  C39. An input of the fuzzer that asks for non-blocking threads, on a system with memory and file descriptors
  enough: with data for the writer the run of the AIDL queue crashes under no schedule and ends under every
  fair one, with at most five readers and 50001 rounds to a thread. When the readers have used the data up, the
  run is an access to the first element of an empty vector, whatever the schedule.
\<close>

theorem fuzz_input_ends:
  assumes "fuzz_system os file" and "dup_keeps_file os file" and P: "provider_ok P" and B: "source_ok P B"
    and i: "LLVMFuzzerTestOneInput P B input = Some (U, writerData, readerData, False)"
  shows "length readerData \<le> 5 \<and>
    (if writerData = [] then \<forall>js. fuzz_input 50001 js os P B U writerData readerData w = None
     else (\<forall>js. fuzz_input 50001 js os P B U writerData readerData w \<noteq> None) \<and>
       (\<forall>f. fair (Suc (length readerData)) f \<longrightarrow>
         (\<exists>N w'. fuzz_input 50001 (map f [0..<N]) os P B U writerData readerData w = Some (Done w'))))"
proof (cases "writerData = []")
  case True
  then show ?thesis
    using input_parts(3) [OF P B i] source_okD(1) [OF B, of "[]"]
    by (cases U) (simp_all add: fuzz_input_def fuzz_with_readers_def)
next
  case False
  note parts = input_parts [OF P B i]
  have "bs \<noteq> [] \<and> length bs \<le> 50000" if "bs \<in> set (writerData # readerData)" for bs
    using False parts(1,2) parts(6) [OF False] member_le_sum_list [of "length bs" "map length readerData"] that
    by fastforce
  then have data: "\<forall>x \<in> set (of_bytes B writerData # map (of_bytes B) readerData).
      0 < remaining_bytes P x \<and> remaining_bytes P x < 50001"
    using source_okD(1) [OF B] by fastforce
  note ends = fuzz_readers_end [OF assms(1,2) P data, unfolded length_map, folded fuzz_input_def]
  have "fuzz_input 50001 js os P B U writerData readerData w \<noteq> None" for js
    by (rule conjunct1 [OF ends [OF fair_mod]])
  then show ?thesis using False parts(3) ends by (cases U) simp_all
qed

end
