(* ===== verification/FuzzRunExamples.thy ===== *)
theory FuzzRunExamples
  imports FuzzExamples FuzzEntry
begin

text \<open>
  Witnesses for the runs of the fuzzer, on a system in which closed files stay closed.
\<close>

text \<open>
  A new region is a new file, numbered by the length of the history; the descriptors of a file are the thousand
  numbers from a multiple on.
\<close>

definition fz_file :: "int \<Rightarrow> nat" where "fz_file fd = nat (fd div 1000)"

definition fz_os :: os where
  "fz_os = ex_os\<lparr>os_mmap := \<lambda>h n rw fd off. if off < 0 \<or> fd < 0 then Inl 22 else Inr (fz_file fd),
     os_dup := \<lambda>h fd. if fd < 0 \<or> is_closed fd h then - 1
       else fd div 1000 * 1000 + int (length h) mod 1000,
     os_ashmem := \<lambda>h sz. int (length h) * 1000\<rparr>"

lemma fz_system: "fuzz_system fz_os fz_file" "dup_keeps_file fz_os fz_file"
proof -
  have "system_ok fz_os" using ex_system_ok by (simp add: system_ok_def page_def fz_os_def)
  moreover have "new_regions fz_os fz_file"
    by (simp add: new_regions_def mmap_by_file_def fz_os_def Let_def nat_eq_iff fz_file_def)
  moreover have "0 \<le> os_dup fz_os h fd" if "0 \<le> fd" "\<not> is_closed fd h" for h fd
    using that by (simp add: fz_os_def pos_imp_zdiv_nonneg_iff)
  ultimately show "fuzz_system fz_os fz_file"
    unfolding fuzz_system_def
    by (simp add: handles_available_def closed_refused_def) (simp add: fz_os_def ex_os_def split: if_splits)
  have "(k * 1000 + int m mod 1000) div 1000 = k" for k :: int and m by simp
  then show "dup_keeps_file fz_os fz_file" by (simp add: dup_keeps_file_def fz_os_def fz_file_def)
qed

text \<open>
  A queue of three messages with two readers; the schedule of the first statement is one in which all take turns.
\<close>

abbreviation fz_data :: "u8 list" where "fz_data \<equiv> [0, 3, 0, 0, 1, 0, 77, 0, 78]"

abbreviation fz_readers :: "u8 list list" where "fz_readers \<equiv> [[1, 0], [0, 1, 1, 5]]"

lemma fz_queue: "\<exists>q u d1 w1 a d2 w2. fuzz_queue fz_os list_provider SynchronizedReadWrite False fz_data ex_start =
      Some (Some q, u, d1, w1) \<and> isValid q \<and>
    getAidlDesc fz_os list_provider (Some q) d1 w1 = Some (Some a, d2, w2)"
proof -
  have "case fuzz_queue fz_os list_provider SynchronizedReadWrite False fz_data ex_start of
      Some (Some q, u, d1, w1) \<Rightarrow> isValid q \<and>
        (case getAidlDesc fz_os list_provider (Some q) d1 w1 of Some (Some a, d2, w2) \<Rightarrow> True | _ \<Rightarrow> False)
    | _ \<Rightarrow> False"
    by code_simp
  then show ?thesis by (auto split: option.splits prod.splits)
qed

theorem fuzz_threads_stay_inside_witness:
  "\<exists>q u d1 w1 a d2 w2. fuzz_queue fz_os list_provider SynchronizedReadWrite False fz_data ex_start =
      Some (Some q, u, d1, w1) \<and>
    (\<forall>t \<in> set (fst (run_schedule (fuzz_step 12 fz_os list_provider SynchronizedReadWrite a u)
        (map (\<lambda>j. j mod 3) [0..<30])
        (WriterLoop (writer_acc 12 list_provider q a u d2) # map ReaderStart fz_readers, w2))).
      \<not> thread_crashed t \<and> (\<forall>p k. thread_access t = Some (p, k) \<longrightarrow> within (thread_pieces q t) p k))"
proof -
  obtain q u d1 w1 a d2 w2 where q: "fuzz_queue fz_os list_provider SynchronizedReadWrite False fz_data ex_start =
      Some (Some q, u, d1, w1)" "isValid q" "getAidlDesc fz_os list_provider (Some q) d1 w1 = Some (Some a, d2, w2)"
    using fz_queue by blast
  have "\<forall>x \<in> set (fz_data # fz_readers). remaining_bytes list_provider x < 12" by (simp add: list_provider_def)
  note inside = fuzz_threads_stay_inside [OF fz_system list_provider_ok q this surjective_pairing]
  have "\<not> (\<exists>x \<in> set fz_readers. remaining_bytes list_provider x = 0)" by (simp add: list_provider_def)
  with inside q(1) show ?thesis by blast
qed

text \<open>
  An input for a synchronized queue with one reader, which gets a thousand bytes; two are left for the writer. And one
  in which the reader gets all that there is.
\<close>

definition list_source :: "u8 list byte_source" where
  "list_source = \<lparr>of_bytes = \<lambda>bs. bs, ConsumeBytes = \<lambda>d k. (take k d, drop k d)\<rparr>"

lemma list_source_ok: "source_ok list_provider list_source"
  by (auto simp: source_ok_def list_provider_def list_source_def min_def)

definition fz_input :: "u8 list" where "fz_input = [1, 1] @ replicate 1000 1 @ [0, 5, 6]"

lemma fz_input_split:
  "LLVMFuzzerTestOneInput list_provider list_source fz_input =
    Some (SynchronizedReadWrite, [5, 6], [replicate 1000 1], False)"
  "LLVMFuzzerTestOneInput list_provider list_source [1, 1, 1, 0] = Some (SynchronizedReadWrite, [], [[1, 0]], False)"
  by (simp_all add: LLVMFuzzerTestOneInput_def ConsumeBool_def list_provider_def list_source_def fz_input_def
      kMaxNumSyncReaders_def kMaxDataPerReader_def)

theorem fuzz_input_ends_witness:
  "(\<exists>N w'. fuzz_input 50001 (map (\<lambda>j. j mod 2) [0..<N]) fz_os list_provider list_source SynchronizedReadWrite
      [5, 6] [replicate 1000 1] ex_start = Some (Done w')) \<and>
    fuzz_input 50001 [] fz_os list_provider list_source SynchronizedReadWrite [] [[1, 0]] ex_start = None"
proof (rule conjI)
  have "fair (Suc (length [replicate 1000 (1 :: u8)])) (\<lambda>j. j mod 2)" using fair_mod [of 1] by (simp add: numeral_2_eq_2)
  then show "\<exists>N w'. fuzz_input 50001 (map (\<lambda>j. j mod 2) [0..<N]) fz_os list_provider list_source
      SynchronizedReadWrite [5, 6] [replicate 1000 1] ex_start = Some (Done w')"
    using fuzz_input_ends [OF fz_system list_provider_ok list_source_ok fz_input_split(1)] by simp
  show "fuzz_input 50001 [] fz_os list_provider list_source SynchronizedReadWrite [] [[1, 0]] ex_start = None"
    using fuzz_input_ends [OF fz_system list_provider_ok list_source_ok fz_input_split(2)] by simp
qed

end
