(* ===== verification/Findings.thy ===== *)
theory Findings
  imports FuzzExamples
begin

text \<open>
  Behaviour of the code at its edges that its comments or callers do not expect, each shown on a
  concrete run of the model. None of these contradicts a property of the other theories: the
  hypotheses there exclude them.
\<close>

section \<open>Transactions\<close>

text \<open>\<open>getSlot\<close> one past the last slot is an address, not null.\<close>

lemma getSlot_one_past: "getSlot 2 ex_tx 3 = Some (Ptr (Shm 0) 20)"
  by (simp add: getSlot_def ex_tx_def tadd_def padd_def)

text \<open>The test of \<open>getMemRegionInfo\<close> wraps: slots from \<open>2\<^sup>6\<^sup>4 - 1\<close> on are accepted.\<close>

lemma getMemRegionInfo_wraps:
  "getMemRegionInfo 2 ex_tx (- 1) 2 = Some (0, 2, None, Some (Ptr (Shm 0) 36893488147419103244))"
proof -
  have "(1 :: u64) < - 1" by code_simp
  then show ?thesis by (simp add: getMemRegionInfo_def ex_tx_def tadd_def padd_def)
qed

text \<open>A transaction for \<open>2\<^sup>6\<^sup>3\<close> messages of two bytes each: the product is 0.\<close>

lemma beginRead_count_wraps:
  "\<exists>tx. beginRead ex_sync (ex_mem 6 10) (2 ^ 63) = Some (True, tx, ex_mem 6 10) \<and> \<not> tx_inside ex_sync tx"
proof -
  let ?tx = "ring_tx ex_sync 6 (2 ^ 63)"
  have "beginRead ex_sync (ex_mem 6 10) (2 ^ 63) = Some (True, ?tx, ex_mem 6 10)"
    by (simp add: beginRead_eq ex_wf ex_counters ex_loads)
  moreover have "unat (len (second ?tx)) = 2 ^ 63 - 3"
    by (simp add: ring_tx_lens contiguous_unat ex_wf)
  then have "\<not> region_inside ex_sync (second ?tx)"
    using ring_tx_bases(2) [OF ex_wf(1), of kSynchronizedReadWrite "2 ^ 63" 6]
    by (auto simp: region_inside_def)
  ultimately show ?thesis by (auto simp: tx_inside_def)
qed

text \<open>A misaligned write counter makes \<open>beginWrite\<close> fail, and the old transaction stays.\<close>

lemma beginWrite_keeps_result:
  "beginWrite ex_unsync (ex_mem 6 9) 1 ex_tx = Some (False, ex_tx)"
  by (simp add: beginWrite_eq ex_wf ex_counters)

section \<open>Counters\<close>

text \<open>
  The write counter has wrapped to 0 with three unread messages. The reader can read them, but
  the writer finds the queue empty.
\<close>

definition wrapped_mem :: mem where
  "wrapped_mem = wr_bytes (\<lambda>_ _. 0) (Ptr (Shm 0) 0)
     ([250, 255, 255, 255, 255, 255, 255, 255] @ [0, 0, 0, 0, 0, 0, 0, 0] @ [1, 2, 3, 4, 5, 6])"

lemma wrapped_counter_frees_unread:
  "map_option fst (beginRead ex_sync wrapped_mem 3) = Some True \<and>
    availableToWrite ex_sync wrapped_mem = Some 3 \<and>
    map_option fst (beginWrite ex_sync wrapped_mem 3 emptyMemTransaction) = Some True"
  by code_simp

text \<open>
  A descriptor whose ring has seven bytes for messages of two is accepted; once the counters have
  been around, the second of three messages is written at 18 and read at 17.
\<close>

definition odd_q :: MessageQueue where
  "odd_q = ex_sync\<lparr>mDesc := Some (ex_desc\<lparr>mGrantors := [\<lparr>flags = 0, fdIndex = 0, offset = 0, extent = 8\<rparr>,
     \<lparr>flags = 0, fdIndex = 0, offset = 8, extent = 8\<rparr>,
     \<lparr>flags = 0, fdIndex = 0, offset = 16, extent = 7\<rparr>]\<rparr>)\<rparr>"

lemma odd_ring_garbles:
  "case beginWrite odd_q (ex_mem 6 6) 3 emptyMemTransaction of None \<Rightarrow> False | Some (ok, tx) \<Rightarrow>
    ok \<and> tx_slots 2 tx 0 3 = [Ptr (Shm 0) 16, Ptr (Shm 0) 18, Ptr (Shm 0) 20]"
  "case beginRead odd_q (ex_mem 6 12) 1 of None \<Rightarrow> False | Some (ok, tx, m) \<Rightarrow>
    ok \<and> tx_slots 2 tx 0 1 = [Ptr (Shm 0) 16]"
  "case beginRead odd_q (ex_mem 8 12) 1 of None \<Rightarrow> False | Some (ok, tx, m) \<Rightarrow>
    ok \<and> tx_slots 2 tx 0 1 = [Ptr (Shm 0) 17]"
  by code_simp+

section \<open>Event flags\<close>

lemma wake_of_nothing: "wake os ef 0 w = Some (NO_ERROR, w)"
  by (simp add: wake_def)

text \<open>Without a place for the result \<open>waitHelper\<close> reports it, but a wait with \<open>retry\<close> may crash.\<close>

lemma wait_null_state:
  "waitHelper ex_os ex_ef 2 None 1 (ex_world 0) = Some (BAD_VALUE, None, ex_world 0)"
  "ef_wait 1 ex_os ex_ef 2 None 1 True (ex_world 0) = None"
  by (simp_all add: waitHelper_def ef_wait_def elapsedRealtimeNano_def ex_os_def ex_world_def ran_def
      Let_def)

section \<open>Descriptors\<close>

text \<open>An index of \<open>2\<^sup>3\<^sup>1\<close> passes the test of the conversion and becomes negative.\<close>

lemma conversion_negative_index:
  "convert_grantors [\<lparr>flags = 0, fdIndex = 2 ^ 31, offset = 0, extent = 8\<rparr>] [] =
    (True, [\<lparr>a_fdIndex = 2 ^ 31, a_offset = 0, a_extent = 8\<rparr>]) \<and> sint (2 ^ 31 :: i32) < 0"
  by code_simp

lemma assignment_without_memory:
  assumes "mHandle other = Some h" and "\<And>hs. \<not> os_handleCreate os hs (numFds h) (numInts h)"
  shows "shim_assign os this other w = None"
  using assms by (auto simp: shim_assign_def native_handle_create_def Let_def split: option.splits)

section \<open>The fuzzer\<close>

text \<open>
  A ring of 6 bytes at 16 for messages of 4. With the write counter at 4 the first region is empty; the writer of
  the fuzzer stores its message there all the same, in the bytes from 20 to 23.
\<close>

definition odd_fuzz_q :: MessageQueue where
  "odd_fuzz_q = fz_q\<lparr>flavor := kUnsynchronizedWrite, mReadPtr := Some (Ptr (Heap 0) 0),
     mDesc := Some \<lparr>mGrantors = size_layout 6 False, mHandle = None, mQuantum = 4, mFlags = 2\<rparr>\<rparr>"

lemma fuzz_writer_leaves_ring:
  "case writer_round list_provider odd_fuzz_q None True [7] (store64 (\<lambda>_ _. 0) (Ptr (Shm 0) 8) 4) of
    Some (d, m, Some p) \<Rightarrow> p = Ptr (Shm 0) 20 \<and> m (Shm 0) 20 = 7 \<and> \<not> in_slot odd_fuzz_q p
  | _ \<Rightarrow> False"
  by code_simp

section \<open>Initialization\<close>

text \<open>
  A system where the last of the four mappings, that of the event flag word, fails. The ring had
  been mapped at 0 with 22 bytes; what is unmapped in its place are 28 bytes from 8 bytes before.
\<close>

definition last_fails :: os where
  "last_fails = ex_os\<lparr>os_mmap := (\<lambda>h n rw fd off. if n = 28 then Inl 12 else Inr (ex_file fd))\<rparr>"

lemma init_error_unmaps_other_piece:
  "case MessageQueueBase_of_size Shim last_fails kSynchronizedReadWrite 2 3 True (- 1) 0 ex_start of
    None \<Rightarrow> False
  | Some (q, w) \<Rightarrow> \<not> isValid q \<and> EvMmap 22 True 7 0 (Inr 7) \<in> set (hist w) \<and>
      EvMunmap (Shm 7) 0 22 None \<notin> set (hist w) \<and> EvMunmap (Shm 7) (- 8) 28 None \<in> set (hist w)"
  by code_simp

end
