(* ===== verification/Spec2Isabelle.thy ===== *)
theory Spec2Isabelle
  imports SystemExamples ReleaseAcquireExamples UnsyncReadersExamples EventFlagThreadExamples BlockingExamples
    FuzzRunExamples Findings
begin

text \<open>
  A verification of libfmq, the fast message queue of Android: a ring buffer in shared memory with a
  read and a write counter, an event flag to block on, and the descriptors that carry a queue
  from one process to another. All file names below are relative to src/.

  \<^bold>\<open>The program.\<close> \<open>MessageQueueBase\<close> (include/fmq/MessageQueueBase.h) is a template over the message type,
  the descriptor type and one of two flavors. A \<^emph>\<open>synchronized\<close> queue has one writer and one reader that
  share both counters; the writer is refused when the ring is full. An \<^emph>\<open>unsynchronized\<close> queue has a
  writer that never waits and any number of readers, each with a read counter of its own; a
  reader that is overtaken is told so. A read or write is a begin (compute a transaction of one or two
  regions from the counters), a copy, and a commit (advance the own counter). The blocking calls
  retry around \<open>EventFlag\<close> (EventFlag.cpp), a futex word whose bits are set by \<open>wake\<close> and taken by \<open>wait\<close>. The
  constructors map the pieces named by the \<^emph>\<open>grantors\<close> of a descriptor; the descriptor of AIDL queues is
  \<open>AidlMQDescriptorShim\<close>, made from a size, from grantors or from what another process sent; that of HIDL queues
  (include/fmq/MessageQueue.h) is a type of another repository.

  \<^bold>\<open>How the code is represented.\<close> Machine integers keep their width (\<open>u64\<close>, \<open>u32\<close>, \<open>i32\<close>: words whose
  arithmetic wraps); signed times are unbounded. Memory is a map from objects (shared files, heap
  blocks) and offsets to bytes, a pointer an object with an offset, null is \<open>None\<close>. A crash (null
  dereference, failed \<open>check\<close>, division by zero) is the value \<open>None\<close> of an operation, so every theorem that
  an operation gives \<open>Some\<close> includes that it does not crash. Operations take and return the memory
  explicitly, or a \<open>world\<close>: the memory and the history of this thread's system calls. The system is a
  parameter of type \<open>os\<close>: a function of the history for each call, so that any behaviour of the
  kernel is some \<open>os\<close>; what other threads do to the memory shows at the system calls (\<open>os_run\<close>).

  \<^bold>\<open>The theories.\<close>
  \<^item> FMQ_Prelude: words, little-endian bytes, memory, and the locale \<open>atomic_cell\<close> of an atomic word,
    interpreted for 64 and 32 bits. FMQ_System: status codes, the parameter \<open>os\<close>, fuel for loops.
  \<^item> MQDescriptorBase: base/fmq/MQDescriptorBase.h (flavors, grantors, alignment) and \<open>check\<close> of FmqInternal.cpp.
  \<^item> AidlMQDescriptorShim, AidlMessageQueue: the descriptor (all constructors, assignment, destructor), the
    AIDL queue's constructors and \<open>dupeDesc\<close>, and the conversion of ConvertMQDescriptors.h.
    AidlDescriptorProps: layout of a single file, round trip, ownership of file descriptors.
  \<^item> MemTransaction: \<open>MemRegion\<close>, \<open>MemTransaction\<close>, \<open>getSlot\<close>, \<open>copyTo\<close> and \<open>copyFrom\<close>, on the level of bytes.
  \<^item> MessageQueueBase: the counters, begin, commit, \<open>read\<close> and \<open>write\<close>. MessageQueueRing: well-formed queues
    and memory safety for any counter values. MessageQueueEffects: what one call does to slots and
    counters. BoundedFifo: the locale \<open>bounded_fifo\<close>, the contract of a channel with its runs;
    MessageQueueFifo: the synchronized queue implements it (an interpretation on the code's
    \<open>read\<close> and \<open>write\<close>). MessageQueueUnsync: the other flavor against a log of all messages.
  \<^item> QueueThreads, QueueInterleaving, UnsyncInterleaving: a writer and a reader whose begin, copy and
    commit steps interleave in any order, for both flavors. UnsyncReaders: one writer and any number of
    readers of the unsynchronized flavor. QueueReleaseAcquire: the synchronized flavor with the memory
    orders of the code, each thread on a view of its own.
  \<^item> EventFlag, EventFlagProps: EventFlag.cpp and the contract of one caller. EventFlagThreads: any number of
    threads in \<open>wake\<close> and \<open>wait\<close> at once, no lost wake-up, each bit reported once. EventFlagCalls: the
    functions of EventFlag are sequences of those steps.
  \<^item> BlockingOps, BlockingQueue: \<open>writeBlocking\<close> and \<open>readBlocking\<close>; the locale \<open>blocking_attempt\<close> is what
    they need of \<open>write\<close> and \<open>read\<close>, and is interpreted on both. BlockingThreads: blocking calls of both ends at
    once, with attempts, the steps of EventFlagThreads and notifications in any order. BlockingLiveness: their
    progress under a fair schedule. BlockingCalls: the two functions are sequences of those steps.
  \<^item> MessageQueueInit: mapping, \<open>initMemory\<close>, both constructors, the destructor, over the template argument
    \<open>MQDescriptorType\<close>. DescriptorType: the locale \<open>queue_descriptor_type\<close>, what they need of it, interpreted on the
    shim. MessageQueueMapping and MessageQueueLifecycle: what they establish and release. HidlMessageQueue: the
    queue of MessageQueue.h for any descriptor type with that contract. AidlHandover, HidlMessageQueue: a queue made in
    one process and used in another.
  \<^item> FuzzHarness, FuzzBlocking: the thread functions of fuzzer/fmq_fuzzer.cpp. FuzzSetup, FuzzRun: the random
    descriptors, the queue of the writer, and that every construction a run asks for returns.
  \<^item> AccessPrograms: the non-blocking calls as trees of single loads and stores, which run alone are the calls
    of MessageQueueBase. AccessInterleaving: threads that share a state under a schedule, with the locales
    \<open>ending_threads\<close> (every fair schedule ends) and \<open>keeping_threads\<close> (what each thread keeps, all keep), both
    interpreted on access programs and on the threads of the fuzzer. FuzzThreads, FuzzReaders: the writer and the
    readers of the fuzzer at the same time, and the whole run with them. FuzzEntry: the entry point.
  \<^item> QueueExamples, SystemExamples, ConcurrencyExamples, ReleaseAcquireExamples, UnsyncReadersExamples,
    EventFlagThreadExamples, BlockingExamples, FuzzExamples, FuzzRunExamples: concrete
    instances of the properties. Findings: concrete runs in which the code does not do what its
    comments or callers expect.

  \<^bold>\<open>What is shown.\<close> The refinement theorems are the core: sequentially (\<open>write_refines_append\<close>,
  \<open>read_refines_take\<close>, \<open>queue_run_in_order\<close>), under interleaving (\<open>concurrent_fifo\<close>), with release
  and acquire instead of sequential consistency (\<open>release_acquire_fifo\<close>), for the
  blocking calls of one end (\<open>writeBlocking_is_one_write\<close>) and of both (\<open>blocking_ends_in_order\<close>), for the unsynchronized flavor (\<open>unsync_read_from_log\<close>,
  \<open>unsync_readers_concurrent\<close>) and across processes (\<open>handover_same_queue\<close>). Around them stand memory
  safety for arbitrary counters, error behaviour, bounds of layouts and mappings, exact release of what
  was mapped, and termination with a time limit. Two ends that block on each other sleep only with reason
  (\<open>blocked_ends_sleep_with_reason\<close>) and are woken (\<open>blocked_call_ends\<close>). A queue attached in another process is the
  same queue for either flavor, with and without a reset of the counters. The fuzzer, in which writer and readers overwrite each other's
  counters on purpose, stays in the queue under every schedule of single memory accesses
  (\<open>fuzz_threads_stay_inside\<close>) and ends under every fair one, when the input leaves data for the writer
  (\<open>fuzz_input_ends\<close>); the address of the first element of an empty vector counts as a crash.

  \<^bold>\<open>Bounds and fuel.\<close> Every counter theorem asks that the write counter does not pass \<open>2\<^sup>6\<^sup>4\<close> bytes;
  what happens beyond is in Findings (\<open>wrapped_counter_frees_unread\<close>). Loops that may wait for ever take
  fuel; with a time limit of \<open>t\<close> nanoseconds and a clock that advances, any fuel above \<open>t\<close> is enough
  (\<open>wait_with_limit_returns\<close>, \<open>blocking_with_limit_returns\<close>), since each round lasts at least one
  nanosecond. In the steps of BlockingThreads there is no clock: a time limit may be over wherever the code looks at
  it, so what holds there holds for every limit and for none. The loops of the fuzzer take one unit for each byte of data; an input has at most 50000.

  \<^bold>\<open>Assumptions.\<close> Atomic accesses are sequentially consistent, as those of EventFlag.cpp are in the code; the
  counters of a queue have release and acquire orders, with which the properties of the synchronized flavor
  are proved again (\<open>release_acquire_fifo\<close>). A copy is one step: for the synchronized flavor copies are proved free of
  races (\<open>release_acquire_race_free\<close>), so it does not matter when their bytes become visible; for the other flavor a copy
  that is interrupted is one whose data cannot be relied on. Properties
  of kernel, clock and libcutils enter as named hypotheses (\<open>errno_nonzero\<close>, \<open>clock_advances\<close>,
  \<open>mmap_by_file\<close>, \<open>dup_same_file\<close>, \<open>system_ok\<close>, \<open>kernel_compares\<close>, and that the other threads keep to their part:
  \<open>readers_only\<close>, \<open>others_step\<close>, \<open>other_end_calls\<close>; for the fuzzer \<open>fuzz_system\<close>, \<open>dup_keeps_file\<close> and, of
  the data provider of LLVM, \<open>provider_ok\<close> and \<open>source_ok\<close>), and those of the HIDL descriptor as \<open>queue_descriptor_type\<close>, each satisfied by a
  concrete system or type in the example theories.

  \<^bold>\<open>Not modelled.\<close> The HIDL descriptor is in another repository: a parameter of the model, whose properties
  the contract \<open>queue_descriptor_type\<close> names; its values are seen through the accessors of \<open>MQDescriptor\<close>.
  \<open>logError\<close>, \<open>errorWriteLog\<close>, the printing of descriptors and the offsets for tools have no effect on the state. Of the fuzzer the
  runs of a HIDL queue are left out: its descriptors are modelled (\<open>getHidlDesc\<close>), but with the random grantors the
  contract of the descriptor says nothing of the queue, and the harness itself may leave the ring
  (\<open>fuzz_writer_leaves_ring\<close>). Its blocking threads are modelled one at a time, with the others running at their
  system calls, not all together in one run of the harness. A mapping that succeeds only read-only (the second
  \<open>mmap\<close> of \<open>mapGrantorDescr\<close>) is a mapping like any other: that a later store to it, as the default reset when
  attaching makes, is refused by the processor is not part of the model. Tests and benchmarks only call the library; the build files configure the
  compiler. \<open>ashmem_set_prot_region\<close> is left out, since its result is not used.
\<close>

end
